(* ===== verification/Go_Prelude.thy ===== *)
theory Go_Prelude
  imports
    Main
    "HOL-Library.Word"
    "HOL-Library.AList"
    "HOL-Library.Char_ord"
    "HOL-Library.List_Lexorder"
begin

text \<open>
  What the components share of the Go language: fixed-width integers, run-time panics,
  pointers that may be nil, and maps.

  \<^item> A Go string is a sequence of bytes, here a \<^typ>\<open>string\<close> (HOL's characters are the
    256 byte values); the built-in order on strings is the bytewise lexicographic one, which
    is the order of \<^typ>\<open>char list\<close> loaded here.
  \<^item> A value of type \<open>'a go\<close> is what a call does: it returns, or it panics.  A Go function
    that returns a value and an error is modelled by a sum, the error on the left.
  \<^item> A pointer is an \<open>option\<close>, with \<open>None\<close> for nil.
  \<^item> A map is an association list with distinct keys, read in the order in which a
    \<open>range\<close> loop visits it.  Go leaves that order open; the lemmas that say a result
    depends on \<open>map_of\<close> alone are what makes the result independent of it.
\<close>

section \<open>Integers, panics, pointers\<close>

type_synonym int64 = "64 word"
type_synonym uint64 = "64 word"
type_synonym uint32 = "32 word"
type_synonym uint8 = "8 word"
type_synonym byte = "8 word"

datatype go_panic =
    NilDereference
  | IndexOutOfRange
  | SliceOutOfRange
  | SendOnClosedChannel
  | CloseOfClosedChannel

datatype 'a go = Return 'a | Panic go_panic

fun go_bind :: "'a go \<Rightarrow> ('a \<Rightarrow> 'b go) \<Rightarrow> 'b go" where
  "go_bind (Return a) f = f a"
| "go_bind (Panic p) f = Panic p"

fun go_map :: "('a \<Rightarrow> 'b) \<Rightarrow> 'a go \<Rightarrow> 'b go" where
  "go_map f (Return a) = Return (f a)"
| "go_map f (Panic p) = Panic p"

lemma go_bind_Return_iff [simp]:
  "go_bind x f = Return b \<longleftrightarrow> (\<exists>a. x = Return a \<and> f a = Return b)"
  by (cases x) auto

lemma go_bind_assoc: "go_bind (go_bind x f) g = go_bind x (\<lambda>a. go_bind (f a) g)"
  by (cases x) auto

lemma go_map_Return_iff [simp]: "go_map f x = Return b \<longleftrightarrow> (\<exists>a. x = Return a \<and> b = f a)"
  by (cases x) auto

text \<open>
  Indexing \<open>xs[i]\<close> and slicing \<open>xs[i:j]\<close> of a string or of a slice whose capacity is its
  length: both check their bounds and panic outside them.
\<close>

definition go_index :: "'a list \<Rightarrow> nat \<Rightarrow> 'a go" where
  "go_index xs i = (if i < length xs then Return (xs ! i) else Panic IndexOutOfRange)"

definition go_slice :: "'a list \<Rightarrow> nat \<Rightarrow> nat \<Rightarrow> 'a list go" where
  "go_slice xs i j =
     (if i \<le> j \<and> j \<le> length xs then Return (take (j - i) (drop i xs)) else Panic SliceOutOfRange)"

lemma go_bind_Panic_iff:
  "go_bind x f = Panic p \<longleftrightarrow> x = Panic p \<or> (\<exists>a. x = Return a \<and> f a = Panic p)"
  by (cases x) auto

lemma go_index_Return_iff [simp]: "go_index xs i = Return x \<longleftrightarrow> i < length xs \<and> x = xs ! i"
  by (auto simp: go_index_def)

lemma go_index_Panic_iff [simp]:
  "go_index xs i = Panic p \<longleftrightarrow> length xs \<le> i \<and> p = IndexOutOfRange"
  by (auto simp: go_index_def)

lemma go_slice_Return_iff [simp]:
  "go_slice xs i j = Return ys \<longleftrightarrow> i \<le> j \<and> j \<le> length xs \<and> ys = take (j - i) (drop i xs)"
  by (auto simp: go_slice_def)

lemma go_slice_Panic_iff [simp]:
  "go_slice xs i j = Panic p \<longleftrightarrow> \<not> (i \<le> j \<and> j \<le> length xs) \<and> p = SliceOutOfRange"
  by (auto simp: go_slice_def)

lemma go_index_Cons [simp]:
  "go_index (x # xs) 0 = Return x" "go_index (x # xs) (Suc i) = go_index xs i"
  by (simp_all add: go_index_def)

lemma go_slice_drop_ends [simp]: "go_slice (x # xs @ [y]) (Suc 0) (Suc (length xs)) = Return xs"
  by (simp add: go_slice_def)

text \<open>The comparisons the sources use on \<open>int64\<close> and \<open>uint64\<close> values.\<close>

definition int64_gt :: "int64 \<Rightarrow> int64 \<Rightarrow> bool" where
  "int64_gt x y \<longleftrightarrow> sint y < sint x"

definition uint64_gt :: "uint64 \<Rightarrow> uint64 \<Rightarrow> bool" where
  "uint64_gt x y \<longleftrightarrow> y < x"

text \<open>
  Incrementing an \<open>int64\<close> wraps from the largest value to the smallest; below that it
  adds one to the signed value.
\<close>

lemma sint64_range: "- (2 ^ 63) \<le> sint (x :: int64)" "sint (x :: int64) < 2 ^ 63"
  using sint_ge [of x] sint_lt [of x] by simp_all

lemma sint64_of_int:
  assumes "- (2 ^ 63) \<le> i" and "i < 2 ^ 63"
  shows "sint (word_of_int i :: int64) = i"
  using assms by (simp add: sint_sbintrunc' signed_take_bit_int_eq_self)

lemma sint64_add_one:
  assumes "sint (x :: int64) < 2 ^ 63 - 1"
  shows "sint (x + 1) = sint x + 1"
proof -
  have "x + 1 = word_of_int (sint x + 1)"
    by simp
  moreover have "- (2 ^ 63) \<le> sint x + 1"
    using sint64_range(1) [of x] by simp
  ultimately show ?thesis
    using assms sint64_of_int [of "sint x + 1"] by simp
qed

lemma uint64_add_one:
  assumes "uint (x :: uint64) < 2 ^ 64 - 1"
  shows "uint (x + 1) = uint x + 1"
  using assms by (simp add: uint_word_ariths)

section \<open>Maps\<close>

type_synonym ('k, 'v) gomap = "('k \<times> 'v) list"

text \<open>Reading a missing key gives the zero value of the element type.\<close>

definition mget :: "('k, 'v::zero) gomap \<Rightarrow> 'k \<Rightarrow> 'v" where
  "mget m k = (case map_of m k of None \<Rightarrow> 0 | Some v \<Rightarrow> v)"

definition mput :: "'k \<Rightarrow> 'v \<Rightarrow> ('k, 'v) gomap \<Rightarrow> ('k, 'v) gomap" where
  "mput k v m = AList.update k v m"

definition mkeys :: "('k, 'v) gomap \<Rightarrow> 'k list" where
  "mkeys m = map fst m"

text \<open>The representation invariant: no key occurs twice.\<close>

definition mwf :: "('k, 'v) gomap \<Rightarrow> bool" where
  "mwf m \<longleftrightarrow> distinct (map fst m)"

lemma mput_simps [simp, code]:
  "mput k v [] = [(k, v)]"
  "mput k v (p # m) = (if fst p = k then (k, v) # m else p # mput k v m)"
  by (simp_all add: mput_def)

lemma map_of_mput [simp]: "map_of (mput k v m) = (map_of m)(k \<mapsto> v)"
  by (simp add: mput_def update_conv')

lemma set_mkeys [simp]: "set (mkeys m) = dom (map_of m)"
  by (simp add: mkeys_def dom_map_of_conv_image_fst)

lemma dom_map_of_Cons: "dom (map_of ((k, v) # m)) = insert k (dom (map_of m))"
  by auto

lemma mkeys_Nil [simp]: "mkeys [] = []"
  by (simp add: mkeys_def)

lemma mget_Nil [simp]: "mget [] k = 0"
  by (simp add: mget_def)

lemma mget_mput [simp]: "mget (mput k v m) k' = (if k' = k then v else mget m k')"
  by (simp add: mget_def)

lemma mget_notin [simp]: "map_of m k = None \<Longrightarrow> mget m k = 0"
  by (simp add: mget_def)

lemma mget_cong: "map_of m = map_of m' \<Longrightarrow> mget m = mget m'"
  by (simp add: mget_def fun_eq_iff)

lemma mget_Cons: "mget ((k, v) # m) k' = (if k' = k then v else mget m k')"
  by (simp add: mget_def)

lemma mwf_Nil [simp]: "mwf []"
  by (simp add: mwf_def)

lemma mwf_Cons: "mwf ((k, v) # m) \<longleftrightarrow> k \<notin> dom (map_of m) \<and> mwf m"
  by (simp add: mwf_def dom_map_of_conv_image_fst)

lemma mwf_mput [simp, intro]: "mwf m \<Longrightarrow> mwf (mput k v m)"
  by (simp add: mwf_def mput_def distinct_update)

lemma mwf_mkeys [simp]: "distinct (mkeys m) = mwf m"
  by (simp add: mkeys_def mwf_def)

lemma mwf_mget: "mwf m \<Longrightarrow> (k, v) \<in> set m \<Longrightarrow> mget m k = v"
  by (simp add: mwf_def mget_def)

lemma mput_not_Nil [simp]: "mput k v m \<noteq> []"
  by (simp add: mput_def)

lemma length_mput: "length (mput k v m) = (if k \<in> dom (map_of m) then length m else Suc (length m))"
  by (induction m) auto

lemma ball_mget_iff:
  "mwf m \<Longrightarrow> (\<forall>(k, v) \<in> set m. P v) \<longleftrightarrow> (\<forall>k \<in> dom (map_of m). P (mget m k))"
  by (auto simp: mwf_mget dom_map_of_conv_image_fst)

lemma mwf_map_of_eq_length:
  assumes "mwf m" "mwf m'" "map_of m = map_of m'"
  shows "length m = length m'"
proof -
  have "card (dom (map_of m)) = length m" if "mwf m" for m :: "('a \<times> 'b) list"
    using that by (metis length_map distinct_card mwf_def dom_map_of_conv_image_fst image_set)
  with assms show ?thesis by metis
qed

lemma map_of_eqI:
  assumes "dom (map_of m) = dom (map_of m')" and "\<And>k. mget m k = mget m' k"
  shows "map_of m = map_of m'"
proof
  fix k
  show "map_of m k = map_of m' k"
  proof (cases "k \<in> dom (map_of m)")
    case True
    with assms(1) obtain v v' where "map_of m k = Some v" "map_of m' k = Some v'"
      by (metis domD)
    with assms(2) [of k] show ?thesis by (simp add: mget_def)
  next
    case False
    with assms(1) show ?thesis by (metis domIff)
  qed
qed

text \<open>Sorting the keys gives the same list whatever order the map was visited in.\<close>

lemma sort_mkeys: "mwf m \<Longrightarrow> sort (mkeys m) = sorted_list_of_set (dom (map_of m))"
  by (metis mwf_mkeys set_mkeys sorted_list_of_set_sort_remdups distinct_remdups_id)

lemma map_of_entries_Nil: "map_of m = map_of m' \<Longrightarrow> m = [] \<longleftrightarrow> m' = []"
  by (metis map_of_eq_empty_iff)

section \<open>Byte slices and time stamps\<close>

text \<open>A byte slice that may be nil; the length of a nil slice is zero.\<close>

type_synonym bytes = "byte list option"

definition blen :: "bytes \<Rightarrow> nat" where
  "blen b = (case b of None \<Rightarrow> 0 | Some bs \<Rightarrow> length bs)"

lemma blen_simps [simp]: "blen None = 0" "blen (Some bs) = length bs"
  by (simp_all add: blen_def)

text \<open>The contents of a slice, as \<open>append\<close> and \<open>range\<close> see it.\<close>

definition the_bytes :: "bytes \<Rightarrow> byte list" where
  "the_bytes b = (case b of None \<Rightarrow> [] | Some bs \<Rightarrow> bs)"

lemma the_bytes_simps [simp]: "the_bytes None = []" "the_bytes (Some bs) = bs"
  by (simp_all add: the_bytes_def)

lemma length_the_bytes [simp]: "length (the_bytes b) = blen b"
  by (cases b) simp_all

text \<open>Conversion between strings and byte slices.\<close>

definition string_bytes :: "string \<Rightarrow> byte list" where
  "string_bytes s = map (\<lambda>c. of_nat (of_char c)) s"

definition bytes_string :: "byte list \<Rightarrow> string" where
  "bytes_string bs = map (\<lambda>b. char_of (unat b)) bs"

lemma length_string_bytes [simp]: "length (string_bytes s) = length s"
  by (simp add: string_bytes_def)

lemma length_bytes_string [simp]: "length (bytes_string bs) = length bs"
  by (simp add: bytes_string_def)

lemma bytes_string_bytes [simp]: "bytes_string (string_bytes s) = s"
proof -
  have "char_of (unat (of_nat (of_char c) :: byte)) = c" for c :: char
    by (simp add: unat_of_nat)
  then show ?thesis
    by (simp add: bytes_string_def string_bytes_def comp_def)
qed

text \<open>
  A \<open>time.Time\<close> as far as the packages use one: seconds since the Unix epoch, nanoseconds,
  and whether the location is UTC.  The zero value is the first instant of year 1.
\<close>

record Time =
  unix_sec :: int64
  nsec :: nat
  utc :: bool

definition zero_time :: Time where
  "zero_time = \<lparr>unix_sec = word_of_int (- 62135596800), nsec = 0, utc = True\<rparr>"

definition Time_IsZero :: "Time \<Rightarrow> bool" where
  "Time_IsZero t \<longleftrightarrow> sint (unix_sec t) = - 62135596800 \<and> nsec t = 0"

definition Time_Unix :: "int64 \<Rightarrow> Time" where
  "Time_Unix sec = \<lparr>unix_sec = sec, nsec = 0, utc = False\<rparr>"

end
