(* ===== verification/Counter_Vector.thy ===== *)
theory Counter_Vector
  imports Go_Prelude
begin

text \<open>
  The loops that clock/clock.go and version/vector.go share.  The two files run the same
  loops over a \<open>map[string]int64\<close> and a \<open>map[string]uint64\<close>; the comparison of two
  counters is the only difference, so it is an argument (\<open>gt\<close>) of the loops here.

  The second half states what the loops compute against an abstract specification: a vector
  is a function from identifiers to integers, merging is the pointwise maximum and comparing
  is the pointwise order.  The locale \<open>counter_order\<close> is the interface a counter type
  provides to the loops; it is interpreted for signed and for unsigned 64-bit counters.  The
  locale \<open>causal_vector\<close> is the interface a vector provides to its users, with the order
  and semilattice laws proved from it once.
\<close>

section \<open>The result of a comparison\<close>

datatype Comparison = ConcurrentCmp | BeforeCmp | AfterCmp | EqualCmp

text \<open>The constants are numbered by \<open>iota\<close>; the relation seen from the other side.\<close>

fun Comparison_code :: "Comparison \<Rightarrow> int" where
  "Comparison_code ConcurrentCmp = 0"
| "Comparison_code BeforeCmp = 1"
| "Comparison_code AfterCmp = 2"
| "Comparison_code EqualCmp = 3"

fun flip_cmp :: "Comparison \<Rightarrow> Comparison" where
  "flip_cmp BeforeCmp = AfterCmp"
| "flip_cmp AfterCmp = BeforeCmp"
| "flip_cmp ConcurrentCmp = ConcurrentCmp"
| "flip_cmp EqualCmp = EqualCmp"

section \<open>The loops\<close>

text \<open>The constructor's loop: every given identifier is set to zero.\<close>

fun init_range :: "'k list \<Rightarrow> ('k, 'v::zero) gomap \<Rightarrow> ('k, 'v) gomap" where
  "init_range [] m = m"
| "init_range (k # ks) m = init_range ks (mput k 0 m)"

text \<open>The loop of \<open>Copy\<close>.\<close>

fun copy_range :: "('k, 'v) gomap \<Rightarrow> ('k, 'v) gomap \<Rightarrow> ('k, 'v) gomap" where
  "copy_range [] m = m"
| "copy_range ((k, v) # src) m = copy_range src (mput k v m)"

text \<open>The loop of \<open>Merge\<close>.\<close>

fun merge_range ::
  "('v \<Rightarrow> 'v \<Rightarrow> bool) \<Rightarrow> ('k, 'v::zero) gomap \<Rightarrow> ('k, 'v) gomap \<Rightarrow> ('k, 'v) gomap" where
  "merge_range gt [] m = m"
| "merge_range gt ((k, otherVal) # other) m =
     (let currentVal = mget m k in
      merge_range gt other
        (if gt otherVal currentVal then mput k otherVal m
         else if currentVal = 0 \<and> otherVal = 0 then mput k 0 m
         else m))"

text \<open>The loop that looks for a positive value when the other side is empty.\<close>

fun any_positive :: "('v \<Rightarrow> 'v \<Rightarrow> bool) \<Rightarrow> ('k, 'v::zero) gomap \<Rightarrow> bool" where
  "any_positive gt [] = False"
| "any_positive gt ((k, v) # m) = (if gt v 0 then True else any_positive gt m)"

text \<open>The loops that collect the identifiers of both sides in a set.\<close>

fun collect_range :: "('k, 'v) gomap \<Rightarrow> ('k, unit) gomap \<Rightarrow> ('k, unit) gomap" where
  "collect_range [] acc = acc"
| "collect_range ((k, v) # m) acc = collect_range m (mput k () acc)"

text \<open>
  The loop over the collected identifiers, with its two flags and its early exit, and the
  code after it.
\<close>

fun compare_range ::
  "('v \<Rightarrow> 'v \<Rightarrow> bool) \<Rightarrow> ('k, 'v::zero) gomap \<Rightarrow> ('k, 'v) gomap \<Rightarrow> 'k list \<Rightarrow>
   bool \<Rightarrow> bool \<Rightarrow> Comparison" where
  "compare_range gt c other [] hasGreater hasLess =
     (if hasGreater \<and> \<not> hasLess then AfterCmp
      else if hasLess \<and> \<not> hasGreater then BeforeCmp
      else EqualCmp)"
| "compare_range gt c other (node # nodes) hasGreater hasLess =
     (let cVal = mget c node;
          otherVal = mget other node;
          hasGreater' = (if gt cVal otherVal then True else hasGreater);
          hasLess' = (if gt cVal otherVal then hasLess
                      else if gt otherVal cVal then True else hasLess)
      in if hasGreater' \<and> hasLess' then ConcurrentCmp
         else compare_range gt c other nodes hasGreater' hasLess')"

text \<open>
  The whole body of \<open>Compare\<close>; \<open>None\<close> stands for a nil vector or a nil map.  The set of
  identifiers is built by the code itself, so the order in which the last loop visits it is an
  argument of its own: \<open>visit\<close> arranges the collected identifiers, and Go may use any
  arrangement in which each of them occurs once (\<open>range_order\<close>).
\<close>

definition range_order :: "('k list \<Rightarrow> 'k list) \<Rightarrow> bool" where
  "range_order visit \<longleftrightarrow>
     (\<forall>ks. distinct ks \<longrightarrow> distinct (visit ks) \<and> set (visit ks) = set ks)"

definition compare_vectors ::
  "('v \<Rightarrow> 'v \<Rightarrow> bool) \<Rightarrow> ('k list \<Rightarrow> 'k list) \<Rightarrow>
   ('k, 'v::zero) gomap option \<Rightarrow> ('k, 'v) gomap option \<Rightarrow> Comparison"
  where
  "compare_vectors gt visit c other =
     (let cEmpty = (case c of None \<Rightarrow> True | Some m \<Rightarrow> length m = 0);
          otherEmpty = (case other of None \<Rightarrow> True | Some m \<Rightarrow> length m = 0);
          cm = (case c of None \<Rightarrow> [] | Some m \<Rightarrow> m);
          om = (case other of None \<Rightarrow> [] | Some m \<Rightarrow> m)
      in if cEmpty \<and> otherEmpty then EqualCmp
         else if cEmpty then (if any_positive gt om then BeforeCmp else EqualCmp)
         else if otherEmpty then (if any_positive gt cm then AfterCmp else EqualCmp)
         else (let allNodes = collect_range om (collect_range cm [])
               in compare_range gt cm om (visit (mkeys allNodes)) False False))"

text \<open>The loop of \<open>IsEmpty\<close>.\<close>

fun all_zero :: "('k, 'v::zero) gomap \<Rightarrow> bool" where
  "all_zero [] = True"
| "all_zero ((k, v) # m) = (if v \<noteq> 0 then False else all_zero m)"

text \<open>
  The entries of a vector that may be nil, its representation invariant, and the integer
  each identifier stands for.
\<close>

definition entries :: "('k, 'v) gomap option \<Rightarrow> ('k, 'v) gomap" where
  "entries c = (case c of None \<Rightarrow> [] | Some m \<Rightarrow> m)"

definition vabs :: "('v::zero \<Rightarrow> int) \<Rightarrow> ('k, 'v) gomap option \<Rightarrow> 'k \<Rightarrow> int" where
  "vabs val c k = val (mget (entries c) k)"

definition vwf :: "('v::zero \<Rightarrow> int) \<Rightarrow> ('k, 'v) gomap option \<Rightarrow> bool" where
  "vwf val c \<longleftrightarrow> mwf (entries c) \<and> (\<forall>(k, v) \<in> set (entries c). 0 \<le> val v)"

lemma entries_simps [simp]: "entries None = []" "entries (Some m) = m"
  by (simp_all add: entries_def)

lemma entries_case [simp]: "(case m of None \<Rightarrow> [] | Some x \<Rightarrow> x) = entries m"
  by (simp add: entries_def)

section \<open>Facts that need no order on the counters\<close>

lemma mwf_init_range [simp]: "mwf m \<Longrightarrow> mwf (init_range ks m)"
  by (induction ks arbitrary: m) auto

lemma map_of_init_range:
  "map_of (init_range ks m) = (\<lambda>k. if k \<in> set ks then Some 0 else map_of m k)"
  by (induction ks arbitrary: m) auto

lemma mwf_copy_range [simp]: "mwf m \<Longrightarrow> mwf (copy_range src m)"
  by (induction src m rule: copy_range.induct) auto

lemma map_of_copy_range:
  "mwf src \<Longrightarrow> map_of (copy_range src m) = map_of m ++ map_of src"
proof (induction src m rule: copy_range.induct)
  case (2 k v src m)
  then show ?case
    by (auto simp: mwf_Cons map_add_def fun_eq_iff split: option.split)
qed simp

lemma copy_range_map_of [simp]: "mwf src \<Longrightarrow> map_of (copy_range src []) = map_of src"
  by (simp add: map_of_copy_range)

lemma range_order_set: "range_order visit \<Longrightarrow> mwf m \<Longrightarrow> set (visit (mkeys m)) = dom (map_of m)"
  by (simp add: range_order_def)

lemma range_order_id [simp, intro]: "range_order (\<lambda>ks. ks)"
  by (simp add: range_order_def)

lemma range_order_rev [simp, intro]: "range_order rev"
  by (simp add: range_order_def)

lemma mwf_collect_range [simp]: "mwf acc \<Longrightarrow> mwf (collect_range m acc)"
  by (induction m acc rule: collect_range.induct) auto

lemma dom_collect_range [simp]:
  "dom (map_of (collect_range m acc)) = dom (map_of m) \<union> dom (map_of acc)"
  by (induction m acc rule: collect_range.induct) (auto split: if_splits)

lemma mwf_merge_range [simp]: "mwf m \<Longrightarrow> mwf (merge_range gt other m)"
  by (induction gt other m rule: merge_range.induct) (auto simp: Let_def)

lemma all_zero_iff: "mwf m \<Longrightarrow> all_zero m \<longleftrightarrow> (\<forall>k. mget m k = 0)"
proof (induction m rule: all_zero.induct)
  case (2 k v m)
  then have "mget m k = 0" by (simp add: mwf_Cons domIff)
  then have "(\<forall>j. mget m j = 0) \<longleftrightarrow> (\<forall>j. j \<noteq> k \<longrightarrow> mget m j = 0)" by metis
  with 2 show ?case by (auto simp: mwf_Cons mget_Cons split: if_splits)
qed simp

section \<open>The abstract specification\<close>

text \<open>
  A vector is seen as a function from identifiers to integers, compared pointwise.
\<close>

definition cmp_spec :: "('k \<Rightarrow> int) \<Rightarrow> ('k \<Rightarrow> int) \<Rightarrow> Comparison" where
  "cmp_spec f g =
     (if f = g then EqualCmp else if f \<le> g then BeforeCmp
      else if g \<le> f then AfterCmp else ConcurrentCmp)"

lemma cmp_spec_flip: "cmp_spec g f = flip_cmp (cmp_spec f g)"
  by (auto simp: cmp_spec_def)

lemma cmp_spec_iffs:
  "cmp_spec f g = EqualCmp \<longleftrightarrow> f = g"
  "cmp_spec f g = BeforeCmp \<longleftrightarrow> f < g"
  "cmp_spec f g = AfterCmp \<longleftrightarrow> g < f"
  "cmp_spec f g = ConcurrentCmp \<longleftrightarrow> \<not> f \<le> g \<and> \<not> g \<le> f"
  by (auto simp: cmp_spec_def less_le)

lemma cmp_spec_le: "cmp_spec f g \<in> {BeforeCmp, EqualCmp} \<longleftrightarrow> f \<le> g"
  by (auto simp: cmp_spec_def)

lemma cmp_spec_code:
  "cmp_spec f g =
     (if (\<exists>k. g k < f k) \<and> (\<exists>k. f k < g k) then ConcurrentCmp
      else if \<exists>k. g k < f k then AfterCmp
      else if \<exists>k. f k < g k then BeforeCmp else EqualCmp)"
proof -
  have "f = g \<longleftrightarrow> (\<forall>k. \<not> g k < f k) \<and> (\<forall>k. \<not> f k < g k)"
    by (metis ext linorder_neqE not_less_iff_gr_or_eq)
  then show ?thesis
    by (auto simp: cmp_spec_def le_fun_def not_le not_less)
qed

section \<open>What a counter type provides\<close>

locale counter_order =
  fixes gt :: "'v::zero \<Rightarrow> 'v \<Rightarrow> bool"
    and val :: "'v \<Rightarrow> int"
  assumes gt_val: "gt x y \<longleftrightarrow> val y < val x"
    and val_inj: "val x = val y \<longleftrightarrow> x = y"
    and val_zero [simp]: "val 0 = 0"
begin

lemma val_eq_zero [simp]: "val x = 0 \<longleftrightarrow> x = 0"
  using val_inj [of x 0] by simp

text \<open>One visit of the merge loop leaves the maximum at the visited identifier.\<close>

lemma merge_visit:
  "val (mget (if gt w (mget m k) then mput k w m
              else if mget m k = 0 \<and> w = 0 then mput k 0 m else m) j) =
   (if j = k then max (val (mget m k)) (val w) else val (mget m j))"
  by (auto simp: gt_val max_def)

lemma merge_range_get:
  "mwf other \<Longrightarrow>
   val (mget (merge_range gt other m) k) =
     (if k \<in> dom (map_of other) then max (val (mget m k)) (val (mget other k))
      else val (mget m k))"
proof (induction other arbitrary: m)
  case (Cons p other)
  obtain k' w where p: "p = (k', w)" by fastforce
  let ?m = "if gt w (mget m k') then mput k' w m
            else if mget m k' = 0 \<and> w = 0 then mput k' 0 m else m"
  have "merge_range gt (p # other) m = merge_range gt other ?m"
    by (simp add: p Let_def)
  moreover have "val (mget (merge_range gt other ?m) k) =
     (if k \<in> dom (map_of other) then max (val (mget ?m k)) (val (mget other k))
      else val (mget ?m k))"
    using Cons by (simp add: p mwf_Cons)
  ultimately show ?case
    using Cons.prems by (auto simp only: p merge_visit mget_Cons mwf_Cons dom_def map_of.simps
        fun_upd_apply fst_conv snd_conv mem_Collect_eq split: if_splits)
qed simp

lemma merge_visit_dom:
  "dom (map_of (if gt w (mget m k) then mput k w m
                else if mget m k = 0 \<and> w = 0 then mput k 0 m else m)) =
   dom (map_of m) \<union> (if 0 \<le> val w then {k} else {})"
proof -
  have "mget m k = 0" if "k \<notin> dom (map_of m)"
    using that by (simp add: domIff)
  moreover have "val (mget m k) = 0 \<longleftrightarrow> mget m k = 0" "val w = 0 \<longleftrightarrow> w = 0"
    by simp_all
  ultimately show ?thesis
    by (cases "k \<in> dom (map_of m)") (auto simp: gt_val)
qed

text \<open>An entry of the other side that is negative and missing here is not added.\<close>

lemma merge_range_dom:
  "mwf other \<Longrightarrow> dom (map_of (merge_range gt other m)) =
     dom (map_of m) \<union> {k \<in> dom (map_of other). 0 \<le> val (mget other k)}"
proof (induction other arbitrary: m)
  case (Cons p other)
  obtain k' w where p: "p = (k', w)" by fastforce
  let ?m = "if gt w (mget m k') then mput k' w m
            else if mget m k' = 0 \<and> w = 0 then mput k' 0 m else m"
  have "{k \<in> dom (map_of (p # other)). 0 \<le> val (mget (p # other) k)} =
        (if 0 \<le> val w then {k'} else {}) \<union> {k \<in> dom (map_of other). 0 \<le> val (mget other k)}"
    using Cons.prems by (auto simp: p mwf_Cons mget_Cons)
  moreover have "merge_range gt (p # other) m = merge_range gt other ?m"
    by (simp add: p Let_def)
  moreover have "dom (map_of (merge_range gt other ?m)) =
     dom (map_of ?m) \<union> {k \<in> dom (map_of other). 0 \<le> val (mget other k)}"
    using Cons.prems by (intro Cons.IH) (simp add: p mwf_Cons)
  ultimately show ?case
    by (simp only: merge_visit_dom Un_assoc)
qed simp

text \<open>When no counter is negative the result is the pointwise maximum and has all keys.\<close>

lemma merge_range_max:
  assumes "mwf other" and "\<And>k. 0 \<le> val (mget m k)"
  shows "val (mget (merge_range gt other m) k) = max (val (mget m k)) (val (mget other k))"
  using assms(2) [of k] by (simp add: merge_range_get [OF assms(1)] domIff max_def)

lemma any_positive_get: "mwf m \<Longrightarrow> any_positive gt m \<longleftrightarrow> (\<exists>k. 0 < val (mget m k))"
proof (induction m)
  case (Cons p m)
  obtain k v where p: "p = (k, v)" by fastforce
  with Cons.prems have "mget m k = 0" by (simp add: mwf_Cons domIff)
  then have "(\<exists>j. 0 < val (mget m j)) \<longleftrightarrow> (\<exists>j. j \<noteq> k \<and> 0 < val (mget m j))"
    by (metis order_less_irrefl val_zero)
  with Cons show ?case by (auto simp: p gt_val mwf_Cons mget_Cons)
qed simp

text \<open>The comparison loop, for any list of identifiers and any state of the flags.\<close>

lemma compare_range_flags:
  "\<not> (g \<and> l) \<Longrightarrow>
   compare_range gt c other ks g l =
     (let G = (g \<or> (\<exists>k \<in> set ks. val (mget other k) < val (mget c k)));
          L = (l \<or> (\<exists>k \<in> set ks. val (mget c k) < val (mget other k)))
      in if G \<and> L then ConcurrentCmp else if G then AfterCmp
         else if L then BeforeCmp else EqualCmp)"
proof (induction ks arbitrary: g l)
  case (Cons k ks)
  then show ?case
    by (cases "gt (mget c k) (mget other k)"; cases "gt (mget other k) (mget c k)")
      (auto simp: Let_def gt_val)
qed (simp add: Let_def)

lemma compare_range_spec:
  assumes "dom (map_of c) \<union> dom (map_of other) \<subseteq> set ks"
  shows "compare_range gt c other ks False False =
         cmp_spec (\<lambda>k. val (mget c k)) (\<lambda>k. val (mget other k))"
proof -
  have "k \<in> set ks" if "val (mget c k) \<noteq> val (mget other k)" for k
    using that assms by (metis domIff in_mono mget_notin UnCI)
  then have "(\<exists>k \<in> set ks. val (mget other k) < val (mget c k)) \<longleftrightarrow>
             (\<exists>k. val (mget other k) < val (mget c k))"
    and "(\<exists>k \<in> set ks. val (mget c k) < val (mget other k)) \<longleftrightarrow>
         (\<exists>k. val (mget c k) < val (mget other k))"
    by (metis order_less_irrefl)+
  then show ?thesis
    by (simp add: compare_range_flags cmp_spec_code Let_def)
qed

text \<open>
  The whole comparison.  It is the pointwise order whenever both sides have entries, and
  for empty sides as long as no counter is negative.
\<close>

lemma compare_vectors_nonempty:
  assumes "range_order visit" and "entries c \<noteq> []" and "entries other \<noteq> []"
  shows "compare_vectors gt visit c other = cmp_spec (vabs val c) (vabs val other)"
proof -
  from assms(2,3) obtain cm om where "c = Some cm" "cm \<noteq> []" "other = Some om" "om \<noteq> []"
    by (cases c; cases other) auto
  then show ?thesis
    by (simp add: compare_vectors_def compare_range_spec range_order_set [OF assms(1)]
        vabs_def [abs_def])
qed

lemma vwf_nonneg: "vwf val c \<Longrightarrow> 0 \<le> vabs val c k"
  by (auto simp: vwf_def vabs_def mget_def dest: map_of_SomeD split: option.split)

lemma vwfI: "mwf (entries c) \<Longrightarrow> (\<And>k. 0 \<le> vabs val c k) \<Longrightarrow> vwf val c"
  by (fastforce simp: vwf_def vabs_def dest: mwf_mget)

lemma vwf_mwf: "vwf val c \<Longrightarrow> mwf (entries c)"
  by (simp add: vwf_def)

lemma vabs_empty: "entries c = [] \<Longrightarrow> vabs val c = (\<lambda>k. 0)"
  by (simp add: vabs_def [abs_def])

lemma compare_vectors_empty_left:
  assumes "entries c = []" and "vwf val other"
  shows "compare_vectors gt visit c other = cmp_spec (vabs val c) (vabs val other)"
proof -
  have "compare_vectors gt visit c other =
        (if any_positive gt (entries other) then BeforeCmp else EqualCmp)"
    using assms(1) by (cases c; cases other) (auto simp: compare_vectors_def Let_def)
  moreover have "any_positive gt (entries other) \<longleftrightarrow> (\<exists>k. 0 < vabs val other k)"
    using any_positive_get [OF vwf_mwf [OF assms(2)]] by (simp add: vabs_def)
  ultimately show ?thesis
    using vwf_nonneg [OF assms(2)] by (simp add: vabs_empty [OF assms(1)] cmp_spec_code not_less)
qed

lemma compare_vectors_empty_right:
  assumes "entries other = []" and "vwf val c"
  shows "compare_vectors gt visit c other = cmp_spec (vabs val c) (vabs val other)"
proof -
  have "compare_vectors gt visit c other =
        (if any_positive gt (entries c) then AfterCmp else EqualCmp)"
    using assms(1) by (cases c; cases other) (auto simp: compare_vectors_def Let_def)
  moreover have "any_positive gt (entries c) \<longleftrightarrow> (\<exists>k. 0 < vabs val c k)"
    using any_positive_get [OF vwf_mwf [OF assms(2)]] by (simp add: vabs_def)
  ultimately show ?thesis
    using vwf_nonneg [OF assms(2)] by (auto simp: vabs_empty [OF assms(1)] cmp_spec_code leD)
qed

lemma compare_vectors_spec:
  assumes "range_order visit" and "vwf val c" and "vwf val other"
  shows "compare_vectors gt visit c other = cmp_spec (vabs val c) (vabs val other)"
  using assms compare_vectors_nonempty compare_vectors_empty_left compare_vectors_empty_right
  by metis

text \<open>Neither loop depends on the order in which the maps are visited, nor the comparison
  on the order of the collected identifiers.\<close>

lemma merge_range_order:
  assumes "mwf other" "mwf other'" and "map_of m = map_of m'" "map_of other = map_of other'"
  shows "map_of (merge_range gt other m) = map_of (merge_range gt other' m')"
proof (rule map_of_eqI)
  have get: "mget m = mget m'" "mget other = mget other'"
    using assms(3,4) by (auto dest: mget_cong)
  show "dom (map_of (merge_range gt other m)) = dom (map_of (merge_range gt other' m'))"
    by (simp add: merge_range_dom assms get)
  show "mget (merge_range gt other m) k = mget (merge_range gt other' m') k" for k
    using assms by (simp add: val_inj [symmetric] merge_range_get get)
qed

lemma compare_vectors_order:
  assumes "range_order visit" "range_order visit'"
    and "mwf (entries c)" "mwf (entries c')" "mwf (entries d)" "mwf (entries d')"
    and "map_of (entries c) = map_of (entries c')" "map_of (entries d) = map_of (entries d')"
  shows "compare_vectors gt visit c d = compare_vectors gt visit' c' d'"
proof -
  have get: "mget (entries c) = mget (entries c')" "mget (entries d) = mget (entries d')"
    and nil: "entries c = [] \<longleftrightarrow> entries c' = []" "entries d = [] \<longleftrightarrow> entries d' = []"
    using assms(7,8) by (auto dest: mget_cong map_of_entries_Nil)
  have pos: "any_positive gt (entries c) \<longleftrightarrow> any_positive gt (entries c')"
    "any_positive gt (entries d) \<longleftrightarrow> any_positive gt (entries d')"
    by (simp_all add: any_positive_get assms(3-6) get)
  have code: "compare_vectors gt v x y =
      (if entries x = [] \<and> entries y = [] then EqualCmp
       else if entries x = [] then (if any_positive gt (entries y) then BeforeCmp else EqualCmp)
       else if entries y = [] then (if any_positive gt (entries x) then AfterCmp else EqualCmp)
       else cmp_spec (vabs val x) (vabs val y))"
    if "range_order v" for v and x y :: "('a, 'v) gomap option"
    using compare_vectors_nonempty [OF that, of x y]
    by (cases x; cases y) (auto simp: compare_vectors_def Let_def)
  show ?thesis
    by (simp only: code [OF assms(1)] code [OF assms(2)] nil pos vabs_def [abs_def] get)
qed

lemma vabs_merge_range:
  assumes "vwf val (Some m)" and "mwf other"
  shows "vabs val (Some (merge_range gt other m)) k =
         max (vabs val (Some m) k) (vabs val (Some other) k)"
  using merge_range_max [OF assms(2), of m k] vwf_nonneg [OF assms(1)] by (simp add: vabs_def)

lemma vwf_merge_range:
  assumes "vwf val (Some m)" and "mwf other"
  shows "vwf val (Some (merge_range gt other m))"
  using vwf_nonneg [OF assms(1)] vwf_mwf [OF assms(1)]
  by (intro vwfI) (auto simp: vabs_merge_range [OF assms] le_max_iff_disj)

end

interpretation signed: counter_order int64_gt sint
  by unfold_locales (auto simp: int64_gt_def intro: signed_word_eqI)

interpretation unsigned: counter_order uint64_gt uint
  by unfold_locales (auto simp: uint64_gt_def word_less_def intro: word_uint_eqI)

section \<open>What a vector provides to its users\<close>

text \<open>
  The contract of a clock or version vector: what an identifier stands for, merging as the
  pointwise maximum, comparing as the pointwise order.  The laws users rely on follow:
  \<open>Compare\<close> is a partial order up to \<open>Equal\<close>, and \<open>Merge\<close> is its least upper bound,
  hence idempotent, commutative and associative.
\<close>

locale causal_vector =
  fixes ok :: "'c \<Rightarrow> bool"
    and abs :: "'c \<Rightarrow> 'k \<Rightarrow> int"
    and merge :: "'c \<Rightarrow> 'c \<Rightarrow> 'c"
    and compare :: "'c \<Rightarrow> 'c \<Rightarrow> Comparison"
  assumes abs_nonneg: "ok a \<Longrightarrow> 0 \<le> abs a k"
    and merge_ok: "ok a \<Longrightarrow> ok b \<Longrightarrow> ok (merge a b)"
    and abs_merge: "ok a \<Longrightarrow> ok b \<Longrightarrow> abs (merge a b) k = max (abs a k) (abs b k)"
    and compare_abs: "ok a \<Longrightarrow> ok b \<Longrightarrow> compare a b = cmp_spec (abs a) (abs b)"
begin

lemma compare_refl: "ok a \<Longrightarrow> compare a a = EqualCmp"
  by (simp add: compare_abs cmp_spec_def)

lemma compare_flip: "ok a \<Longrightarrow> ok b \<Longrightarrow> compare b a = flip_cmp (compare a b)"
  by (simp add: compare_abs cmp_spec_flip [of "abs b"])

lemma before_trans:
  "ok a \<Longrightarrow> ok b \<Longrightarrow> ok c \<Longrightarrow> compare a b = BeforeCmp \<Longrightarrow> compare b c = BeforeCmp \<Longrightarrow>
   compare a c = BeforeCmp"
  by (auto simp: compare_abs cmp_spec_iffs)

lemma ancestor_trans:
  "ok a \<Longrightarrow> ok b \<Longrightarrow> ok c \<Longrightarrow> compare a b \<in> {BeforeCmp, EqualCmp} \<Longrightarrow>
   compare b c \<in> {BeforeCmp, EqualCmp} \<Longrightarrow> compare a c \<in> {BeforeCmp, EqualCmp}"
  unfolding compare_abs cmp_spec_le by (rule order_trans)

lemma equal_iff: "ok a \<Longrightarrow> ok b \<Longrightarrow> compare a b = EqualCmp \<longleftrightarrow> abs a = abs b"
  by (simp add: compare_abs cmp_spec_iffs)

lemma merge_upper:
  "ok a \<Longrightarrow> ok b \<Longrightarrow> compare a (merge a b) \<in> {BeforeCmp, EqualCmp}"
  "ok a \<Longrightarrow> ok b \<Longrightarrow> compare b (merge a b) \<in> {BeforeCmp, EqualCmp}"
  by (simp_all only: compare_abs merge_ok cmp_spec_le) (simp_all add: le_fun_def abs_merge)

lemma merge_least:
  "ok a \<Longrightarrow> ok b \<Longrightarrow> ok c \<Longrightarrow>
   compare (merge a b) c \<in> {BeforeCmp, EqualCmp} \<longleftrightarrow>
   compare a c \<in> {BeforeCmp, EqualCmp} \<and> compare b c \<in> {BeforeCmp, EqualCmp}"
  by (simp only: compare_abs merge_ok cmp_spec_le) (auto simp: le_fun_def abs_merge)

lemma merge_idem: "ok a \<Longrightarrow> compare (merge a a) a = EqualCmp"
  by (simp add: equal_iff merge_ok abs_merge fun_eq_iff)

lemma merge_commute: "ok a \<Longrightarrow> ok b \<Longrightarrow> compare (merge a b) (merge b a) = EqualCmp"
  by (simp add: equal_iff merge_ok abs_merge fun_eq_iff max.commute)

lemma merge_assoc:
  "ok a \<Longrightarrow> ok b \<Longrightarrow> ok c \<Longrightarrow>
   compare (merge (merge a b) c) (merge a (merge b c)) = EqualCmp"
  by (simp add: equal_iff merge_ok abs_merge fun_eq_iff max.assoc)

end

end
