(* ===== verification/Vector_Clock.thy ===== *)
theory Vector_Clock
  imports Counter_Vector
begin

text \<open>
  The vector clock of clock/clock.go: the record, the constructor and the methods, and what
  makes them correct.  A method's receiver and its \<open>*Clock\<close> arguments are pointers that may
  be nil, and the map inside a clock may be nil too (the zero value of the struct).  A method
  that mutates its receiver returns the new receiver; one that dereferences a nil pointer
  panics.  These are functions on values; Clock\_Heap runs the same methods on pointers.  The
  textual form is in the theory Vector\_Text.
\<close>

section \<open>State and operations\<close>

type_synonym NodeID = string

record Clock =
  clock :: "(NodeID, int64) gomap option"

definition NewClock :: "NodeID list \<Rightarrow> Clock" where
  "NewClock nodes = \<lparr>clock = Some (init_range nodes [])\<rparr>"

definition Clock_Copy :: "Clock option \<Rightarrow> Clock" where
  "Clock_Copy c = (case c of
       None \<Rightarrow> NewClock []
     | Some cl \<Rightarrow> \<lparr>clock = Some (copy_range (entries (clock cl)) [])\<rparr>)"

definition Clock_Increment :: "Clock option \<Rightarrow> NodeID \<Rightarrow> (Clock \<times> int64) go" where
  "Clock_Increment c node = (case c of
       None \<Rightarrow> Panic NilDereference
     | Some cl \<Rightarrow>
         (let m = (case clock cl of None \<Rightarrow> [] | Some m \<Rightarrow> m);
              m' = mput node (mget m node + 1) m
          in Return (cl\<lparr>clock := Some m'\<rparr>, mget m' node)))"

definition Clock_Get :: "Clock option \<Rightarrow> NodeID \<Rightarrow> int64" where
  "Clock_Get c node = (case c of
       None \<Rightarrow> 0
     | Some cl \<Rightarrow> (case clock cl of None \<Rightarrow> 0 | Some m \<Rightarrow> mget m node))"

definition Clock_Set :: "Clock option \<Rightarrow> NodeID \<Rightarrow> int64 \<Rightarrow> Clock go" where
  "Clock_Set c node val = (case c of
       None \<Rightarrow> Panic NilDereference
     | Some cl \<Rightarrow>
         (let m = (case clock cl of None \<Rightarrow> [] | Some m \<Rightarrow> m)
          in Return (cl\<lparr>clock := Some (mput node val m)\<rparr>)))"

text \<open>
  \<open>Merge\<close> looks at \<open>other\<close> first: when there is nothing to merge a nil receiver is
  never dereferenced.
\<close>

definition Clock_Merge :: "Clock option \<Rightarrow> Clock option \<Rightarrow> Clock option go" where
  "Clock_Merge c other = (case other of
       None \<Rightarrow> Return c
     | Some ot \<Rightarrow> (case clock ot of
           None \<Rightarrow> Return c
         | Some om \<Rightarrow> (case c of
               None \<Rightarrow> Panic NilDereference
             | Some cl \<Rightarrow>
                 (let m = (case clock cl of None \<Rightarrow> [] | Some m \<Rightarrow> m)
                  in Return (Some (cl\<lparr>clock := Some (merge_range int64_gt om m)\<rparr>))))))"

text \<open>The map behind a pointer: nil for a nil pointer and for a nil map.\<close>

definition clock_map :: "Clock option \<Rightarrow> (NodeID, int64) gomap option" where
  "clock_map c = (case c of None \<Rightarrow> None | Some cl \<Rightarrow> clock cl)"

text \<open>
  \<open>Compare\<close> under a visiting order of the set \<open>allNodes\<close>.  \<open>Clock_Compare\<close> is the
  run that visits the nodes in the order in which they were collected; lemma
  \<open>Clock_Compare_visit\<close> shows that every other order gives the same answer.
\<close>

definition Clock_Compare_visit ::
  "(NodeID list \<Rightarrow> NodeID list) \<Rightarrow> Clock option \<Rightarrow> Clock option \<Rightarrow> Comparison" where
  "Clock_Compare_visit visit c other =
     compare_vectors int64_gt visit (clock_map c) (clock_map other)"

definition Clock_Compare :: "Clock option \<Rightarrow> Clock option \<Rightarrow> Comparison" where
  "Clock_Compare = Clock_Compare_visit (\<lambda>nodes. nodes)"

definition Clock_Nodes :: "Clock option \<Rightarrow> NodeID list" where
  "Clock_Nodes c = (case clock_map c of None \<Rightarrow> [] | Some m \<Rightarrow> sort (mkeys m))"

definition Clock_IsEmpty :: "Clock option \<Rightarrow> bool" where
  "Clock_IsEmpty c = (case clock_map c of
       None \<Rightarrow> True
     | Some m \<Rightarrow> (if length m = 0 then True else all_zero m))"

definition Clock_Len :: "Clock option \<Rightarrow> nat" where
  "Clock_Len c = (case clock_map c of None \<Rightarrow> 0 | Some m \<Rightarrow> length m)"

definition Clock_Equal :: "Clock option \<Rightarrow> Clock option \<Rightarrow> bool" where
  "Clock_Equal c other \<longleftrightarrow> Clock_Compare c other = EqualCmp"

definition Clock_HappenedBefore :: "Clock option \<Rightarrow> Clock option \<Rightarrow> bool" where
  "Clock_HappenedBefore c other \<longleftrightarrow> Clock_Compare c other = BeforeCmp"

definition Clock_HappenedAfter :: "Clock option \<Rightarrow> Clock option \<Rightarrow> bool" where
  "Clock_HappenedAfter c other \<longleftrightarrow> Clock_Compare c other = AfterCmp"

definition Clock_Concurrent :: "Clock option \<Rightarrow> Clock option \<Rightarrow> bool" where
  "Clock_Concurrent c other \<longleftrightarrow> Clock_Compare c other = ConcurrentCmp"

definition Clock_Descendant :: "Clock option \<Rightarrow> Clock option \<Rightarrow> bool" where
  "Clock_Descendant c other =
     (let cmp = Clock_Compare c other in cmp = AfterCmp \<or> cmp = EqualCmp)"

definition Clock_Ancestor :: "Clock option \<Rightarrow> Clock option \<Rightarrow> bool" where
  "Clock_Ancestor c other =
     (let cmp = Clock_Compare c other in cmp = BeforeCmp \<or> cmp = EqualCmp)"

section \<open>Invariant and abstraction\<close>

text \<open>
  \<open>clock_rep\<close> is what Go itself guarantees of the map; \<open>clock_ok\<close> adds what the
  package means a clock to be, that no counter is negative.  The signed value of every node
  is the abstract state.
\<close>

definition clock_rep :: "Clock option \<Rightarrow> bool" where
  "clock_rep c \<longleftrightarrow> mwf (entries (clock_map c))"

definition clock_ok :: "Clock option \<Rightarrow> bool" where
  "clock_ok c \<longleftrightarrow> vwf sint (clock_map c)"

definition clock_val :: "Clock option \<Rightarrow> NodeID \<Rightarrow> int" where
  "clock_val c n = sint (Clock_Get c n)"

lemma clock_map_simps [simp]: "clock_map None = None" "clock_map (Some c) = clock c"
  by (simp_all add: clock_map_def)

lemma Clock_Get_mget: "Clock_Get c n = mget (entries (clock_map c)) n"
  by (auto simp: Clock_Get_def clock_map_def split: option.split)

lemma clock_val_vabs: "clock_val c = vabs sint (clock_map c)"
  by (simp add: fun_eq_iff clock_val_def vabs_def Clock_Get_mget)

lemma clock_ok_rep: "clock_ok c \<Longrightarrow> clock_rep c"
  by (simp add: clock_ok_def clock_rep_def signed.vwf_mwf)

lemma clock_ok_nonneg: "clock_ok c \<Longrightarrow> 0 \<le> clock_val c n"
  by (simp add: clock_ok_def clock_val_vabs signed.vwf_nonneg)

lemma clock_okI: "clock_rep c \<Longrightarrow> (\<And>n. 0 \<le> clock_val c n) \<Longrightarrow> clock_ok c"
  by (simp add: clock_ok_def clock_rep_def clock_val_vabs signed.vwfI)

lemma clock_ok_None [simp]: "clock_ok None"
  by (simp add: clock_ok_def vwf_def)

lemma clock_val_None [simp]: "clock_val None n = 0"
  by (simp add: clock_val_def Clock_Get_def)

section \<open>Each operation against the abstraction\<close>

lemma clock_rep_Some: "clock_rep (Some c) \<longleftrightarrow> mwf (entries (clock c))"
  by (simp add: clock_rep_def)

lemma Clock_Get_Some: "Clock_Get (Some c) n = mget (entries (clock c)) n"
  by (simp add: Clock_Get_mget)

lemma NewClock_Get [simp]: "Clock_Get (Some (NewClock nodes)) n = 0"
  by (simp add: Clock_Get_Some NewClock_def mget_def map_of_init_range)

lemma NewClock_ok [simp]: "clock_ok (Some (NewClock nodes))"
  by (rule clock_okI) (simp_all add: clock_rep_Some clock_val_def, simp add: NewClock_def)

lemma Clock_Copy_map:
  assumes "clock_rep c"
  shows "map_of (entries (clock (Clock_Copy c))) = map_of (entries (clock_map c))"
  using assms by (cases c) (simp_all add: Clock_Copy_def NewClock_def clock_rep_def)

lemma Clock_Copy_rep [simp]: "clock_rep (Some (Clock_Copy c))"
  by (cases c) (simp_all add: Clock_Copy_def NewClock_def clock_rep_Some)

lemma Clock_Copy_Get: "clock_rep c \<Longrightarrow> Clock_Get (Some (Clock_Copy c)) n = Clock_Get c n"
  by (simp add: Clock_Get_mget mget_cong [OF Clock_Copy_map])

lemma Clock_Copy_ok: "clock_ok c \<Longrightarrow> clock_ok (Some (Clock_Copy c))"
  by (rule clock_okI)
    (simp_all add: clock_val_def Clock_Copy_Get clock_ok_rep clock_ok_nonneg [unfolded clock_val_def])

lemma Clock_Increment_Some:
  "Clock_Increment (Some cl) n =
   Return (\<lparr>clock = Some (mput n (Clock_Get (Some cl) n + 1) (entries (clock cl)))\<rparr>,
     Clock_Get (Some cl) n + 1)"
  by (cases cl) (simp add: Clock_Increment_def Let_def Clock_Get_Some)

lemma Clock_Increment_cases:
  assumes "Clock_Increment c n = Return (c', v)"
  obtains cl where "c = Some cl"
    "c' = \<lparr>clock = Some (mput n (Clock_Get c n + 1) (entries (clock cl)))\<rparr>"
    "v = Clock_Get c n + 1"
proof (cases c)
  case None
  with assms show ?thesis by (simp add: Clock_Increment_def)
next
  case (Some cl)
  with assms show ?thesis by (intro that [of cl]) (auto simp: Clock_Increment_Some)
qed

lemma Clock_Increment_total:
  "\<exists>c' v. Clock_Increment (Some c) n = Return (c', v)"
  by (simp add: Clock_Increment_def Let_def)

lemma Clock_Increment_Get:
  assumes "Clock_Increment c n = Return (c', v)"
  shows "Clock_Get (Some c') m = (if m = n then Clock_Get c n + 1 else Clock_Get c m)"
  using assms by (rule Clock_Increment_cases) (simp add: Clock_Get_Some)

lemma Clock_Increment_rep:
  assumes "Clock_Increment c n = Return (c', v)" and "clock_rep c"
  shows "clock_rep (Some c')"
  using assms(1) by (rule Clock_Increment_cases) (use assms(2) in \<open>auto simp: clock_rep_def\<close>)

lemma Clock_Increment_val:
  assumes "Clock_Increment c n = Return (c', v)" and "clock_val c n < 2 ^ 63 - 1"
  shows "clock_val (Some c') = (clock_val c)(n := clock_val c n + 1)"
  using assms(2) sint64_add_one [of "Clock_Get c n"]
  by (simp add: fun_eq_iff clock_val_def Clock_Increment_Get [OF assms(1)])

lemma Clock_Increment_ok:
  assumes "Clock_Increment c n = Return (c', v)" and "clock_ok c" and "clock_val c n < 2 ^ 63 - 1"
  shows "clock_ok (Some c')"
proof (rule clock_okI)
  show "clock_rep (Some c')"
    by (rule Clock_Increment_rep [OF assms(1) clock_ok_rep [OF assms(2)]])
  show "0 \<le> clock_val (Some c') m" for m
    using clock_ok_nonneg [OF assms(2), of m] clock_ok_nonneg [OF assms(2), of n]
    by (simp add: Clock_Increment_val [OF assms(1,3)])
qed

lemma Clock_Set_cases:
  assumes "Clock_Set c n x = Return c'"
  obtains cl where "c = Some cl" "c' = \<lparr>clock = Some (mput n x (entries (clock cl)))\<rparr>"
proof (cases c)
  case None
  with assms show ?thesis by (simp add: Clock_Set_def)
next
  case (Some cl)
  with assms show ?thesis by (cases cl) (auto simp: Clock_Set_def intro!: that [of cl])
qed

lemma Clock_Set_Get:
  assumes "Clock_Set c n x = Return c'"
  shows "Clock_Get (Some c') m = (if m = n then x else Clock_Get c m)"
  using assms by (rule Clock_Set_cases) (simp add: Clock_Get_Some)

lemma Clock_Set_rep:
  assumes "Clock_Set c n x = Return c'" and "clock_rep c"
  shows "clock_rep (Some c')"
  using assms(1) by (rule Clock_Set_cases) (use assms(2) in \<open>auto simp: clock_rep_def\<close>)

text \<open>The receiver after a merge of two clocks that are not nil.\<close>

definition clock_merged :: "Clock \<Rightarrow> Clock \<Rightarrow> Clock" where
  "clock_merged a b = (case clock b of
       None \<Rightarrow> a
     | Some bm \<Rightarrow> \<lparr>clock = Some (merge_range int64_gt bm (entries (clock a)))\<rparr>)"

lemma Clock_Merge_Some: "Clock_Merge (Some a) (Some b) = Return (Some (clock_merged a b))"
  by (cases a) (auto simp: Clock_Merge_def clock_merged_def split: option.split)

lemma clock_merged_rep: "clock_rep (Some a) \<Longrightarrow> clock_rep (Some (clock_merged a b))"
  by (auto simp: clock_rep_Some clock_merged_def split: option.split)

lemma clock_merged_val:
  assumes "clock_ok (Some a)" and "clock_rep (Some b)"
  shows "clock_val (Some (clock_merged a b)) n =
         max (clock_val (Some a) n) (clock_val (Some b) n)"
proof (cases "clock b")
  case None
  then show ?thesis
    using clock_ok_nonneg [OF assms(1), of n]
    by (simp add: clock_merged_def clock_val_def Clock_Get_Some)
next
  case (Some bm)
  have "vwf sint (Some (entries (clock a)))"
    using assms(1) by (simp add: clock_ok_def vwf_def)
  then show ?thesis
    using assms(2) Some signed.vabs_merge_range [of "entries (clock a)" bm n]
    by (simp add: clock_merged_def clock_val_vabs clock_rep_Some vabs_def)
qed

lemma clock_merged_ok:
  assumes "clock_ok (Some a)" and "clock_ok (Some b)"
  shows "clock_ok (Some (clock_merged a b))"
  using assms clock_ok_nonneg [OF assms(1)]
  by (intro clock_okI)
    (simp_all add: clock_merged_rep clock_ok_rep clock_merged_val le_max_iff_disj)

lemma Clock_Compare_spec:
  "clock_ok c \<Longrightarrow> clock_ok other \<Longrightarrow>
   Clock_Compare c other = cmp_spec (clock_val c) (clock_val other)"
  by (simp add: Clock_Compare_def Clock_Compare_visit_def clock_ok_def clock_val_vabs
      signed.compare_vectors_spec)

lemma Clock_Compare_visit:
  assumes "range_order visit" and "clock_rep c" and "clock_rep other"
  shows "Clock_Compare_visit visit c other = Clock_Compare c other"
  unfolding Clock_Compare_def Clock_Compare_visit_def
  by (rule signed.compare_vectors_order) (use assms in \<open>simp_all add: clock_rep_def\<close>)

interpretation vc: causal_vector "\<lambda>c. clock_ok (Some c)" "\<lambda>c. clock_val (Some c)"
  clock_merged "\<lambda>a b. Clock_Compare (Some a) (Some b)"
  by unfold_locales
    (simp_all add: clock_ok_nonneg clock_merged_ok clock_merged_val clock_ok_rep
      Clock_Compare_spec)

lemma Clock_Nodes_dom:
  "clock_rep c \<Longrightarrow> Clock_Nodes c = sorted_list_of_set (dom (map_of (entries (clock_map c))))"
  by (cases "clock_map c") (simp_all add: Clock_Nodes_def clock_rep_def sort_mkeys)

lemma Clock_IsEmpty_iff: "clock_rep c \<Longrightarrow> Clock_IsEmpty c \<longleftrightarrow> (\<forall>n. Clock_Get c n = 0)"
  by (cases "clock_map c")
    (auto simp: Clock_IsEmpty_def all_zero_iff clock_rep_def Clock_Get_mget)

lemma Clock_Len_entries: "Clock_Len c = length (entries (clock_map c))"
  by (cases "clock_map c") (simp_all add: Clock_Len_def)

lemma entries_clock_merged:
  "entries (clock (clock_merged a b)) = merge_range int64_gt (entries (clock b)) (entries (clock a))"
  by (cases "clock b") (simp_all add: clock_merged_def)

lemma clock_relations:
  assumes "clock_ok a" and "clock_ok b"
  shows "Clock_Equal a b \<longleftrightarrow> clock_val a = clock_val b"
    and "Clock_Ancestor a b \<longleftrightarrow> clock_val a \<le> clock_val b"
    and "Clock_HappenedBefore a b \<longleftrightarrow> clock_val a < clock_val b"
  using cmp_spec_le [of "clock_val a" "clock_val b"] Clock_Compare_spec [OF assms]
  by (auto simp: Clock_Equal_def Clock_Ancestor_def Clock_HappenedBefore_def cmp_spec_iffs Let_def)

lemma Clock_Ancestor_iff:
  "Clock_Ancestor c other \<longleftrightarrow> Clock_Compare c other \<in> {BeforeCmp, EqualCmp}"
  by (simp add: Clock_Ancestor_def Let_def)

lemma Clock_Descendant_iff:
  "Clock_Descendant c other \<longleftrightarrow> Clock_Compare c other \<in> {AfterCmp, EqualCmp}"
  by (simp add: Clock_Descendant_def Let_def)

section \<open>Properties\<close>

text \<open>C2. On clocks without negative counters, nil ones included, \<open>Compare\<close> is exactly the
  pointwise comparison of the counters, a missing node counting as zero.\<close>

theorem Compare_pointwise:
  assumes "clock_ok c" and "clock_ok other"
  shows "Clock_Compare c other = cmp_spec (clock_val c) (clock_val other)"
  using assms by (rule Clock_Compare_spec)

theorem Compare_pointwise_witness:
  "Clock_Compare (Some \<lparr>clock = Some [(''a'', 2), (''b'', 1)]\<rparr>) (Some \<lparr>clock = Some [(''b'', 3)]\<rparr>) =
     ConcurrentCmp \<and>
   cmp_spec (clock_val (Some \<lparr>clock = Some [(''a'', 2), (''b'', 1)]\<rparr>))
     (clock_val (Some \<lparr>clock = Some [(''b'', 3)]\<rparr>)) = ConcurrentCmp"
proof -
  let ?c = "Some \<lparr>clock = Some [(''a'', 2), (''b'', 1)]\<rparr>"
  let ?d = "Some \<lparr>clock = Some [(''b'', 3)]\<rparr>"
  have "clock_ok ?c" "clock_ok ?d" by (simp_all add: clock_ok_def vwf_def mwf_def)
  then have "Clock_Compare ?c ?d = cmp_spec (clock_val ?c) (clock_val ?d)"
    by (rule Compare_pointwise)
  moreover have "Clock_Compare ?c ?d = ConcurrentCmp" by code_simp
  ultimately show ?thesis by simp
qed

text \<open>C9. \<open>Compare\<close> is a partial order up to \<open>EqualCmp\<close>: \<open>Equal\<close> is reflexive,
  symmetric and transitive, and clocks that are equal compare alike with every other clock;
  \<open>Ancestor\<close> is transitive, holds of equal clocks, and holds both ways of equal clocks
  only; \<open>HappenedBefore\<close> is transitive and excludes its converse; and swapping the
  arguments swaps before and after and keeps equal and concurrent.  Nil clocks are included.\<close>

theorem Compare_partial_order:
  assumes "clock_ok a" and "clock_ok b" and "clock_ok c"
  shows "Clock_Equal a a \<and>
         Clock_Compare b a = flip_cmp (Clock_Compare a b) \<and>
         (Clock_Equal a b \<longrightarrow> Clock_Equal b a \<and> Clock_Ancestor a b \<and>
            Clock_Compare a c = Clock_Compare b c \<and> Clock_Compare c a = Clock_Compare c b) \<and>
         (Clock_Equal a b \<and> Clock_Equal b c \<longrightarrow> Clock_Equal a c) \<and>
         (Clock_Ancestor a b \<and> Clock_Ancestor b c \<longrightarrow> Clock_Ancestor a c) \<and>
         (Clock_Ancestor a b \<and> Clock_Ancestor b a \<longrightarrow> Clock_Equal a b) \<and>
         (Clock_HappenedBefore a b \<and> Clock_HappenedBefore b c \<longrightarrow> Clock_HappenedBefore a c) \<and>
         (Clock_HappenedBefore a b \<longrightarrow> \<not> Clock_HappenedBefore b a)"
  using assms cmp_spec_flip [of "clock_val b" "clock_val a"]
  by (auto simp: Clock_Compare_spec clock_relations)

theorem Compare_partial_order_witness:
  "Clock_HappenedBefore (Some \<lparr>clock = Some [(''a'', 1)]\<rparr>) (Some \<lparr>clock = Some [(''b'', 1), (''a'', 2)]\<rparr>)"
proof -
  let ?a = "Some \<lparr>clock = Some [(''a'', 1)]\<rparr>" and ?b = "Some \<lparr>clock = Some [(''a'', 2)]\<rparr>"
  let ?c = "Some \<lparr>clock = Some [(''b'', 1), (''a'', 2)]\<rparr>"
  have "clock_ok ?a" "clock_ok ?b" "clock_ok ?c" by (simp_all add: clock_ok_def vwf_def mwf_def)
  moreover have "Clock_HappenedBefore ?a ?b" "Clock_HappenedBefore ?b ?c" by code_simp+
  ultimately show ?thesis using Compare_partial_order [of ?a ?b ?c] by blast
qed

text \<open>C3. Merging two clocks returns (it never panics) the least upper bound of both: every
  counter is the maximum of the two, and a clock descends from the result exactly when it
  descends from both arguments.\<close>

theorem Merge_least_upper_bound:
  assumes "clock_ok (Some a)" and "clock_ok (Some b)"
  shows "\<exists>m. Clock_Merge (Some a) (Some b) = Return (Some m) \<and> clock_ok (Some m) \<and>
             (\<forall>n. clock_val (Some m) n = max (clock_val (Some a) n) (clock_val (Some b) n)) \<and>
             (\<forall>c. clock_ok (Some c) \<longrightarrow>
                (Clock_Ancestor (Some m) (Some c) \<longleftrightarrow>
                 Clock_Ancestor (Some a) (Some c) \<and> Clock_Ancestor (Some b) (Some c)))"
  using assms vc.merge_least [OF assms]
  by (simp add: Clock_Merge_Some clock_merged_ok clock_merged_val clock_ok_rep Clock_Ancestor_iff)

theorem Merge_least_upper_bound_witness:
  "\<exists>m. Clock_Merge (Some \<lparr>clock = Some [(''a'', 2)]\<rparr>) (Some \<lparr>clock = Some [(''a'', 1), (''b'', 3)]\<rparr>) =
       Return (Some m) \<and> clock_val (Some m) ''b'' = 3"
proof -
  have "clock_ok (Some \<lparr>clock = Some [(''a'', 2)]\<rparr>)"
    "clock_ok (Some \<lparr>clock = Some [(''a'', 1), (''b'', 3)]\<rparr>)"
    by (simp_all add: clock_ok_def vwf_def mwf_def)
  from Merge_least_upper_bound [OF this] show ?thesis
    by (auto simp: clock_val_def Clock_Get_def mget_def)
qed

text \<open>C10. Merging is idempotent, commutative and associative up to \<open>EqualCmp\<close>, so clocks may
  be merged repeatedly and in any order.\<close>

theorem Merge_semilattice:
  assumes "clock_ok (Some a)" and "clock_ok (Some b)" and "clock_ok (Some c)"
    and "Clock_Merge (Some a) (Some a) = Return aa"
    and "Clock_Merge (Some a) (Some b) = Return ab" and "Clock_Merge (Some b) (Some a) = Return ba"
    and "Clock_Merge ab (Some c) = Return ab_c"
    and "Clock_Merge (Some b) (Some c) = Return bc" and "Clock_Merge (Some a) bc = Return a_bc"
  shows "Clock_Equal aa (Some a) \<and> Clock_Equal ab ba \<and> Clock_Equal ab_c a_bc"
proof -
  from assms have "aa = Some (clock_merged a a)" "ab = Some (clock_merged a b)"
    "ba = Some (clock_merged b a)" "ab_c = Some (clock_merged (clock_merged a b) c)"
    "a_bc = Some (clock_merged a (clock_merged b c))"
    by (auto simp: Clock_Merge_Some)
  with assms(1-3) show ?thesis
    by (simp add: Clock_Equal_def vc.merge_idem vc.merge_commute vc.merge_assoc)
qed

theorem Merge_semilattice_witness:
  "\<exists>ab ba. Clock_Merge (Some \<lparr>clock = Some [(''a'', 2)]\<rparr>) (Some \<lparr>clock = Some [(''b'', 1)]\<rparr>) = Return ab \<and>
    Clock_Merge (Some \<lparr>clock = Some [(''b'', 1)]\<rparr>) (Some \<lparr>clock = Some [(''a'', 2)]\<rparr>) = Return ba \<and>
    Clock_Equal ab ba"
proof -
  let ?a = "\<lparr>clock = Some [(''a'', 2)]\<rparr>" and ?b = "\<lparr>clock = Some [(''b'', 1)]\<rparr>"
  have ok: "clock_ok (Some ?a)" "clock_ok (Some ?b)"
    by (simp_all add: clock_ok_def vwf_def mwf_def)
  show ?thesis
    using Merge_semilattice [OF ok(1,2,2) Clock_Merge_Some Clock_Merge_Some Clock_Merge_Some
        Clock_Merge_Some Clock_Merge_Some Clock_Merge_Some] Clock_Merge_Some by blast
qed

text \<open>C11. \<open>Increment\<close> on a clock whose counter is below the largest \<open>int64\<close> returns the
  new counter, adds one to it, leaves every other counter alone, keeps the invariant, and the
  result happened after the old clock.\<close>

theorem Increment_advances:
  assumes "clock_ok (Some c)" and "clock_val (Some c) n < 2 ^ 63 - 1"
  shows "\<exists>c' v. Clock_Increment (Some c) n = Return (c', v) \<and> v = Clock_Get (Some c') n \<and>
           clock_ok (Some c') \<and>
           clock_val (Some c') = (clock_val (Some c))(n := clock_val (Some c) n + 1) \<and>
           Clock_HappenedBefore (Some c) (Some c')"
proof -
  obtain c' v where inc: "Clock_Increment (Some c) n = Return (c', v)"
    using Clock_Increment_total by blast
  note ok' = Clock_Increment_ok [OF inc assms] and val' = Clock_Increment_val [OF inc assms(2)]
  have "v = Clock_Get (Some c') n"
    using inc by (simp add: Clock_Increment_Get [OF inc]) (simp add: Clock_Increment_Some)
  moreover have "Clock_HappenedBefore (Some c) (Some c')"
    using assms(1) ok'
    by (auto simp: Clock_HappenedBefore_def Clock_Compare_spec cmp_spec_iffs val' less_fun_def
        le_fun_def intro!: exI [of _ n])
  ultimately show ?thesis
    using inc ok' val' by blast
qed

theorem Increment_advances_witness:
  "\<exists>c' v. Clock_Increment (Some \<lparr>clock = None\<rparr>) ''a'' = Return (c', v) \<and>
     Clock_HappenedBefore (Some \<lparr>clock = None\<rparr>) (Some c')"
proof -
  have "clock_ok (Some \<lparr>clock = None\<rparr>)" "clock_val (Some \<lparr>clock = None\<rparr>) ''a'' < 2 ^ 63 - 1"
    by (simp_all add: clock_ok_def vwf_def clock_val_def Clock_Get_def)
  from Increment_advances [OF this] show ?thesis by blast
qed

text \<open>C39. At the largest \<open>int64\<close> the counter wraps to the smallest one, as the comment on
  \<open>Increment\<close> says, and the incremented clock then compares as happened before the clock it
  was made from.\<close>

theorem Increment_wraps:
  assumes "clock_rep (Some c)" and "clock_val (Some c) n = 2 ^ 63 - 1"
  shows "\<exists>c' v. Clock_Increment (Some c) n = Return (c', v) \<and> sint v = - (2 ^ 63) \<and>
           clock_val (Some c') = (clock_val (Some c))(n := - (2 ^ 63)) \<and>
           Clock_HappenedBefore (Some c') (Some c)"
proof -
  obtain c' v where inc: "Clock_Increment (Some c) n = Return (c', v)"
    using Clock_Increment_total by blast
  have max: "Clock_Get (Some c) n = word_of_int (2 ^ 63 - 1)"
    using assms(2) by (metis clock_val_def of_int_sint scast_id)
  have v: "v = - (2 ^ 63)"
    using inc max by (auto simp: Clock_Increment_Some)
  have val: "clock_val (Some c') = (clock_val (Some c))(n := - (2 ^ 63))"
    by (simp add: fun_eq_iff clock_val_def Clock_Increment_Get [OF inc] max)
  have "entries (clock c) \<noteq> []" "entries (clock c') \<noteq> []"
    using assms(2) inc by (auto simp: clock_val_def Clock_Get_Some Clock_Increment_Some)
  then have "Clock_Compare (Some c') (Some c) = cmp_spec (clock_val (Some c')) (clock_val (Some c))"
    by (simp add: Clock_Compare_def Clock_Compare_visit_def clock_val_vabs
        signed.compare_vectors_nonempty)
  moreover have "clock_val (Some c') < clock_val (Some c)"
    using assms(2) by (auto simp: val less_fun_def le_fun_def intro!: exI [of _ n])
  ultimately show ?thesis
    using inc v val by (auto simp: Clock_HappenedBefore_def cmp_spec_iffs)
qed

theorem Increment_wraps_witness:
  "\<exists>c' v. Clock_Increment (Some \<lparr>clock = Some [(''a'', 9223372036854775807)]\<rparr>) ''a'' = Return (c', v) \<and>
     Clock_HappenedBefore (Some c') (Some \<lparr>clock = Some [(''a'', 9223372036854775807)]\<rparr>)"
proof -
  let ?c = "\<lparr>clock = Some [(''a'', 9223372036854775807)]\<rparr>"
  have "clock_rep (Some ?c)" "clock_val (Some ?c) ''a'' = 2 ^ 63 - 1"
    by (simp_all add: clock_rep_def mwf_def clock_val_def Clock_Get_def mget_def)
  from Increment_wraps [OF this] show ?thesis by blast
qed

text \<open>C27. No result depends on the order in which Go visits a map.  Clocks that hold the same
  entries, listed in any order, compare alike, whichever orders (\<open>visit\<close> and \<open>visit'\<close>,
  any rearrangement of the nodes) the two comparisons visit \<open>allNodes\<close> in; they list the
  same sorted nodes, have the same length, agree on being empty, and their merges and copies
  hold the same entries.\<close>

theorem iteration_order_irrelevant:
  assumes "range_order visit" "range_order visit'"
    and "clock_rep (Some a)" "clock_rep (Some a')" "clock_rep (Some b)" "clock_rep (Some b')"
    and "map_of (entries (clock a)) = map_of (entries (clock a'))"
    and "map_of (entries (clock b)) = map_of (entries (clock b'))"
    and "Clock_Merge (Some a) (Some b) = Return (Some m)"
    and "Clock_Merge (Some a') (Some b') = Return (Some m')"
  shows "Clock_Compare_visit visit (Some a) (Some b) = Clock_Compare (Some a) (Some b) \<and>
         Clock_Compare_visit visit (Some a) (Some b) = Clock_Compare_visit visit' (Some a') (Some b') \<and>
         Clock_Nodes (Some a) = Clock_Nodes (Some a') \<and>
         Clock_Len (Some a) = Clock_Len (Some a') \<and>
         (Clock_IsEmpty (Some a) \<longleftrightarrow> Clock_IsEmpty (Some a')) \<and>
         map_of (entries (clock m)) = map_of (entries (clock m')) \<and>
         map_of (entries (clock (Clock_Copy (Some a)))) =
           map_of (entries (clock (Clock_Copy (Some a'))))"
proof -
  have "Clock_Compare_visit visit (Some a) (Some b) = Clock_Compare (Some a) (Some b)"
    using assms(1,3,5) by (rule Clock_Compare_visit)
  moreover have "Clock_Compare_visit visit (Some a) (Some b) =
      Clock_Compare_visit visit' (Some a') (Some b')"
    unfolding Clock_Compare_visit_def
    by (rule signed.compare_vectors_order) (use assms in \<open>simp_all add: clock_rep_Some\<close>)
  moreover have "Clock_IsEmpty (Some a) \<longleftrightarrow> Clock_IsEmpty (Some a')"
    using assms(3,4) mget_cong [OF assms(7)]
    by (simp add: Clock_IsEmpty_iff Clock_Get_Some)
  moreover have "length (entries (clock a)) = length (entries (clock a'))"
    using assms(3,4,7) by (intro mwf_map_of_eq_length) (simp_all add: clock_rep_Some)
  moreover have "map_of (entries (clock m)) = map_of (entries (clock m'))"
    using assms(5-10) signed.merge_range_order [of "entries (clock b)" "entries (clock b')"]
    by (auto simp: Clock_Merge_Some clock_rep_Some entries_clock_merged)
  ultimately show ?thesis
    using assms(3,4,7) by (simp add: Clock_Nodes_dom Clock_Len_entries Clock_Copy_map)
qed

theorem iteration_order_irrelevant_witness:
  "Clock_Compare_visit rev (Some \<lparr>clock = Some [(''a'', 1), (''b'', -1)]\<rparr>)
     (Some \<lparr>clock = Some [(''c'', 2)]\<rparr>) =
   Clock_Compare_visit (\<lambda>nodes. nodes) (Some \<lparr>clock = Some [(''b'', -1), (''a'', 1)]\<rparr>)
     (Some \<lparr>clock = Some [(''c'', 2)]\<rparr>)"
proof -
  let ?a = "\<lparr>clock = Some [(''a'', 1), (''b'', -1)]\<rparr>"
  let ?a' = "\<lparr>clock = Some [(''b'', -1), (''a'', 1)]\<rparr>"
  let ?b = "\<lparr>clock = Some [(''c'', 2)]\<rparr>"
  have "clock_rep (Some ?a)" "clock_rep (Some ?a')" "clock_rep (Some ?b)"
    by (simp_all add: clock_rep_def mwf_def)
  moreover have "map_of (entries (clock ?a)) = map_of (entries (clock ?a'))"
    by (auto simp: fun_eq_iff)
  ultimately show ?thesis
    using iteration_order_irrelevant [of rev "\<lambda>nodes. nodes" ?a ?a' ?b ?b,
        OF _ _ _ _ _ _ _ refl Clock_Merge_Some Clock_Merge_Some] by blast
qed

text \<open>A nil clock may be read, copied, compared and merged from, and counts as an empty
  clock there; but the three mutating methods dereference a nil receiver and panic, whatever
  the node, and for \<open>Merge\<close> whenever the other clock holds a map.\<close>

lemma nil_receiver:
  "Clock_Get None n = 0 \<and> Clock_Copy None = NewClock [] \<and> Clock_Nodes None = [] \<and>
   Clock_Len None = 0 \<and> Clock_IsEmpty None \<and>
   Clock_Merge (Some c) None = Return (Some c) \<and>
   Clock_Increment None n = Panic NilDereference \<and>
   Clock_Set None n v = Panic NilDereference \<and>
   Clock_Merge None (Some \<lparr>clock = Some m\<rparr>) = Panic NilDereference"
  by (simp add: Clock_Get_def Clock_Copy_def Clock_Nodes_def Clock_Len_def Clock_IsEmpty_def
      Clock_Merge_def Clock_Increment_def Clock_Set_def)

text \<open>A copy holds the same entries as the clock it was made from and compares equal to
  it; once the copy is incremented, the original happened before it.\<close>

lemma Copy_snapshot:
  assumes "clock_ok (Some c)" and "clock_val (Some c) n < 2 ^ 63 - 1"
  shows "map_of (entries (clock (Clock_Copy (Some c)))) = map_of (entries (clock c)) \<and>
         Clock_Equal (Some (Clock_Copy (Some c))) (Some c) \<and>
         (\<exists>d v. Clock_Increment (Some (Clock_Copy (Some c))) n = Return (d, v) \<and>
            Clock_HappenedBefore (Some c) (Some d))"
proof -
  let ?d = "Some (Clock_Copy (Some c))"
  have val: "clock_val ?d = clock_val (Some c)"
    using assms(1) by (simp add: fun_eq_iff clock_val_def Clock_Copy_Get clock_ok_rep)
  have ok: "clock_ok ?d" by (rule Clock_Copy_ok [OF assms(1)])
  then have eq: "Clock_Equal ?d (Some c)"
    using assms(1) val by (simp add: Clock_Equal_def Clock_Compare_spec cmp_spec_iffs)
  obtain d v where inc: "Clock_Increment ?d n = Return (d, v)"
    using Clock_Increment_total by blast
  have "clock_val (Some c) < clock_val (Some d)"
    using assms(2) by (auto simp: Clock_Increment_val [OF inc] val less_fun_def le_fun_def
        intro!: exI [of _ n])
  moreover have "clock_ok (Some d)"
    using Clock_Increment_ok [OF inc ok] assms(2) by (simp add: val)
  ultimately have "Clock_HappenedBefore (Some c) (Some d)"
    using assms(1) by (simp add: Clock_HappenedBefore_def Clock_Compare_spec cmp_spec_iffs)
  with inc eq assms(1) show ?thesis
    by (simp add: Clock_Copy_map clock_ok_rep)
qed

text \<open>\<open>Nodes\<close> lists every node of the clock once, in increasing byte order; its length
  is \<open>Len\<close>; and \<open>IsEmpty\<close> holds exactly when every counter reads zero.\<close>

lemma Nodes_sorted:
  assumes "clock_rep c"
  shows "sorted (Clock_Nodes c) \<and> distinct (Clock_Nodes c) \<and>
         set (Clock_Nodes c) = dom (map_of (entries (clock_map c))) \<and>
         length (Clock_Nodes c) = Clock_Len c \<and>
         (Clock_IsEmpty c \<longleftrightarrow> (\<forall>n. Clock_Get c n = 0))"
proof -
  have "length (Clock_Nodes c) = Clock_Len c"
    by (cases "clock_map c") (simp_all add: Clock_Nodes_def Clock_Len_def mkeys_def)
  then show ?thesis
    using assms by (simp add: Clock_Nodes_dom finite_dom_map_of Clock_IsEmpty_iff)
qed

text \<open>What \<open>Merge\<close> does to any \<open>int64\<close> values, negative ones included: a node of the
  other clock gets the maximum, any other node keeps its value, and a node that only the other
  clock has is added unless its value is negative.\<close>

lemma Merge_any_values:
  assumes "clock_rep (Some a)" and "clock_rep (Some b)"
    and "Clock_Merge (Some a) (Some b) = Return m"
  shows "\<exists>c. m = Some c \<and> clock_rep m \<and>
           (\<forall>n. clock_val m n = (if n \<in> set (Clock_Nodes (Some b))
                 then max (clock_val (Some a) n) (clock_val (Some b) n)
                 else clock_val (Some a) n)) \<and>
           set (Clock_Nodes m) = set (Clock_Nodes (Some a)) \<union>
             {n \<in> set (Clock_Nodes (Some b)). 0 \<le> clock_val (Some b) n}"
proof -
  have nodes: "set (Clock_Nodes (Some x)) = dom (map_of (entries (clock x)))"
    if "clock_rep (Some x)" for x
    using that by (simp add: Clock_Nodes_dom finite_dom_map_of)
  have m: "m = Some (clock_merged a b)"
    using assms(3) by (simp add: Clock_Merge_Some)
  have "mwf (entries (clock b))"
    using assms(2) by (simp add: clock_rep_Some)
  then show ?thesis
    using signed.merge_range_get [of "entries (clock b)" "entries (clock a)"]
      signed.merge_range_dom [of "entries (clock b)" "entries (clock a)"]
    by (simp add: m nodes assms clock_merged_rep clock_val_vabs vabs_def entries_clock_merged)
qed

text \<open>With a negative counter, which \<open>Set\<close> allows, \<open>EqualCmp\<close> no longer means that
  the clocks are identical and stops being transitive: a clock whose only counter is negative
  compares equal to the empty clock, so does a clock with a zero counter, yet these two do not
  compare equal to each other.\<close>

lemma negative_counter_compare:
  assumes "sint v < 0" and "x \<noteq> y"
    and "Clock_Set (Some (NewClock [])) x v = Return c"
    and "Clock_Set (Some (NewClock [])) y 0 = Return d"
  shows "Clock_Equal (Some c) (Some (NewClock [])) \<and> Clock_Equal (Some (NewClock [])) (Some d) \<and>
         Clock_HappenedBefore (Some c) (Some d)"
proof -
  have c: "c = \<lparr>clock = Some [(x, v)]\<rparr>" and d: "d = \<lparr>clock = Some [(y, 0)]\<rparr>"
    using assms(3,4) by (auto simp: Clock_Set_def NewClock_def)
  have "Clock_Compare (Some c) (Some d) = BeforeCmp"
    using assms(1,2) by (simp add: c d Clock_Compare_def Clock_Compare_visit_def
        compare_vectors_def int64_gt_def mkeys_def mget_def)
  then show ?thesis
    using assms(1) by (simp add: c d Clock_Equal_def Clock_HappenedBefore_def Clock_Compare_def
        Clock_Compare_visit_def compare_vectors_def NewClock_def int64_gt_def)
qed

end
