(* ===== verification/Version_Vector.thy ===== *)
theory Version_Vector
  imports Counter_Vector
begin

text \<open>
  The version vector of version/vector.go.  It has the shape of the vector clock, with
  \<open>uint64\<close> counters: no counter is ever negative, so what holds of clocks under an
  invariant holds here of every vector.  The laws come from the same interfaces,
  interpreted on the definitions of this theory.
\<close>

section \<open>State and operations\<close>

type_synonym ReplicaID = string

record VersionVector =
  versions :: "(ReplicaID, uint64) gomap option"

definition NewVersionVector :: "ReplicaID list \<Rightarrow> VersionVector" where
  "NewVersionVector replicas = \<lparr>versions = Some (init_range replicas [])\<rparr>"

definition VersionVector_Copy :: "VersionVector option \<Rightarrow> VersionVector" where
  "VersionVector_Copy vv = (case vv of
       None \<Rightarrow> NewVersionVector []
     | Some v \<Rightarrow> \<lparr>versions = Some (copy_range (entries (versions v)) [])\<rparr>)"

definition VersionVector_Increment ::
  "VersionVector option \<Rightarrow> ReplicaID \<Rightarrow> (VersionVector \<times> uint64) go" where
  "VersionVector_Increment vv replica = (case vv of
       None \<Rightarrow> Panic NilDereference
     | Some v \<Rightarrow>
         (let m = (case versions v of None \<Rightarrow> [] | Some m \<Rightarrow> m);
              m' = mput replica (mget m replica + 1) m
          in Return (v\<lparr>versions := Some m'\<rparr>, mget m' replica)))"

definition VersionVector_Get :: "VersionVector option \<Rightarrow> ReplicaID \<Rightarrow> uint64" where
  "VersionVector_Get vv replica = (case vv of
       None \<Rightarrow> 0
     | Some v \<Rightarrow> (case versions v of None \<Rightarrow> 0 | Some m \<Rightarrow> mget m replica))"

definition VersionVector_Set ::
  "VersionVector option \<Rightarrow> ReplicaID \<Rightarrow> uint64 \<Rightarrow> VersionVector go" where
  "VersionVector_Set vv replica ver = (case vv of
       None \<Rightarrow> Panic NilDereference
     | Some v \<Rightarrow>
         (let m = (case versions v of None \<Rightarrow> [] | Some m \<Rightarrow> m)
          in Return (v\<lparr>versions := Some (mput replica ver m)\<rparr>)))"

definition VersionVector_Merge ::
  "VersionVector option \<Rightarrow> VersionVector option \<Rightarrow> VersionVector option go" where
  "VersionVector_Merge vv other = (case other of
       None \<Rightarrow> Return vv
     | Some ot \<Rightarrow> (case versions ot of
           None \<Rightarrow> Return vv
         | Some om \<Rightarrow> (case vv of
               None \<Rightarrow> Panic NilDereference
             | Some v \<Rightarrow>
                 (let m = (case versions v of None \<Rightarrow> [] | Some m \<Rightarrow> m)
                  in Return (Some (v\<lparr>versions := Some (merge_range uint64_gt om m)\<rparr>))))))"

definition vv_map :: "VersionVector option \<Rightarrow> (ReplicaID, uint64) gomap option" where
  "vv_map vv = (case vv of None \<Rightarrow> None | Some v \<Rightarrow> versions v)"

text \<open>\<open>Compare\<close> under a visiting order of \<open>allReplicas\<close>, and the run that visits them
  as they were collected; \<open>VersionVector_Compare_visit\<close> shows that the order is immaterial.\<close>

definition VersionVector_Compare_visit ::
  "(ReplicaID list \<Rightarrow> ReplicaID list) \<Rightarrow>
   VersionVector option \<Rightarrow> VersionVector option \<Rightarrow> Comparison" where
  "VersionVector_Compare_visit visit vv other =
     compare_vectors uint64_gt visit (vv_map vv) (vv_map other)"

definition VersionVector_Compare ::
  "VersionVector option \<Rightarrow> VersionVector option \<Rightarrow> Comparison" where
  "VersionVector_Compare = VersionVector_Compare_visit (\<lambda>replicas. replicas)"

definition VersionVector_Replicas :: "VersionVector option \<Rightarrow> ReplicaID list" where
  "VersionVector_Replicas vv = (case vv_map vv of None \<Rightarrow> [] | Some m \<Rightarrow> sort (mkeys m))"

definition VersionVector_Len :: "VersionVector option \<Rightarrow> nat" where
  "VersionVector_Len vv = (case vv_map vv of None \<Rightarrow> 0 | Some m \<Rightarrow> length m)"

definition VersionVector_IsEmpty :: "VersionVector option \<Rightarrow> bool" where
  "VersionVector_IsEmpty vv = (case vv_map vv of
       None \<Rightarrow> True
     | Some m \<Rightarrow> (if length m = 0 then True else all_zero m))"

definition VersionVector_Equal :: "VersionVector option \<Rightarrow> VersionVector option \<Rightarrow> bool" where
  "VersionVector_Equal vv other \<longleftrightarrow> VersionVector_Compare vv other = EqualCmp"

definition VersionVector_HappenedBefore ::
  "VersionVector option \<Rightarrow> VersionVector option \<Rightarrow> bool" where
  "VersionVector_HappenedBefore vv other \<longleftrightarrow> VersionVector_Compare vv other = BeforeCmp"

definition VersionVector_HappenedAfter ::
  "VersionVector option \<Rightarrow> VersionVector option \<Rightarrow> bool" where
  "VersionVector_HappenedAfter vv other \<longleftrightarrow> VersionVector_Compare vv other = AfterCmp"

definition VersionVector_Concurrent ::
  "VersionVector option \<Rightarrow> VersionVector option \<Rightarrow> bool" where
  "VersionVector_Concurrent vv other \<longleftrightarrow> VersionVector_Compare vv other = ConcurrentCmp"

definition VersionVector_Descends ::
  "VersionVector option \<Rightarrow> VersionVector option \<Rightarrow> bool" where
  "VersionVector_Descends vv other =
     (let cmp = VersionVector_Compare vv other in cmp = AfterCmp \<or> cmp = EqualCmp)"

definition VersionVector_Dominates ::
  "VersionVector option \<Rightarrow> VersionVector option \<Rightarrow> bool" where
  "VersionVector_Dominates vv other = VersionVector_HappenedAfter vv other"

definition VersionVector_IsDominatedBy ::
  "VersionVector option \<Rightarrow> VersionVector option \<Rightarrow> bool" where
  "VersionVector_IsDominatedBy vv other = VersionVector_HappenedBefore vv other"

section \<open>Invariant and abstraction\<close>

definition vv_rep :: "VersionVector option \<Rightarrow> bool" where
  "vv_rep vv \<longleftrightarrow> mwf (entries (vv_map vv))"

definition vv_val :: "VersionVector option \<Rightarrow> ReplicaID \<Rightarrow> int" where
  "vv_val vv r = uint (VersionVector_Get vv r)"

lemma vv_map_simps [simp]: "vv_map None = None" "vv_map (Some v) = versions v"
  by (simp_all add: vv_map_def)

lemma VersionVector_Get_mget: "VersionVector_Get vv r = mget (entries (vv_map vv)) r"
  by (auto simp: VersionVector_Get_def vv_map_def split: option.split)

lemma vv_val_vabs: "vv_val vv = vabs uint (vv_map vv)"
  by (simp add: fun_eq_iff vv_val_def vabs_def VersionVector_Get_mget)

lemma vv_rep_vwf: "vv_rep vv \<longleftrightarrow> vwf uint (vv_map vv)"
  by (auto simp: vv_rep_def vwf_def)

lemma vv_rep_Some: "vv_rep (Some v) \<longleftrightarrow> mwf (entries (versions v))"
  by (simp add: vv_rep_def)

lemma vv_val_nonneg [simp]: "0 \<le> vv_val vv r"
  by (simp add: vv_val_def)

section \<open>Each operation against the abstraction\<close>

lemma NewVersionVector_rep [simp]: "vv_rep (Some (NewVersionVector rs))"
  by (simp add: vv_rep_Some NewVersionVector_def)

lemma NewVersionVector_Get [simp]: "VersionVector_Get (Some (NewVersionVector rs)) r = 0"
  by (simp add: VersionVector_Get_mget NewVersionVector_def mget_def map_of_init_range)

lemma VersionVector_Copy_map:
  assumes "vv_rep vv"
  shows "map_of (entries (versions (VersionVector_Copy vv))) = map_of (entries (vv_map vv))"
  using assms by (cases vv) (simp_all add: VersionVector_Copy_def NewVersionVector_def vv_rep_def)

lemma VersionVector_Copy_rep [simp]: "vv_rep (Some (VersionVector_Copy vv))"
  by (cases vv) (simp_all add: VersionVector_Copy_def NewVersionVector_def vv_rep_Some)

lemma VersionVector_Increment_Some:
  "VersionVector_Increment (Some v) r =
   Return (\<lparr>versions = Some (mput r (VersionVector_Get (Some v) r + 1) (entries (versions v)))\<rparr>,
     VersionVector_Get (Some v) r + 1)"
  by (cases v) (simp add: VersionVector_Increment_def Let_def VersionVector_Get_mget)

definition vv_incremented :: "VersionVector \<Rightarrow> ReplicaID \<Rightarrow> VersionVector" where
  "vv_incremented v r =
     \<lparr>versions = Some (mput r (VersionVector_Get (Some v) r + 1) (entries (versions v)))\<rparr>"

lemma vv_incremented_rep: "vv_rep (Some v) \<Longrightarrow> vv_rep (Some (vv_incremented v r))"
  by (auto simp: vv_rep_Some vv_incremented_def)

lemma vv_incremented_val:
  assumes "vv_val (Some v) r < 2 ^ 64 - 1"
  shows "vv_val (Some (vv_incremented v r)) = (vv_val (Some v))(r := vv_val (Some v) r + 1)"
  using assms uint64_add_one [of "VersionVector_Get (Some v) r"]
  by (simp add: fun_eq_iff vv_val_def VersionVector_Get_mget vv_incremented_def)

definition vv_merged :: "VersionVector \<Rightarrow> VersionVector \<Rightarrow> VersionVector" where
  "vv_merged a b = (case versions b of
       None \<Rightarrow> a
     | Some bm \<Rightarrow> \<lparr>versions = Some (merge_range uint64_gt bm (entries (versions a)))\<rparr>)"

lemma VersionVector_Merge_Some:
  "VersionVector_Merge (Some a) (Some b) = Return (Some (vv_merged a b))"
  by (cases a) (auto simp: VersionVector_Merge_def vv_merged_def split: option.split)

lemma entries_vv_merged:
  "entries (versions (vv_merged a b)) =
   merge_range uint64_gt (entries (versions b)) (entries (versions a))"
  by (cases "versions b") (simp_all add: vv_merged_def)

lemma vv_merged_rep: "vv_rep (Some a) \<Longrightarrow> vv_rep (Some (vv_merged a b))"
  by (simp add: vv_rep_Some entries_vv_merged)

lemma vv_merged_val:
  assumes "vv_rep (Some b)"
  shows "vv_val (Some (vv_merged a b)) r = max (vv_val (Some a) r) (vv_val (Some b) r)"
  using assms by (simp add: vv_val_vabs vabs_def entries_vv_merged vv_rep_Some
      unsigned.merge_range_max)

lemma VersionVector_Compare_visit:
  assumes "range_order visit" and "vv_rep vv" and "vv_rep other"
  shows "VersionVector_Compare_visit visit vv other = cmp_spec (vv_val vv) (vv_val other)"
  using assms by (simp add: VersionVector_Compare_visit_def vv_rep_vwf vv_val_vabs
      unsigned.compare_vectors_spec)

lemma VersionVector_Compare_spec:
  "vv_rep vv \<Longrightarrow> vv_rep other \<Longrightarrow>
   VersionVector_Compare vv other = cmp_spec (vv_val vv) (vv_val other)"
  by (simp add: VersionVector_Compare_def VersionVector_Compare_visit)

interpretation vv: causal_vector "\<lambda>v. vv_rep (Some v)" "\<lambda>v. vv_val (Some v)"
  vv_merged "\<lambda>a b. VersionVector_Compare (Some a) (Some b)"
  by unfold_locales (simp_all add: vv_merged_rep vv_merged_val VersionVector_Compare_spec)

section \<open>Properties\<close>

text \<open>\<open>Compare\<close> of version vectors is the pointwise comparison of the counters, for every
  vector and nil; so \<open>Concurrent\<close> reports a conflict exactly when each side has seen an
  update that the other has not, and \<open>Descends\<close> holds exactly when every counter is at
  least the other's.\<close>

lemma VersionVector_conflict_detection:
  assumes "vv_rep a" and "vv_rep b"
  shows "VersionVector_Compare a b = cmp_spec (vv_val a) (vv_val b) \<and>
         (VersionVector_Concurrent a b \<longleftrightarrow>
            (\<exists>r. vv_val b r < vv_val a r) \<and> (\<exists>r. vv_val a r < vv_val b r)) \<and>
         (VersionVector_Descends a b \<longleftrightarrow> (\<forall>r. vv_val b r \<le> vv_val a r)) \<and>
         (VersionVector_Dominates a b \<longleftrightarrow> VersionVector_IsDominatedBy b a)"
proof -
  have cmp: "VersionVector_Compare a b = cmp_spec (vv_val a) (vv_val b)"
    "VersionVector_Compare b a = cmp_spec (vv_val b) (vv_val a)"
    using assms by (simp_all add: VersionVector_Compare_spec)
  have "VersionVector_Descends a b \<longleftrightarrow> vv_val b \<le> vv_val a"
    by (auto simp: VersionVector_Descends_def Let_def cmp cmp_spec_iffs)
  then show ?thesis
    by (simp add: cmp VersionVector_Concurrent_def VersionVector_Dominates_def
        VersionVector_IsDominatedBy_def VersionVector_HappenedAfter_def
        VersionVector_HappenedBefore_def cmp_spec_iffs le_fun_def not_le conj_commute)
qed

text \<open>C16. Resolving a conflict the way the package documents it, by merging the sibling into a
  copy and incrementing the resolving replica, returns a vector that dominates both siblings,
  as long as the replica's counter is below the largest \<open>uint64\<close>.\<close>

theorem VersionVector_resolution_dominates:
  assumes "vv_rep (Some a)" and "vv_rep (Some b)"
    and "vv_val (Some a) r < 2 ^ 64 - 1" and "vv_val (Some b) r < 2 ^ 64 - 1"
  shows "\<exists>m d x. VersionVector_Merge (Some (VersionVector_Copy (Some a))) (Some b) = Return (Some m) \<and>
           VersionVector_Increment (Some m) r = Return (d, x) \<and>
           VersionVector_Dominates (Some d) (Some a) \<and> VersionVector_Dominates (Some d) (Some b)"
proof -
  let ?m = "vv_merged (VersionVector_Copy (Some a)) b"
  let ?d = "vv_incremented ?m r"
  have copy: "vv_val (Some (VersionVector_Copy (Some a))) = vv_val (Some a)"
    using mget_cong [OF VersionVector_Copy_map [OF assms(1)]]
    by (simp add: fun_eq_iff vv_val_def VersionVector_Get_mget)
  have m: "vv_val (Some ?m) s = max (vv_val (Some a) s) (vv_val (Some b) s)" for s
    using assms(2) by (simp add: vv_merged_val copy)
  have rep: "vv_rep (Some ?d)"
    by (simp add: vv_incremented_rep vv_merged_rep)
  have d: "vv_val (Some ?d) = (vv_val (Some ?m))(r := vv_val (Some ?m) r + 1)"
    using assms(3,4) by (intro vv_incremented_val) (simp add: m)
  have "vv_val (Some a) < vv_val (Some ?d)" "vv_val (Some b) < vv_val (Some ?d)"
    by (auto simp: d m less_fun_def le_fun_def intro!: exI [of _ r])
  then have "VersionVector_Dominates (Some ?d) (Some a)" "VersionVector_Dominates (Some ?d) (Some b)"
    using rep assms(1,2) by (simp_all add: VersionVector_Dominates_def
        VersionVector_HappenedAfter_def VersionVector_Compare_spec cmp_spec_iffs)
  then show ?thesis
    by (auto simp: VersionVector_Merge_Some VersionVector_Increment_Some vv_incremented_def)
qed

theorem VersionVector_resolution_dominates_witness:
  "\<exists>m d x. VersionVector_Merge (Some (VersionVector_Copy (Some \<lparr>versions = Some [(''A'', 1)]\<rparr>)))
       (Some \<lparr>versions = Some [(''B'', 1)]\<rparr>) = Return (Some m) \<and>
     VersionVector_Increment (Some m) ''coordinator'' = Return (d, x) \<and>
     VersionVector_Dominates (Some d) (Some \<lparr>versions = Some [(''A'', 1)]\<rparr>)"
proof -
  let ?a = "\<lparr>versions = Some [(''A'', 1)]\<rparr>" and ?b = "\<lparr>versions = Some [(''B'', 1)]\<rparr>"
  have "vv_rep (Some ?a)" "vv_rep (Some ?b)"
    "vv_val (Some ?a) ''coordinator'' < 2 ^ 64 - 1" "vv_val (Some ?b) ''coordinator'' < 2 ^ 64 - 1"
    by (simp_all add: vv_rep_def mwf_def vv_val_def VersionVector_Get_def mget_def)
  from VersionVector_resolution_dominates [OF this] show ?thesis by blast
qed

text \<open>Merging version vectors returns the least upper bound: the pointwise maximum, keeping
  the entries of both sides, from which a vector descends exactly when it descends from both;
  and merging is idempotent and commutative up to \<open>EqualCmp\<close>.\<close>

lemma VersionVector_Merge_least_upper_bound:
  assumes "vv_rep (Some a)" and "vv_rep (Some b)"
  shows "\<exists>m. VersionVector_Merge (Some a) (Some b) = Return (Some m) \<and> vv_rep (Some m) \<and>
           (\<forall>r. vv_val (Some m) r = max (vv_val (Some a) r) (vv_val (Some b) r)) \<and>
           set (VersionVector_Replicas (Some m)) =
             set (VersionVector_Replicas (Some a)) \<union> set (VersionVector_Replicas (Some b)) \<and>
           (\<forall>c. vv_rep (Some c) \<longrightarrow>
              (VersionVector_Descends (Some c) (Some m) \<longleftrightarrow>
               VersionVector_Descends (Some c) (Some a) \<and> VersionVector_Descends (Some c) (Some b))) \<and>
           (VersionVector_Merge (Some b) (Some a) = Return n \<longrightarrow> VersionVector_Equal (Some m) n)"
proof -
  have replicas: "set (VersionVector_Replicas v) = dom (map_of (entries (vv_map v)))" for v
    by (cases "vv_map v") (simp_all add: VersionVector_Replicas_def)
  have "dom (map_of (entries (versions (vv_merged a b)))) =
        dom (map_of (entries (versions a))) \<union> dom (map_of (entries (versions b)))"
    using assms(2) unsigned.merge_range_dom [of "entries (versions b)" "entries (versions a)"]
    by (simp add: entries_vv_merged vv_rep_Some)
  moreover have "VersionVector_Descends (Some x) (Some y) \<longleftrightarrow>
      VersionVector_Compare (Some y) (Some x) \<in> {BeforeCmp, EqualCmp}"
    if "vv_rep (Some x)" "vv_rep (Some y)" for x y
    using that vv.compare_flip [of y x]
    by (cases "VersionVector_Compare (Some y) (Some x)") (simp_all add: VersionVector_Descends_def)
  ultimately show ?thesis
    using assms vv.merge_least [OF assms] vv.merge_commute [OF assms]
    by (auto simp: VersionVector_Merge_Some vv_merged_rep vv_merged_val replicas VersionVector_Equal_def)
qed

end
