(* ===== verification/Causality.thy ===== *)
theory Causality
  imports Vector_Clock Version_Vector
begin

text \<open>
  What the clocks are for.  A history is the sequence of events of a distributed computation;
  the documented protocol stamps each event: a local event or a send increments the node's entry
  of its clock and takes a copy, a delivery first merges the stamp that travelled with the
  message.  This theory defines the happened-before relation of a history, independently of any
  clock, and shows that comparing stamps decides it exactly.  The argument is carried out once, in
  a locale over any vector with an increment and a copy, and applies to both the vector clocks and
  the version vectors.
\<close>

section \<open>Histories\<close>

text \<open>A delivery names the event at which its message was sent, by its position.\<close>

datatype 'k event = Act 'k | Deliver 'k nat

fun node :: "'k event \<Rightarrow> 'k" where
  "node (Act p) = p"
| "node (Deliver p i) = p"

definition valid_history :: "'k event list \<Rightarrow> bool" where
  "valid_history h \<longleftrightarrow>
     (\<forall>j < length h. case h ! j of Act p \<Rightarrow> True | Deliver p i \<Rightarrow> i < j)"

inductive happened_before :: "'k event list \<Rightarrow> nat \<Rightarrow> nat \<Rightarrow> bool" for h where
  same_node: "i < j \<Longrightarrow> j < length h \<Longrightarrow> node (h ! i) = node (h ! j) \<Longrightarrow> happened_before h i j"
| message: "j < length h \<Longrightarrow> h ! j = Deliver p i \<Longrightarrow> happened_before h i j"
| chain: "happened_before h i j \<Longrightarrow> happened_before h j k \<Longrightarrow> happened_before h i k"

text \<open>The stamps of a history: the clock of every node and the stamps taken so far.\<close>

fun stamp_step ::
    "('k \<Rightarrow> 'c \<Rightarrow> 'c) \<Rightarrow> ('c \<Rightarrow> 'c \<Rightarrow> 'c) \<Rightarrow> ('c \<Rightarrow> 'c) \<Rightarrow> 'k event \<Rightarrow> ('k \<Rightarrow> 'c) \<times> 'c list
     \<Rightarrow> ('k \<Rightarrow> 'c) \<times> 'c list" where
  "stamp_step tick merge snap (Act p) (cl, st) =
     (let c = tick p (cl p) in (cl(p := c), st @ [snap c]))"
| "stamp_step tick merge snap (Deliver p i) (cl, st) =
     (let c = tick p (merge (cl p) (st ! i)) in (cl(p := c), st @ [snap c]))"

definition stamps ::
    "('k \<Rightarrow> 'c \<Rightarrow> 'c) \<Rightarrow> ('c \<Rightarrow> 'c \<Rightarrow> 'c) \<Rightarrow> ('c \<Rightarrow> 'c) \<Rightarrow> 'c \<Rightarrow> 'k event list
     \<Rightarrow> ('k \<Rightarrow> 'c) \<times> 'c list" where
  "stamps tick merge snap init h = fold (stamp_step tick merge snap) h (\<lambda>_. init, [])"

section \<open>Happened-before\<close>

lemma valid_snoc:
  "valid_history (h @ [e]) \<longleftrightarrow>
     valid_history h \<and> (case e of Act p \<Rightarrow> True | Deliver p i \<Rightarrow> i < length h)"
  by (simp add: valid_history_def All_less_Suc nth_append conj_commute cong: imp_cong)

lemma happened_before_less:
  assumes "happened_before h i j" and "valid_history h"
  shows "i < j \<and> j < length h"
  using assms(1)
proof induction
  case (message j p i)
  with assms(2) show ?case
    by (auto simp: valid_history_def split: event.splits)
qed auto

lemma happened_before_append:
  assumes "happened_before h i j" and "valid_history h"
  shows "happened_before (h @ [e]) i j"
  using assms(1)
proof induction
  case (same_node i j)
  then show ?case
    by (auto intro!: happened_before.same_node simp: nth_append)
next
  case (message j p i)
  then show ?case
    by (auto intro!: happened_before.message simp: nth_append)
qed (rule happened_before.chain)

lemma happened_before_prefix:
  assumes "happened_before (h @ [e]) i j" and "valid_history (h @ [e])" and "j < length h"
  shows "happened_before h i j"
  using assms(1,3)
proof induction
  case (same_node i j)
  then show ?case
    by (auto intro: happened_before.same_node simp: nth_append)
next
  case (message j p i)
  then show ?case
    by (auto intro: happened_before.message simp: nth_append)
next
  case (chain i j k)
  then have "j < length h"
    using happened_before_less [OF chain.hyps(2) assms(2)] by simp
  with chain show ?case
    by (blast intro: happened_before.chain)
qed

text \<open>The past of an event, itself included, and what a node knows after a history.\<close>

definition past :: "'k event list \<Rightarrow> nat \<Rightarrow> nat set" where
  "past h j = {i. i = j \<or> happened_before h i j}"

definition known :: "'k event list \<Rightarrow> 'k \<Rightarrow> nat set" where
  "known h p = (\<Union>l \<in> {l. l < length h \<and> node (h ! l) = p}. past h l)"

lemma past_snoc:
  assumes "valid_history (h @ [e])" and "j < length h"
  shows "past (h @ [e]) j = past h j"
  using assms happened_before_prefix [OF _ assms] happened_before_append valid_snoc
  by (fastforce simp: past_def)

lemma happened_before_last:
  assumes "valid_history (h @ [e])"
  shows "happened_before (h @ [e]) i (length h) \<longleftrightarrow>
    i \<in> known h (node e) \<or> (\<exists>p m. e = Deliver p m \<and> i \<in> past h m)" (is "?L \<longleftrightarrow> ?R")
proof
  assume ?L
  then show ?R
  proof (induction i "length h")
    case (same_node i)
    then show ?case
      by (auto simp: known_def past_def nth_append)
  next
    case (message p i)
    then show ?case
      by (auto simp: past_def)
  next
    case (chain i j)
    have "j < length h"
      using happened_before_less [OF chain.hyps(3) assms] by simp
    then have "happened_before h i j"
      using happened_before_prefix chain.hyps(1) assms by blast
    with chain.hyps(4) show ?case
      by (auto simp: known_def past_def intro: happened_before.chain)
  qed
next
  have up: "happened_before (h @ [e]) i (length h)"
    if "happened_before (h @ [e]) l (length h)" "i \<in> past h l" for l
    using that happened_before_append [of h i l e] assms
    by (auto simp: past_def valid_snoc intro: happened_before.chain)
  assume ?R
  then show ?L
  proof
    assume "i \<in> known h (node e)"
    then obtain l where "l < length h" "node (h ! l) = node e" "i \<in> past h l"
      by (auto simp: known_def)
    then show ?L
      by (auto intro!: up [of l] happened_before.same_node simp: nth_append)
  next
    assume "\<exists>p m. e = Deliver p m \<and> i \<in> past h m"
    then obtain p m where m: "e = Deliver p m" "i \<in> past h m"
      by blast
    then have "happened_before (h @ [e]) m (length h)"
      by (intro happened_before.message [of _ _ p]) simp_all
    then show ?L
      using m(2) by (rule up)
  qed
qed

text \<open>The last event knows what its node knew, and what the sender of a delivered message knew.\<close>

lemma past_last:
  assumes "valid_history (h @ [e])"
  shows "past (h @ [e]) (length h) =
    insert (length h) (known h (node e) \<union> (case e of Act p \<Rightarrow> {} | Deliver p m \<Rightarrow> past h m))"
proof -
  have "past (h @ [e]) (length h) =
      insert (length h) (known h (node e) \<union> {i. \<exists>p m. e = Deliver p m \<and> i \<in> past h m})"
    unfolding past_def [of "h @ [e]"] happened_before_last [OF assms] by auto
  then show ?thesis
    by (cases e) auto
qed

lemma known_snoc:
  assumes "valid_history (h @ [e])"
  shows "known (h @ [e]) p = (if p = node e then past (h @ [e]) (length h) else known h p)"
proof -
  have "{l. l < length (h @ [e]) \<and> node ((h @ [e]) ! l) = p} =
      {l. l < length h \<and> node (h ! l) = p} \<union> (if p = node e then {length h} else {})"
    by (auto simp: nth_append less_Suc_eq)
  then have "known (h @ [e]) p = known h p \<union> (if p = node e then past (h @ [e]) (length h) else {})"
    by (auto simp: known_def past_snoc [OF assms])
  then show ?thesis
    by (auto simp: past_last [OF assms])
qed

lemma past_bound:
  assumes "valid_history h" and "j < length h" and "i \<in> past h j"
  shows "i < length h \<and> i \<le> j"
  using assms happened_before_less [of h i j] by (auto simp: past_def)

lemma known_bound: "valid_history h \<Longrightarrow> i \<in> known h p \<Longrightarrow> i < length h"
  using past_bound by (fastforce simp: known_def)

lemma past_same_node:
  assumes "i \<in> past h j" and "i' < i" and "node (h ! i') = node (h ! i)" and "i < length h"
  shows "i' \<in> past h j"
  using assms by (auto simp: past_def intro: happened_before.intros)

lemma past_subset: "i \<in> past h j \<Longrightarrow> past h i \<subseteq> past h j"
  by (auto simp: past_def intro: happened_before.chain)

text \<open>The rank of an event counts the events of its node up to it.\<close>

definition rank :: "'k event list \<Rightarrow> nat \<Rightarrow> nat" where
  "rank h i = card {l. l \<le> i \<and> node (h ! l) = node (h ! i)}"

definition occurrences :: "'k event list \<Rightarrow> 'k \<Rightarrow> nat" where
  "occurrences h p = card {l. l < length h \<and> node (h ! l) = p}"

lemma occurrences_snoc:
  "occurrences (h @ [e]) p = occurrences h p + (if p = node e then 1 else 0)"
proof -
  have "{l. l < length (h @ [e]) \<and> node ((h @ [e]) ! l) = p} =
      (if p = node e then insert (length h) {l. l < length h \<and> node (h ! l) = p}
       else {l. l < length h \<and> node (h ! l) = p})"
    by (auto simp: nth_append less_Suc_eq)
  then show ?thesis
    by (simp add: occurrences_def)
qed

lemma rank_snoc: "i < length h \<Longrightarrow> rank (h @ [e]) i = rank h i"
  unfolding rank_def by (rule arg_cong [where f = card]) (auto simp: nth_append)

lemma rank_last: "rank (h @ [e]) (length h) = occurrences h (node e) + 1"
proof -
  have "{l. l \<le> length h \<and> node ((h @ [e]) ! l) = node ((h @ [e]) ! length h)} =
      insert (length h) {l. l < length h \<and> node (h ! l) = node e}"
    by (auto simp: nth_append le_less)
  then show ?thesis
    by (simp add: rank_def occurrences_def)
qed

lemma rank_less:
  assumes "i < j" and "node (h ! i) = node (h ! j)"
  shows "rank h i < rank h j"
proof -
  have "j \<in> {l. l \<le> j \<and> node (h ! l) = node (h ! j)} - {l. l \<le> i \<and> node (h ! l) = node (h ! i)}"
    using assms by simp
  then have "{l. l \<le> i \<and> node (h ! l) = node (h ! i)} \<subset> {l. l \<le> j \<and> node (h ! l) = node (h ! j)}"
    using assms by force
  then show ?thesis
    unfolding rank_def by (rule psubset_card_mono [rotated]) simp
qed

lemma rank_le_occurrences: "i < length h \<Longrightarrow> rank h i \<le> occurrences h (node (h ! i))"
  unfolding rank_def occurrences_def by (rule card_mono) auto

lemma occurrences_le: "occurrences h p \<le> length h"
  using card_mono [of "{..<length h}" "{l. l < length h \<and> node (h ! l) = p}"]
  by (auto simp: occurrences_def)

lemma rank_pos: "0 < rank h i"
  unfolding rank_def by (auto simp: card_gt_0_iff)

section \<open>Stamps decide happened-before\<close>

text \<open>
  A vector represents a set of events when each entry is the largest rank of an event of that
  node in the set (zero when there is none).
\<close>

definition represents :: "'k event list \<Rightarrow> ('k \<Rightarrow> int) \<Rightarrow> nat set \<Rightarrow> bool" where
  "represents h v S \<longleftrightarrow> (\<forall>i \<in> S. int (rank h i) \<le> v (node (h ! i))) \<and>
     (\<forall>k. v k = 0 \<or> (\<exists>i \<in> S. node (h ! i) = k \<and> int (rank h i) = v k))"

lemma represents_empty: "represents h (\<lambda>_. 0) {}"
  by (simp add: represents_def)

lemma represents_max:
  assumes "represents h v S" and "represents h w T"
  shows "represents h (\<lambda>k. max (v k) (w k)) (S \<union> T)"
  using assms unfolding represents_def by (fastforce simp: max_def)

lemma represents_snoc:
  assumes "represents h v S" and "\<forall>i \<in> S. i < length h"
  shows "represents (h @ [e]) v S"
  using assms unfolding represents_def by (auto simp: nth_append rank_snoc)

lemma represents_bound:
  assumes "represents h v S" and "\<forall>i \<in> S. i < length h"
  shows "v k \<le> int (occurrences h k)"
proof (cases "v k = 0")
  case False
  then obtain i where "i \<in> S" "node (h ! i) = k" "int (rank h i) = v k"
    using assms(1) by (auto simp: represents_def)
  with assms(2) rank_le_occurrences [of i h] show ?thesis
    by auto
qed simp

lemma represents_tick:
  assumes "represents h v S" and "\<forall>i \<in> S. i < length h"
    and "v (node e) = int (occurrences h (node e))"
  shows "represents (h @ [e]) (v(node e := v (node e) + 1)) (insert (length h) S)"
proof -
  let ?h = "h @ [e]" and ?n = "length h"
  have r: "represents ?h v S"
    by (rule represents_snoc [OF assms(1,2)])
  have n: "node (?h ! ?n) = node e" "int (rank ?h ?n) = v (node e) + 1"
    using assms(3) by (simp_all add: rank_last)
  show ?thesis
    unfolding represents_def
  proof (intro conjI ballI allI)
    fix i assume "i \<in> insert ?n S"
    then show "int (rank ?h i) \<le> (v(node e := v (node e) + 1)) (node (?h ! i))"
      using r n by (force simp: represents_def)
  next
    fix k
    show "(v(node e := v (node e) + 1)) k = 0 \<or>
        (\<exists>i \<in> insert ?n S. node (?h ! i) = k \<and> int (rank ?h i) = (v(node e := v (node e) + 1)) k)"
      using r n by (cases "k = node e") (auto simp: represents_def)
  qed
qed

text \<open>For a set closed under earlier events of the same node, the vector decides membership.\<close>

lemma represents_member:
  assumes "represents h v S" and "\<And>i i'. i \<in> S \<Longrightarrow> i' < i \<Longrightarrow> node (h ! i') = node (h ! i) \<Longrightarrow> i' \<in> S"
  shows "i \<in> S \<longleftrightarrow> int (rank h i) \<le> v (node (h ! i))"
proof
  assume "int (rank h i) \<le> v (node (h ! i))"
  moreover from this have "v (node (h ! i)) \<noteq> 0"
    using rank_pos [of h i] by linarith
  ultimately obtain j where j: "j \<in> S" "node (h ! j) = node (h ! i)" "rank h i \<le> rank h j"
    using assms(1) by (auto simp: represents_def)
  then have "i \<le> j"
    using rank_less [of j i h] by force
  with j assms(2) show "i \<in> S"
    by (auto simp: le_less)
qed (use assms(1) in \<open>simp add: represents_def\<close>)

text \<open>The state after a history: every node's clock represents what the node knows, every stamp
  the past of its event.\<close>

definition tracks ::
    "('c \<Rightarrow> bool) \<Rightarrow> ('c \<Rightarrow> 'k \<Rightarrow> int) \<Rightarrow> 'k event list \<Rightarrow> ('k \<Rightarrow> 'c) \<times> 'c list \<Rightarrow> bool" where
  "tracks ok vec h s \<longleftrightarrow> (case s of (cl, st) \<Rightarrow> length st = length h \<and>
     (\<forall>p. ok (cl p) \<and> represents h (vec (cl p)) (known h p) \<and> vec (cl p) p = int (occurrences h p)) \<and>
     (\<forall>j < length h. ok (st ! j) \<and> represents h (vec (st ! j)) (past h j)))"

text \<open>
  The interface: a vector as before, with an initial value, an increment that adds one below a
  bound, and a copy.
\<close>

locale causal_clock = causal_vector ok abs merge compare
  for ok :: "'c \<Rightarrow> bool" and abs :: "'c \<Rightarrow> 'k \<Rightarrow> int" and merge :: "'c \<Rightarrow> 'c \<Rightarrow> 'c"
    and compare :: "'c \<Rightarrow> 'c \<Rightarrow> Comparison" +
  fixes tick :: "'k \<Rightarrow> 'c \<Rightarrow> 'c"
    and snap :: "'c \<Rightarrow> 'c"
    and init :: 'c
    and bound :: int
  assumes init_ok: "ok init"
    and abs_init: "abs init k = 0"
    and tick_ok: "ok a \<Longrightarrow> abs a k < bound \<Longrightarrow> ok (tick k a)"
    and abs_tick: "ok a \<Longrightarrow> abs a k < bound \<Longrightarrow> abs (tick k a) = (abs a)(k := abs a k + 1)"
    and snap_ok: "ok a \<Longrightarrow> ok (snap a)"
    and abs_snap: "ok a \<Longrightarrow> abs (snap a) = abs a"
begin

text \<open>One event, from the vector that its node increments and the set that vector represents.\<close>

lemma tracks_extend:
  assumes "tracks ok abs h (cl, st)" and v: "valid_history (h @ [e])" and b: "int (length h) < bound"
    and c: "ok c" "represents h (abs c) S" "\<forall>i \<in> S. i < length h"
      "abs c (node e) = int (occurrences h (node e))"
    and S: "past (h @ [e]) (length h) = insert (length h) S"
  shows "tracks ok abs (h @ [e]) (cl(node e := tick (node e) c), st @ [snap (tick (node e) c)])"
proof -
  let ?t = "tick (node e) c"
  have "abs c (node e) < bound"
    using c(4) b occurrences_le [of h "node e"] by simp
  then have t: "ok ?t" "abs ?t = (abs c)(node e := abs c (node e) + 1)"
    using c(1) by (simp_all add: tick_ok abs_tick)
  then have rt: "represents (h @ [e]) (abs ?t) (past (h @ [e]) (length h))"
    unfolding S using represents_tick [OF c(2-4)] by simp
  have h: "valid_history h"
    using v by (simp add: valid_snoc)
  have old: "represents (h @ [e]) (abs (cl p)) (known h p)" for p
    using assms(1) known_bound [OF h] by (auto simp: tracks_def intro: represents_snoc)
  have olds: "represents (h @ [e]) (abs (st ! j)) (past (h @ [e]) j)" if "j < length h" for j
    using that assms(1) past_bound [OF h that]
    by (auto simp: tracks_def past_snoc [OF v that] intro: represents_snoc)
  show ?thesis
    using assms(1) t rt old olds c(4)
    by (auto simp: tracks_def known_snoc [OF v] occurrences_snoc nth_append less_Suc_eq snap_ok abs_snap)
qed

lemma stamps_track:
  assumes "valid_history h" and "int (length h) \<le> bound"
  shows "tracks ok abs h (stamps tick merge snap init h)"
  using assms
proof (induction h rule: rev_induct)
  case Nil
  then show ?case
    by (simp add: tracks_def stamps_def init_ok represents_def known_def abs_init occurrences_def)
next
  case (snoc e h)
  obtain cl st where s: "stamps tick merge snap init h = (cl, st)"
    by fastforce
  have h: "valid_history h"
    using snoc.prems(1) by (simp add: valid_snoc)
  then have t: "tracks ok abs h (cl, st)"
    using snoc s by simp
  have step: "stamps tick merge snap init (h @ [e]) = stamp_step tick merge snap e (cl, st)"
    using s by (simp add: stamps_def)
  show ?case
  proof (cases e)
    case (Act p)
    have "tracks ok abs (h @ [e]) (cl(node e := tick (node e) (cl p)), st @ [snap (tick (node e) (cl p))])"
      by (rule tracks_extend [OF t snoc.prems(1), where S = "known h p"])
        (use Act t snoc.prems past_last [OF snoc.prems(1)] known_bound [OF h] in
          \<open>auto simp: tracks_def\<close>)
    then show ?thesis
      unfolding step by (simp add: Act Let_def)
  next
    case (Deliver p m)
    have m: "m < length h"
      using snoc.prems(1) by (simp add: Deliver valid_snoc)
    let ?c = "merge (cl p) (st ! m)"
    have stm: "ok (st ! m)" "represents h (abs (st ! m)) (past h m)" "ok (cl p)"
        "represents h (abs (cl p)) (known h p)" "abs (cl p) p = int (occurrences h p)"
      using t m by (simp_all add: tracks_def)
    have "abs (st ! m) p \<le> int (occurrences h p)"
      using represents_bound [OF stm(2)] past_bound [OF h m] by blast
    moreover have "abs ?c = (\<lambda>k. max (abs (cl p) k) (abs (st ! m) k))"
      using stm by (simp add: fun_eq_iff abs_merge)
    ultimately have c: "ok ?c" "represents h (abs ?c) (known h p \<union> past h m)"
        "abs ?c p = int (occurrences h p)"
      using represents_max [OF stm(4,2)] stm by (simp_all add: merge_ok)
    have "tracks ok abs (h @ [e]) (cl(node e := tick (node e) ?c), st @ [snap (tick (node e) ?c)])"
      by (rule tracks_extend [OF t snoc.prems(1), where S = "known h p \<union> past h m"])
        (use Deliver c snoc.prems past_last [OF snoc.prems(1)] known_bound [OF h]
          past_bound [OF h m] in \<open>auto\<close>)
    then show ?thesis
      unfolding step by (simp add: Deliver Let_def)
  qed
qed

text \<open>Comparing stamps is comparing pasts.\<close>

lemma stamps_le_iff:
  assumes "tracks ok abs h (cl, st)" and "valid_history h" and "i < length h" and "j < length h"
  shows "abs (st ! i) \<le> abs (st ! j) \<longleftrightarrow> i \<in> past h j"
proof
  have r: "represents h (abs (st ! i)) (past h i)" "represents h (abs (st ! j)) (past h j)"
      "ok (st ! j)"
    using assms by (auto simp: tracks_def)
  assume "abs (st ! i) \<le> abs (st ! j)"
  moreover have "int (rank h i) \<le> abs (st ! i) (node (h ! i))"
    using r(1) by (auto simp: represents_def past_def)
  ultimately have "int (rank h i) \<le> abs (st ! j) (node (h ! i))"
    by (meson le_fun_def order_trans)
  then show "i \<in> past h j"
    using represents_member [OF r(2)] past_same_node past_bound [OF assms(2,4)] by blast
next
  have r: "represents h (abs (st ! i)) (past h i)" "represents h (abs (st ! j)) (past h j)"
      "ok (st ! j)"
    using assms by (auto simp: tracks_def)
  assume "i \<in> past h j"
  then have "past h i \<subseteq> past h j"
    by (rule past_subset)
  with r show "abs (st ! i) \<le> abs (st ! j)"
    using abs_nonneg [OF r(3)] unfolding le_fun_def represents_def
    by (metis in_mono)
qed

lemma compare_stamps:
  assumes "valid_history h" and "int (length h) \<le> bound" and "stamps tick merge snap init h = (cl, st)"
    and "i < length h" and "j < length h"
  shows "compare (st ! i) (st ! j) =
    (if i = j then EqualCmp else if happened_before h i j then BeforeCmp
     else if happened_before h j i then AfterCmp else ConcurrentCmp)"
proof -
  have t: "tracks ok abs h (cl, st)"
    using stamps_track [OF assms(1,2)] assms(3) by simp
  have le: "abs (st ! a) \<le> abs (st ! b) \<longleftrightarrow> a = b \<or> happened_before h a b"
    if "a < length h" "b < length h" for a b
    using stamps_le_iff [OF t assms(1) that] by (auto simp: past_def)
  have "\<not> (happened_before h i j \<and> happened_before h j i)"
    using happened_before_less [OF _ assms(1), of i j] happened_before_less [OF _ assms(1), of j i]
    by auto
  then show ?thesis
    using le [OF assms(4,5)] le [OF assms(5,4)] t assms(4,5)
    by (auto simp: tracks_def compare_abs cmp_spec_def)
qed

end

section \<open>Vector clocks and version vectors\<close>

text \<open>The protocol on the clocks of the library: every call that can panic is kept.\<close>

fun clock_step :: "NodeID event \<Rightarrow> (NodeID \<Rightarrow> Clock) \<times> Clock list \<Rightarrow> ((NodeID \<Rightarrow> Clock) \<times> Clock list) go" where
  "clock_step (Act p) (cl, st) =
     go_map (\<lambda>(c, v). (cl(p := c), st @ [Clock_Copy (Some c)])) (Clock_Increment (Some (cl p)) p)"
| "clock_step (Deliver p i) (cl, st) =
     go_bind (Clock_Merge (Some (cl p)) (Some (st ! i))) (\<lambda>m.
       go_map (\<lambda>(c, v). (cl(p := c), st @ [Clock_Copy (Some c)])) (Clock_Increment m p))"

fun clock_run :: "NodeID event list \<Rightarrow> (NodeID \<Rightarrow> Clock) \<times> Clock list \<Rightarrow> ((NodeID \<Rightarrow> Clock) \<times> Clock list) go" where
  "clock_run [] s = Return s"
| "clock_run (e # h) s = go_bind (clock_step e s) (clock_run h)"

fun version_step ::
    "ReplicaID event \<Rightarrow> (ReplicaID \<Rightarrow> VersionVector) \<times> VersionVector list
     \<Rightarrow> ((ReplicaID \<Rightarrow> VersionVector) \<times> VersionVector list) go" where
  "version_step (Act p) (cl, st) =
     go_map (\<lambda>(c, v). (cl(p := c), st @ [VersionVector_Copy (Some c)]))
       (VersionVector_Increment (Some (cl p)) p)"
| "version_step (Deliver p i) (cl, st) =
     go_bind (VersionVector_Merge (Some (cl p)) (Some (st ! i))) (\<lambda>m.
       go_map (\<lambda>(c, v). (cl(p := c), st @ [VersionVector_Copy (Some c)]))
         (VersionVector_Increment m p))"

fun version_run ::
    "ReplicaID event list \<Rightarrow> (ReplicaID \<Rightarrow> VersionVector) \<times> VersionVector list
     \<Rightarrow> ((ReplicaID \<Rightarrow> VersionVector) \<times> VersionVector list) go" where
  "version_run [] s = Return s"
| "version_run (e # h) s = go_bind (version_step e s) (version_run h)"

definition clock_tick :: "NodeID \<Rightarrow> Clock \<Rightarrow> Clock" where
  "clock_tick n c = \<lparr>clock = Some (mput n (Clock_Get (Some c) n + 1) (entries (clock c)))\<rparr>"

lemma Clock_Increment_tick: "Clock_Increment (Some c) n = Return (clock_tick n c, Clock_Get (Some c) n + 1)"
  by (simp add: Clock_Increment_Some clock_tick_def)

lemma Clock_Copy_val: "clock_rep c \<Longrightarrow> clock_val (Some (Clock_Copy c)) = clock_val c"
  by (simp add: fun_eq_iff clock_val_def Clock_Copy_Get)

interpretation vcc: causal_clock "\<lambda>c. clock_ok (Some c)" "\<lambda>c. clock_val (Some c)" clock_merged
  "\<lambda>a b. Clock_Compare (Some a) (Some b)" clock_tick "\<lambda>c. Clock_Copy (Some c)" "NewClock []"
  "2 ^ 63 - 1"
proof
  fix a k
  show "clock_ok (Some (NewClock []))" "clock_val (Some (NewClock [])) k = 0"
    by (simp_all add: clock_val_def)
  assume a: "clock_ok (Some a)"
  then show "clock_ok (Some (Clock_Copy (Some a)))" "clock_val (Some (Clock_Copy (Some a))) = clock_val (Some a)"
    by (simp_all add: Clock_Copy_ok Clock_Copy_val clock_ok_rep)
  assume "clock_val (Some a) k < 2 ^ 63 - 1"
  then show "clock_ok (Some (clock_tick k a))"
      "clock_val (Some (clock_tick k a)) = (clock_val (Some a))(k := clock_val (Some a) k + 1)"
    using Clock_Increment_ok [OF Clock_Increment_tick a] Clock_Increment_val [OF Clock_Increment_tick]
    by simp_all
qed

lemma clock_run_stamps:
  "clock_run h s = Return (fold (stamp_step clock_tick clock_merged (\<lambda>c. Clock_Copy (Some c))) h s)"
proof (induction h arbitrary: s)
  case (Cons e h)
  then show ?case
    by (cases e; cases s) (simp_all add: Clock_Merge_Some Clock_Increment_tick Let_def)
qed simp

lemma VersionVector_Copy_val: "vv_rep vv \<Longrightarrow> vv_val (Some (VersionVector_Copy vv)) = vv_val vv"
  by (simp add: fun_eq_iff vv_val_def VersionVector_Get_mget VersionVector_Copy_map mget_def)

interpretation vvc: causal_clock "\<lambda>v. vv_rep (Some v)" "\<lambda>v. vv_val (Some v)" vv_merged
  "\<lambda>a b. VersionVector_Compare (Some a) (Some b)" "\<lambda>r v. vv_incremented v r"
  "\<lambda>v. VersionVector_Copy (Some v)" "NewVersionVector []" "2 ^ 64 - 1"
  by unfold_locales
    (simp_all add: vv_val_def [of "Some (NewVersionVector [])"] vv_incremented_rep vv_incremented_val
      VersionVector_Copy_val)

lemma version_run_stamps:
  "version_run h s = Return
     (fold (stamp_step (\<lambda>r v. vv_incremented v r) vv_merged (\<lambda>v. VersionVector_Copy (Some v))) h s)"
proof (induction h arbitrary: s)
  case (Cons e h)
  then show ?case
    by (cases e; cases s)
      (simp_all add: VersionVector_Merge_Some VersionVector_Increment_Some vv_incremented_def Let_def)
qed simp

section \<open>Properties\<close>

text \<open>C1. Vector clocks characterise causality: when nodes stamp their events by the documented
  protocol (increment and copy for a local event or a send; merge the received stamp, then
  increment and copy for a delivery), no call panics, and for every history of fewer than
  \<open>2^63\<close> events comparing the stamps of two events answers exactly whether the first happened
  before the second, after it, is the same event, or is causally unrelated to it.\<close>

theorem causality_exact:
  assumes "valid_history h" and "int (length h) < 2 ^ 63" and "i < length h" and "j < length h"
  shows "\<exists>cl st. clock_run h (\<lambda>_. NewClock [], []) = Return (cl, st) \<and> length st = length h \<and>
    Clock_Compare (Some (st ! i)) (Some (st ! j)) =
      (if i = j then EqualCmp else if happened_before h i j then BeforeCmp
       else if happened_before h j i then AfterCmp else ConcurrentCmp)"
proof -
  let ?s = "stamps clock_tick clock_merged (\<lambda>c. Clock_Copy (Some c)) (NewClock []) h"
  obtain cl st where s: "?s = (cl, st)"
    by fastforce
  moreover have "length st = length h"
    using vcc.stamps_track [OF assms(1)] assms(2) s by (simp add: tracks_def)
  ultimately show ?thesis
    using vcc.compare_stamps [OF assms(1) _ s assms(3,4)] assms(2)
    by (simp add: clock_run_stamps stamps_def)
qed

theorem causality_exact_witness:
  "\<exists>cl st. clock_run [Act ''a'', Deliver ''b'' 0, Act ''a''] (\<lambda>_. NewClock [], []) = Return (cl, st) \<and>
     length st = 3 \<and> Clock_Compare (Some (st ! 0)) (Some (st ! 1)) = BeforeCmp"
proof -
  let ?h = "[Act ''a'', Deliver ''b'' 0, Act ''a'']"
  have "happened_before ?h 0 1"
    by (rule happened_before.message [of _ _ "''b''"]) simp_all
  moreover have "valid_history ?h"
    by (simp add: valid_history_def numeral_3_eq_3 All_less_Suc)
  ultimately show ?thesis
    using causality_exact [of ?h 0 1] by (simp add: numeral_3_eq_3 del: clock_run.simps)
qed

text \<open>C15. The same for version vectors, up to \<open>2^64\<close> updates: a version descends from another
  exactly when its update happened after the other's, and is a conflict exactly when neither update
  knew the other.\<close>

theorem version_causality_exact:
  assumes "valid_history h" and "int (length h) < 2 ^ 64" and "i < length h" and "j < length h"
  shows "\<exists>cl st. version_run h (\<lambda>_. NewVersionVector [], []) = Return (cl, st) \<and>
    length st = length h \<and>
    VersionVector_Compare (Some (st ! i)) (Some (st ! j)) =
      (if i = j then EqualCmp else if happened_before h i j then BeforeCmp
       else if happened_before h j i then AfterCmp else ConcurrentCmp)"
proof -
  let ?s = "stamps (\<lambda>r v. vv_incremented v r) vv_merged (\<lambda>v. VersionVector_Copy (Some v))
    (NewVersionVector []) h"
  obtain cl st where s: "?s = (cl, st)"
    by fastforce
  moreover have "length st = length h"
    using vvc.stamps_track [OF assms(1)] assms(2) s by (simp add: tracks_def)
  ultimately show ?thesis
    using vvc.compare_stamps [OF assms(1) _ s assms(3,4)] assms(2)
    by (simp add: version_run_stamps stamps_def)
qed

theorem version_causality_exact_witness:
  "\<exists>cl st. version_run [Act ''x'', Act ''y'', Deliver ''x'' 1] (\<lambda>_. NewVersionVector [], []) =
     Return (cl, st) \<and> length st = 3 \<and>
     VersionVector_Compare (Some (st ! 2)) (Some (st ! 1)) = AfterCmp"
proof -
  let ?h = "[Act ''x'', Act ''y'', Deliver ''x'' 1]"
  have "happened_before ?h 1 2"
    by (rule happened_before.message [of _ _ "''x''"]) simp_all
  moreover have v: "valid_history ?h"
    by (simp add: valid_history_def numeral_3_eq_3 All_less_Suc)
  moreover have "\<not> happened_before ?h 2 1"
    using happened_before_less [OF _ v] by fastforce
  ultimately show ?thesis
    using version_causality_exact [of ?h 2 1] by (simp add: numeral_3_eq_3 del: version_run.simps)
qed

end
