(* ===== verification/Go_Strings.thy ===== *)
theory Go_Strings
  imports Go_Prelude
begin

text \<open>
  What the sources use of Go's string library, over strings as byte sequences: the decoding of
  UTF-8 that a \<open>range\<close> loop and the trimming functions perform, \<open>strings.TrimSpace\<close>,
  \<open>strings.Split\<close> with a one-byte separator, the verb \<open>%d\<close> of the printing functions
  and of \<open>fmt.Sscanf\<close>.
\<close>

section \<open>UTF-8\<close>

abbreviation byte_of :: "char \<Rightarrow> nat" where
  "byte_of c \<equiv> of_char c"

text \<open>The rune reported for bytes that are not valid UTF-8.\<close>

definition rune_error :: nat where
  "rune_error = 65533"

definition is_cont :: "char \<Rightarrow> bool" where
  "is_cont c \<longleftrightarrow> 128 \<le> byte_of c \<and> byte_of c \<le> 191"

text \<open>The second byte of a long sequence is restricted, to rule out overlong forms,
  surrogates and values past the last code point.\<close>

definition second_ok :: "nat \<Rightarrow> char \<Rightarrow> bool" where
  "second_ok b0 c \<longleftrightarrow>
     (if b0 = 224 then 160 else if b0 = 240 then 144 else 128) \<le> byte_of c \<and>
     byte_of c \<le> (if b0 = 237 then 159 else if b0 = 244 then 143 else 191)"

text \<open>\<open>utf8.DecodeRuneInString\<close>: the first rune and its width in bytes.\<close>

fun decode_rune :: "string \<Rightarrow> nat \<times> nat" where
  "decode_rune [] = (rune_error, 0)"
| "decode_rune (c0 # s) =
     (let b0 = byte_of c0 in
      if b0 < 128 then (b0, 1)
      else if 194 \<le> b0 \<and> b0 \<le> 223 then
        (case s of
           c1 # _ \<Rightarrow> if is_cont c1 then ((b0 mod 32) * 64 + byte_of c1 mod 64, 2)
                    else (rune_error, 1)
         | [] \<Rightarrow> (rune_error, 1))
      else if 224 \<le> b0 \<and> b0 \<le> 239 then
        (case s of
           c1 # c2 # _ \<Rightarrow>
             if second_ok b0 c1 \<and> is_cont c2
             then ((b0 mod 16) * 4096 + (byte_of c1 mod 64) * 64 + byte_of c2 mod 64, 3)
             else (rune_error, 1)
         | _ \<Rightarrow> (rune_error, 1))
      else if 240 \<le> b0 \<and> b0 \<le> 244 then
        (case s of
           c1 # c2 # c3 # _ \<Rightarrow>
             if second_ok b0 c1 \<and> is_cont c2 \<and> is_cont c3
             then ((b0 mod 8) * 262144 + (byte_of c1 mod 64) * 4096 +
                   (byte_of c2 mod 64) * 64 + byte_of c3 mod 64, 4)
             else (rune_error, 1)
         | _ \<Rightarrow> (rune_error, 1))
      else (rune_error, 1))"

text \<open>Facts about the width, which is never zero on a non-empty string.\<close>

lemma decode_rune_width: "s \<noteq> [] \<Longrightarrow> 0 < snd (decode_rune s) \<and> snd (decode_rune s) \<le> length s"
  by (cases s) (auto simp: Let_def split: list.split)

text \<open>The runes a \<open>range\<close> loop over a string visits.\<close>

function range_runes :: "string \<Rightarrow> nat list" where
  "range_runes s =
     (if s = [] then []
      else fst (decode_rune s) # range_runes (drop (snd (decode_rune s)) s))"
  by pat_completeness auto
termination
  by (relation "measure length") (use decode_rune_width in \<open>auto simp del: decode_rune.simps\<close>)

declare range_runes.simps [simp del]

lemma range_runes_Nil [simp]: "range_runes [] = []"
  by (simp add: range_runes.simps)

lemma decode_rune_ascii: "byte_of c < 128 \<Longrightarrow> decode_rune (c # s) = (byte_of c, 1)"
  by simp

lemma range_runes_ascii_Cons: "byte_of c < 128 \<Longrightarrow> range_runes (c # s) = byte_of c # range_runes s"
  by (subst range_runes.simps) simp

text \<open>An ASCII byte never belongs to a longer sequence, so putting one behind a string does
  not change how the string's own first rune is read.\<close>

lemma decode_rune_append_ascii:
  assumes "byte_of c < 128" and "s \<noteq> []"
  shows "decode_rune (s @ c # t) = decode_rune s"
proof -
  have no: "\<not> is_cont c" "\<not> second_ok b c" for b
    using assms(1) by (auto simp: is_cont_def second_ok_def)
  from assms(2) obtain c0 s' where "s = c0 # s'" by (cases s) auto
  then show ?thesis
    by (auto simp: Let_def no split: list.split)
qed

text \<open>A sequence that starts at or above 128 stays there: its rune and all its bytes do.\<close>

lemma mod_ge_of_range: "(m::nat) * k + a \<le> b \<Longrightarrow> b < m * k + m \<Longrightarrow> a \<le> b mod m"
  by (metis add_le_cancel_left add_less_cancel_left le_add_diff_inverse le_add1 le_trans
      mod_less mod_mult_self4 mult.commute)

lemma decode_rune_high:
  assumes "128 \<le> byte_of c"
  shows "128 \<le> fst (decode_rune (c # s))"
    and "x \<in> set (take (snd (decode_rune (c # s))) (c # s)) \<Longrightarrow> 128 \<le> byte_of x"
proof -
  let ?b = "byte_of c"
  have two: "2 \<le> ?b mod 32" if "194 \<le> ?b" "?b \<le> 223"
    using mod_ge_of_range [of 32 6 2 ?b] that by simp
  have three: "1 \<le> ?b mod 16" if "225 \<le> ?b" "?b \<le> 239"
    using mod_ge_of_range [of 16 14 1 ?b] that by simp
  have four: "1 \<le> ?b mod 8" if "241 \<le> ?b" "?b \<le> 244"
    using mod_ge_of_range [of 8 30 1 ?b] that by simp
  have second3: "32 \<le> byte_of d mod 64" if "second_ok 224 d" for d
    using mod_ge_of_range [of 64 2 32 "byte_of d"] that by (simp add: second_ok_def)
  have second4: "16 \<le> byte_of d mod 64" if "second_ok 240 d" for d
    using mod_ge_of_range [of 64 2 16 "byte_of d"] that by (simp add: second_ok_def)
  have err: "128 \<le> rune_error" by (simp add: rune_error_def)
  consider "?b < 194 \<or> 244 < ?b" | "194 \<le> ?b" "?b \<le> 223" | "?b = 224"
    | "225 \<le> ?b" "?b \<le> 239" | "?b = 240" | "241 \<le> ?b" "?b \<le> 244"
    by linarith
  then show "128 \<le> fst (decode_rune (c # s))"
  proof cases
    case 1
    with assms err show ?thesis by (auto simp: Let_def)
  next
    case 2
    with two err show ?thesis by (auto simp: Let_def split: list.split)
  next
    case 3
    with err show ?thesis by (auto simp: Let_def split: list.split dest!: second3)
  next
    case 4
    with three err show ?thesis by (auto simp: Let_def split: list.split)
  next
    case 5
    with err show ?thesis by (auto simp: Let_def split: list.split dest!: second4)
  next
    case 6
    with four err show ?thesis by (auto simp: Let_def split: list.split)
  qed
  have "is_cont d \<Longrightarrow> 128 \<le> byte_of d" "second_ok ?b d \<Longrightarrow> 128 \<le> byte_of d" for d
    by (auto simp: is_cont_def second_ok_def split: if_splits)
  with assms have "list_all (\<lambda>x. 128 \<le> byte_of x) (take (snd (decode_rune (c # s))) (c # s))"
    by (simp add: Let_def split: list.split)
  then show "128 \<le> byte_of x" if "x \<in> set (take (snd (decode_rune (c # s))) (c # s))"
    using that by (simp only: list_all_iff)
qed

text \<open>So the ASCII runes a \<open>range\<close> loop sees are exactly the ASCII bytes of the string,
  valid UTF-8 or not.\<close>

lemma range_runes_ascii:
  "r < 128 \<Longrightarrow> r \<in> set (range_runes s) \<longleftrightarrow> r \<in> byte_of ` set s"
proof (induction s rule: range_runes.induct)
  case (1 s)
  show ?case
  proof (cases s)
    case (Cons c t)
    let ?w = "snd (decode_rune s)"
    have IH: "r \<in> set (range_runes (drop ?w s)) \<longleftrightarrow> r \<in> byte_of ` set (drop ?w s)"
      using 1 Cons by blast
    have unfold: "set (range_runes s) = insert (fst (decode_rune s)) (set (range_runes (drop ?w s)))"
      using Cons by (subst range_runes.simps) simp
    have split: "set s = set (take ?w s) \<union> set (drop ?w s)"
      by (metis append_take_drop_id set_append)
    show ?thesis
    proof (cases "byte_of c < 128")
      case True
      then show ?thesis using IH unfold Cons by auto
    next
      case False
      then have "r \<noteq> fst (decode_rune s)" "r \<notin> byte_of ` set (take ?w s)"
        using decode_rune_high [where c = c and s = t] 1(2) Cons
        by (fastforce simp del: decode_rune.simps)+
      then show ?thesis using IH unfold split by (simp add: image_Un)
    qed
  qed simp
qed

section \<open>Trimming and splitting\<close>

text \<open>\<open>unicode.IsSpace\<close>: the code points with the property White Space.\<close>

definition is_space :: "nat \<Rightarrow> bool" where
  "is_space r \<longleftrightarrow>
     r \<in> set [9, 10, 11, 12, 13, 32, 133, 160, 5760, 8232, 8233, 8239, 8287, 12288] \<or>
     (8192 \<le> r \<and> r \<le> 8202)"

text \<open>
  \<open>utf8.DecodeLastRuneInString\<close>: it looks back over at most three more bytes for one that
  may start a rune, and reports an error of width one when the rune found there does not end
  at the end of the string.
\<close>

fun rune_start_back :: "string \<Rightarrow> nat \<Rightarrow> nat \<Rightarrow> nat" where
  "rune_start_back s lim 0 = 0"
| "rune_start_back s lim (Suc i) =
     (if i < lim then i else if \<not> is_cont (s ! i) then i else rune_start_back s lim i)"

definition decode_last_rune :: "string \<Rightarrow> nat \<times> nat" where
  "decode_last_rune s =
     (if s = [] then (rune_error, 0)
      else if byte_of (last s) < 128 then (byte_of (last s), 1)
      else let start = rune_start_back s (length s - 4) (length s - 1);
               (r, size) = decode_rune (drop start s)
           in if start + size \<noteq> length s then (rune_error, 1) else (r, size))"

lemma rune_start_back_le: "rune_start_back s lim i \<le> i"
  by (induction s lim i rule: rune_start_back.induct) auto

lemma decode_last_rune_width:
  assumes "s \<noteq> []"
  shows "0 < snd (decode_last_rune s) \<and> snd (decode_last_rune s) \<le> length s"
proof -
  let ?d = "drop (rune_start_back s (length s - 4) (length s - 1)) s"
  have "rune_start_back s (length s - 4) (length s - 1) < length s"
    using rune_start_back_le [of s "length s - 4" "length s - 1"] assms
    by (cases s) auto
  then have "?d \<noteq> []" by simp
  then have "0 < snd (decode_rune ?d)" "snd (decode_rune ?d) \<le> length s"
    using decode_rune_width [of ?d] by (auto intro: le_trans [OF _ diff_le_self])
  then show ?thesis
    using assms by (cases "decode_rune ?d") (auto simp: decode_last_rune_def Let_def Suc_le_eq)
qed

text \<open>Dropping the white space at either end, rune by rune.\<close>

function trim_left :: "string \<Rightarrow> string" where
  "trim_left s =
     (if s \<noteq> [] \<and> is_space (fst (decode_rune s))
      then trim_left (drop (snd (decode_rune s)) s) else s)"
  by pat_completeness auto
termination
  by (relation "measure length") (use decode_rune_width in \<open>auto simp del: decode_rune.simps\<close>)

function trim_right :: "string \<Rightarrow> string" where
  "trim_right s =
     (if s \<noteq> [] \<and> is_space (fst (decode_last_rune s))
      then trim_right (take (length s - snd (decode_last_rune s)) s) else s)"
  by pat_completeness auto
termination
  by (relation "measure length") (use decode_last_rune_width in auto)

declare trim_left.simps [simp del] trim_right.simps [simp del]

definition TrimSpace :: "string \<Rightarrow> string" where
  "TrimSpace s = trim_right (trim_left s)"

text \<open>\<open>strings.Split\<close> with a separator of one byte.\<close>

fun split_on :: "char \<Rightarrow> string \<Rightarrow> string list" where
  "split_on sep [] = [[]]"
| "split_on sep (c # s) =
     (if c = sep then [] # split_on sep s
      else (case split_on sep s of p # ps \<Rightarrow> (c # p) # ps | [] \<Rightarrow> [[c]]))"

lemma split_on_not_Nil [simp]: "split_on sep s \<noteq> []"
  by (cases s) (auto split: list.split)

lemma split_on_absent [simp]: "sep \<notin> set s \<Longrightarrow> split_on sep s = [s]"
  by (induction s) auto

lemma split_on_append [simp]:
  "sep \<notin> set p \<Longrightarrow> split_on sep (p @ sep # s) = p # split_on sep s"
  by (induction p) auto

lemma concat_split_on:
  "split_on sep s = p # ps \<Longrightarrow> s = p @ concat (map (\<lambda>q. sep # q) ps) \<and> sep \<notin> set p"
proof (induction s arbitrary: p ps)
  case (Cons c s)
  obtain q qs where q: "split_on sep s = q # qs"
    by (cases "split_on sep s") simp_all
  have "s = q @ concat (map (\<lambda>q. sep # q) qs)" "sep \<notin> set q"
    using Cons.IH [OF q] by auto
  moreover have "p # ps = (if c = sep then [] # q # qs else (c # q) # qs)"
    using Cons.prems by (cases "c = sep") (auto simp: q)
  ultimately show ?case
    by (simp split: if_splits)
qed simp

lemma split_on_two: "split_on sep s = [k, v] \<longleftrightarrow> s = k @ sep # v \<and> sep \<notin> set k \<and> sep \<notin> set v"
proof
  assume *: "split_on sep s = [k, v]"
  then have s: "s = k @ sep # v" "sep \<notin> set k"
    using concat_split_on by fastforce+
  then have "split_on sep v = [v]"
    using * by simp
  then show "s = k @ sep # v \<and> sep \<notin> set k \<and> sep \<notin> set v"
    using s concat_split_on [of sep v v "[]"] by simp
qed auto

lemma trim_left_id: "\<not> is_space (fst (decode_rune s)) \<Longrightarrow> trim_left s = s"
  by (simp add: trim_left.simps)

lemma trim_left_Nil [simp]: "trim_left [] = []"
  by (simp add: trim_left.simps)

lemma trim_left_space: "trim_left (CHR '' '' # s) = trim_left s"
  by (subst trim_left.simps) (simp add: is_space_def)

lemma trim_left_ascii:
  "byte_of c < 128 \<Longrightarrow> \<not> is_space (byte_of c) \<Longrightarrow> trim_left (c # s) = c # s"
  by (simp add: trim_left_id)

lemma trim_right_ascii:
  "byte_of c < 128 \<Longrightarrow> \<not> is_space (byte_of c) \<Longrightarrow> trim_right (s @ [c]) = s @ [c]"
  by (simp add: trim_right.simps decode_last_rune_def)

lemma length_trim_left: "length (trim_left s) \<le> length s"
proof (induction s rule: trim_left.induct)
  case (1 s)
  then show ?case
    by (cases "s \<noteq> [] \<and> is_space (fst (decode_rune s))") (auto simp: trim_left.simps [of s])
qed

lemma length_trim_right: "length (trim_right s) \<le> length s"
proof (induction s rule: trim_right.induct)
  case (1 s)
  then show ?case
    by (cases "s \<noteq> [] \<and> is_space (fst (decode_last_rune s))") (auto simp: trim_right.simps [of s])
qed

text \<open>A trimmed string does not start with white space.\<close>

lemma trimmed_first:
  assumes "TrimSpace s = s" and "s \<noteq> []"
  shows "\<not> is_space (fst (decode_rune s))"
proof
  assume sp: "is_space (fst (decode_rune s))"
  let ?t = "drop (snd (decode_rune s)) s"
  have "length (TrimSpace s) \<le> length (trim_left ?t)"
    using sp assms(2) length_trim_right [of "trim_left s"]
    by (simp add: TrimSpace_def trim_left.simps [of s])
  also have "\<dots> \<le> length ?t" by (rule length_trim_left)
  also have "\<dots> < length s" using decode_rune_width [OF assms(2)] assms(2) by (auto intro!: diff_less)
  finally show False using assms(1) by simp
qed

text \<open>A trimmed string in front of an ASCII byte that is no white space.\<close>

lemma trim_left_trimmed_append:
  assumes "TrimSpace s = s" and "byte_of c < 128" and "\<not> is_space (byte_of c)"
  shows "trim_left (s @ c # t) = s @ c # t"
proof (cases "s = []")
  case True
  with assms(2,3) show ?thesis by (simp add: trim_left_id)
next
  case False
  with assms show ?thesis
    by (intro trim_left_id) (simp add: decode_rune_append_ascii trimmed_first)
qed

section \<open>Decimal numbers\<close>

definition digit_char :: "nat \<Rightarrow> char" where
  "digit_char d = char_of (48 + d)"

definition is_digit :: "char \<Rightarrow> bool" where
  "is_digit c \<longleftrightarrow> 48 \<le> byte_of c \<and> byte_of c \<le> 57"

definition digit_val :: "char \<Rightarrow> nat" where
  "digit_val c = byte_of c - 48"

text \<open>The verb \<open>%d\<close> on a number.\<close>

fun show_nat :: "nat \<Rightarrow> string" where
  "show_nat n = (if n < 10 then [digit_char n] else show_nat (n div 10) @ [digit_char (n mod 10)])"

declare show_nat.simps [simp del]

definition show_int :: "int \<Rightarrow> string" where
  "show_int i = (if i < 0 then CHR ''-'' # show_nat (nat (- i)) else show_nat (nat i))"

text \<open>The value of a list of digits, most significant first.\<close>

fun digits_val :: "nat \<Rightarrow> string \<Rightarrow> nat" where
  "digits_val acc [] = acc"
| "digits_val acc (c # s) = digits_val (10 * acc + digit_val c) s"

lemma digit_char_props [simp]:
  assumes "d < 10"
  shows "is_digit (digit_char d)" "digit_val (digit_char d) = d" "byte_of (digit_char d) = 48 + d"
  using assms by (simp_all add: is_digit_def digit_val_def digit_char_def of_char_of)

lemma digits_val_append: "digits_val acc (s @ t) = digits_val (digits_val acc s) t"
  by (induction s arbitrary: acc) auto

lemma show_nat_digits: "list_all is_digit (show_nat n) \<and> show_nat n \<noteq> []"
proof (induction n rule: show_nat.induct)
  case (1 n)
  then show ?case by (cases "n < 10") (simp_all add: show_nat.simps [of n])
qed

lemma digits_val_show_nat [simp]: "digits_val 0 (show_nat n) = n"
proof (induction n rule: show_nat.induct)
  case (1 n)
  then show ?case
    by (cases "n < 10") (simp_all add: show_nat.simps [of n] digits_val_append)
qed

text \<open>
  \<open>fmt.Sscanf(s, "%d", &value)\<close> into an \<open>int64\<close>: white space is skipped (a newline is an
  error), then an optional sign and at least one digit are read; the number must fit 64
  bits.  Whatever follows the digits is left unread and is not an error.
\<close>

datatype scan_error = ScanUnexpectedNewline | ScanEOF | ScanExpectedInteger | ScanOutOfRange

function skip_space :: "string \<Rightarrow> scan_error + string" where
  "skip_space s =
     (if s = [] then Inr s
      else if fst (decode_rune s) = 10 then Inl ScanUnexpectedNewline
      else if is_space (fst (decode_rune s)) then skip_space (drop (snd (decode_rune s)) s)
      else Inr s)"
  by pat_completeness auto
termination
  by (relation "measure length") (use decode_rune_width in \<open>auto simp del: decode_rune.simps\<close>)

declare skip_space.simps [simp del]

definition scan_int64 :: "string \<Rightarrow> scan_error + int64" where
  "scan_int64 s =
     (case skip_space s of
        Inl e \<Rightarrow> Inl e
      | Inr [] \<Rightarrow> Inl ScanEOF
      | Inr (c # t) \<Rightarrow>
          (let neg = (c = CHR ''-'');
               body = (if c = CHR ''-'' \<or> c = CHR ''+'' then t else c # t);
               ds = takeWhile is_digit body;
               i = (if neg then - int (digits_val 0 ds) else int (digits_val 0 ds))
           in if body = [] then Inl ScanEOF
              else if ds = [] then Inl ScanExpectedInteger
              else if i < - (2 ^ 63) \<or> 2 ^ 63 \<le> i then Inl ScanOutOfRange
              else Inr (word_of_int i)))"

lemma skip_space_ascii:
  "byte_of c < 128 \<Longrightarrow> \<not> is_space (byte_of c) \<Longrightarrow> skip_space (c # s) = Inr (c # s)"
  by (subst skip_space.simps) (auto simp: is_space_def)

lemma show_int_cases:
  obtains c t where "show_int i = c # t" "byte_of c < 128" "\<not> is_space (byte_of c)"
proof -
  show ?thesis
  proof (cases "i < 0")
    case True
    then show ?thesis by (intro that [of "CHR ''-''"]) (auto simp: show_int_def is_space_def)
  next
    case False
    then show ?thesis
      using show_nat_digits [of "nat i"]
      by (cases "show_nat (nat i)")
        (auto simp: show_int_def is_digit_def is_space_def intro!: that)
  qed
qed

text \<open>Scanning what was printed gives the number back, whatever follows it.\<close>

lemma scan_show_int64_append:
  assumes "t = [] \<or> \<not> is_digit (hd t)"
  shows "scan_int64 (show_int (sint v) @ t) = Inr v"
proof -
  let ?i = "sint v"
  obtain c u where cu: "show_int ?i = c # u" "byte_of c < 128" "\<not> is_space (byte_of c)"
    by (rule show_int_cases)
  have skip: "skip_space (show_int ?i @ t) = Inr (c # u @ t)"
    using cu by (simp add: skip_space_ascii)
  have ds: "takeWhile is_digit (show_nat n @ t) = show_nat n" "show_nat n \<noteq> []" for n
    using show_nat_digits [of n] assms
    by (auto simp: list_all_iff takeWhile_append2 takeWhile_eq_Nil_iff)
  have range: "- (2 ^ 63) \<le> ?i" "?i < 2 ^ 63" by (rule sint64_range)+
  show ?thesis
  proof (cases "?i < 0")
    case True
    then have "c = CHR ''-''" "u = show_nat (nat (- ?i))"
      using cu(1) by (simp_all add: show_int_def)
    then show ?thesis
      using True range by (simp add: scan_int64_def skip Let_def ds)
  next
    case False
    then have u: "show_nat (nat ?i) = c # u"
      using cu(1) by (simp add: show_int_def)
    then have "is_digit c" using show_nat_digits [of "nat ?i"] by simp
    then have "c \<noteq> CHR ''-''" "c \<noteq> CHR ''+''" by (auto simp: is_digit_def)
    moreover have "takeWhile is_digit (c # u @ t) = show_nat (nat ?i)"
      using ds(1) [of "nat ?i"] by (simp add: u)
    ultimately show ?thesis
      using False range ds(2) [of "nat ?i"] by (simp add: scan_int64_def skip Let_def)
  qed
qed

lemma scan_show_int64: "scan_int64 (show_int (sint v)) = Inr v"
  using scan_show_int64_append [of "[]"] by simp

end
