(* ===== verification/Vector_Text.thy ===== *)
theory Vector_Text
  imports Vector_Clock Version_Vector Go_Strings
begin

text \<open>
  The textual forms: \<open>String\<close> of a comparison, a clock and a version vector, and
  \<open>ParseClock\<close>.  The main result is the round trip from a clock to its text and back.
\<close>

section \<open>Printing\<close>

definition Comparison_String :: "int \<Rightarrow> string" where
  "Comparison_String c =
     (if c = Comparison_code ConcurrentCmp then ''Concurrent''
      else if c = Comparison_code BeforeCmp then ''Before''
      else if c = Comparison_code AfterCmp then ''After''
      else if c = Comparison_code EqualCmp then ''Equal''
      else ''Comparison('' @ show_int c @ '')'')"

text \<open>The loop that writes the pairs, with the index of the pair it is about to write.\<close>

fun print_range :: "(string \<Rightarrow> int) \<Rightarrow> string list \<Rightarrow> nat \<Rightarrow> string" where
  "print_range f [] i = []"
| "print_range f (n # ns) i =
     (if 0 < i then '', '' else []) @ n @ '':'' @ show_int (f n) @ print_range f ns (Suc i)"

definition Clock_String :: "Clock option \<Rightarrow> string" where
  "Clock_String c = (case clock_map c of
       None \<Rightarrow> ''{}''
     | Some m \<Rightarrow>
         (if length m = 0 then ''{}''
          else ''{'' @ print_range (\<lambda>n. sint (mget m n)) (Clock_Nodes c) 0 @ ''}''))"

definition VersionVector_String :: "VersionVector option \<Rightarrow> string" where
  "VersionVector_String vv = (case vv_map vv of
       None \<Rightarrow> ''{}''
     | Some m \<Rightarrow>
         (if length m = 0 then ''{}''
          else ''{'' @ print_range (\<lambda>r. uint (mget m r)) (VersionVector_Replicas vv) 0 @ ''}''))"

section \<open>Parsing\<close>

datatype parse_error =
    NotWrappedInBraces string
  | InvalidPair string
  | InvalidValue NodeID scan_error

fun parse_pairs :: "string list \<Rightarrow> Clock \<Rightarrow> (parse_error + Clock) go" where
  "parse_pairs [] c = Return (Inr c)"
| "parse_pairs (p # ps) c =
     (let pair = TrimSpace p;
          parts = split_on (CHR '':'') pair
      in if length parts \<noteq> 2 then Return (Inl (InvalidPair pair))
         else go_bind (go_index parts 0) (\<lambda>part0. let node = TrimSpace part0 in
              go_bind (go_index parts 1) (\<lambda>part1.
                case scan_int64 (TrimSpace part1) of
                  Inl e \<Rightarrow> Return (Inl (InvalidValue node e))
                | Inr x \<Rightarrow> go_bind (Clock_Set (Some c) node x) (parse_pairs ps))))"

definition ParseClock :: "string \<Rightarrow> (parse_error + Clock) go" where
  "ParseClock str =
     (let s = TrimSpace str in
      if s = ''{}'' then Return (Inr (NewClock []))
      else if take 1 s \<noteq> ''{'' \<or> drop (length s - 1) s \<noteq> ''}''
      then Return (Inl (NotWrappedInBraces s))
      else go_bind (go_slice s 1 (length s - 1)) (\<lambda>body.
        if body = [] then Return (Inr (NewClock []))
        else parse_pairs (split_on (CHR '','') body) (NewClock [])))"

section \<open>The round trip\<close>

text \<open>One printed pair, and the node names that survive: those without a comma or a colon and
  without white space at either end.\<close>

definition pair_text :: "(string \<Rightarrow> int) \<Rightarrow> string \<Rightarrow> string" where
  "pair_text f n = n @ CHR '':'' # show_int (f n)"

definition text_safe :: "NodeID \<Rightarrow> bool" where
  "text_safe n \<longleftrightarrow> TrimSpace n = n \<and> CHR '','' \<notin> set n \<and> CHR '':'' \<notin> set n"

text \<open>What \<open>ParseClock\<close> reads, stated on the text: a piece stands for the entry it spells, and
  a text for the entries of its pieces.\<close>

definition pair_entry :: "string \<Rightarrow> NodeID \<times> int64 \<Rightarrow> bool" where
  "pair_entry p e \<longleftrightarrow>
     (\<exists>k v. TrimSpace p = k @ CHR '':'' # v \<and> CHR '':'' \<notin> set k \<and> CHR '':'' \<notin> set v \<and>
        fst e = TrimSpace k \<and> scan_int64 (TrimSpace v) = Inr (snd e))"

definition clock_text :: "string \<Rightarrow> (NodeID \<times> int64) list \<Rightarrow> bool" where
  "clock_text s es \<longleftrightarrow>
     (\<exists>b. TrimSpace s = ''{'' @ b @ ''}'' \<and>
        (if b = [] then es = [] else list_all2 pair_entry (split_on (CHR '','') b) es))"

lemma show_int_chars: "x \<in> set (show_int i) \<Longrightarrow> x = CHR ''-'' \<or> is_digit x"
  using show_nat_digits by (auto simp: show_int_def list_all_iff split: if_splits)

lemma show_int_plain [simp]:
  "CHR '','' \<notin> set (show_int i)" "CHR '':'' \<notin> set (show_int i)" "show_int i \<noteq> []"
proof -
  show "CHR '','' \<notin> set (show_int i)" "CHR '':'' \<notin> set (show_int i)"
    using show_int_chars [of "CHR '',''" i] show_int_chars [of "CHR '':''" i]
    by (auto simp: is_digit_def)
  show "show_int i \<noteq> []"
    by (rule show_int_cases [of i]) simp
qed

lemma show_int_last:
  "byte_of (last (show_int i)) < 128 \<and> \<not> is_space (byte_of (last (show_int i)))"
proof -
  have "last (show_int i) \<in> set (show_int i)" by simp
  then have "last (show_int i) = CHR ''-'' \<or> is_digit (last (show_int i))"
    by (rule show_int_chars)
  then show ?thesis by (auto simp: is_digit_def is_space_def)
qed

lemma trim_right_show_int: "trim_right (s @ show_int i) = s @ show_int i"
proof -
  have "s @ show_int i = (s @ butlast (show_int i)) @ [last (show_int i)]" by simp
  then show ?thesis using show_int_last [of i] trim_right_ascii by metis
qed

lemma TrimSpace_show_int: "TrimSpace (show_int i) = show_int i"
proof -
  have "trim_left (show_int i) = show_int i"
    by (rule show_int_cases [of i]) (metis trim_left_ascii)
  then show ?thesis
    using trim_right_show_int [of "[]"] by (simp add: TrimSpace_def)
qed

lemma TrimSpace_pair:
  assumes "text_safe n"
  shows "TrimSpace (pair_text f n) = pair_text f n"
    and "TrimSpace (CHR '' '' # pair_text f n) = pair_text f n"
proof -
  have "trim_left (pair_text f n) = pair_text f n"
    using assms trim_left_trimmed_append [of n "CHR '':''"]
    by (simp add: text_safe_def pair_text_def is_space_def)
  moreover have "trim_right (pair_text f n) = pair_text f n"
    using trim_right_show_int [of "n @ [CHR '':'']" "f n"] by (simp add: pair_text_def)
  ultimately show "TrimSpace (pair_text f n) = pair_text f n"
    and "TrimSpace (CHR '' '' # pair_text f n) = pair_text f n"
    by (simp_all add: TrimSpace_def trim_left_space)
qed

lemma Clock_Set_entries:
  "Clock_Set (Some c) n x = Return \<lparr>clock = Some (mput n x (entries (clock c)))\<rparr>"
  by (cases c) (simp add: Clock_Set_def)

lemma pair_entry_split:
  "pair_entry p e \<longleftrightarrow>
     (\<exists>k v. split_on (CHR '':'') (TrimSpace p) = [k, v] \<and> fst e = TrimSpace k \<and>
        scan_int64 (TrimSpace v) = Inr (snd e))"
  by (auto simp: pair_entry_def split_on_two)

lemma parse_pairs_good:
  "pair_entry p e \<Longrightarrow>
   parse_pairs (p # ps) c = parse_pairs ps \<lparr>clock = Some (mput (fst e) (snd e) (entries (clock c)))\<rparr>"
  by (auto simp: pair_entry_split Clock_Set_entries Let_def)

lemma parse_pairs_bad:
  assumes "\<nexists>e. pair_entry p e"
  shows "\<exists>e. parse_pairs (p # ps) c = Return (Inl e)"
proof (cases "\<exists>k v. split_on (CHR '':'') (TrimSpace p) = [k, v]")
  case True
  with assms show ?thesis
    by (auto simp: pair_entry_split Let_def split: sum.split)
next
  case False
  then have "length (split_on (CHR '':'') (TrimSpace p)) \<noteq> 2"
    by (auto simp: length_Suc_conv numeral_2_eq_2)
  then show ?thesis
    by (simp add: Let_def)
qed

text \<open>The loop over the pieces: no panic, the entries of all pieces put in order, or an error
  when some piece is no pair.\<close>

lemma parse_pairs_entries:
  assumes "clock_rep (Some c)"
  shows "case parse_pairs ps c of
      Panic p \<Rightarrow> False
    | Return (Inl e) \<Rightarrow> \<nexists>es. list_all2 pair_entry ps es
    | Return (Inr d) \<Rightarrow> clock_rep (Some d) \<and>
        (\<exists>es. list_all2 pair_entry ps es \<and>
              map_of (entries (clock d)) = map_of (entries (clock c)) ++ map_of (rev es))"
  using assms
proof (induction ps arbitrary: c)
  case (Cons p ps)
  show ?case
  proof (cases "\<exists>e. pair_entry p e")
    case True
    then obtain e where e: "pair_entry p e" by blast
    let ?c = "\<lparr>clock = Some (mput (fst e) (snd e) (entries (clock c)))\<rparr>"
    have put: "map_of (entries (clock ?c)) ++ map_of (rev es) =
        map_of (entries (clock c)) ++ map_of (rev (e # es))" for es
      by (cases e) (simp add: map_add_assoc [symmetric])
    have "clock_rep (Some ?c)"
      using Cons.prems by (simp add: clock_rep_Some)
    note IH = Cons.IH [OF this, unfolded put] and step = parse_pairs_good [OF e, of ps c]
    show ?thesis
    proof (cases "\<exists>d. parse_pairs ps ?c = Return (Inr d)")
      case True
      then obtain d es where d: "parse_pairs ps ?c = Return (Inr d)" "clock_rep (Some d)"
        "list_all2 pair_entry ps es"
        "map_of (entries (clock d)) = map_of (entries (clock c)) ++ map_of (rev (e # es))"
        using IH by force
      moreover from d(3) e have "list_all2 pair_entry (p # ps) (e # es)" by simp
      ultimately show ?thesis
        unfolding step d(1) by (simp only: go.case sum.case) blast
    next
      case False
      with IH show ?thesis
        unfolding step by (auto simp: list_all2_Cons1 split: go.splits sum.splits)
    qed
  next
    case False
    then show ?thesis
      using parse_pairs_bad [OF False, of ps c] by (auto simp: list_all2_Cons1)
  qed
qed simp

lemma parse_pairs_step:
  assumes "text_safe n" and "TrimSpace p = pair_text (\<lambda>n. sint (g n)) n"
  shows "parse_pairs (p # ps) c = go_bind (Clock_Set (Some c) n (g n)) (parse_pairs ps)"
proof -
  have "pair_entry p (n, g n)"
    using assms unfolding pair_entry_def
    by (intro exI [of _ n] exI [of _ "show_int (sint (g n))"])
      (simp add: text_safe_def pair_text_def TrimSpace_show_int scan_show_int64)
  then show ?thesis
    by (simp add: parse_pairs_good Clock_Set_entries del: parse_pairs.simps)
qed

lemma parse_pairs_printed:
  assumes "list_all text_safe ns"
    and "list_all2 (\<lambda>p n. TrimSpace p = pair_text (\<lambda>n. sint (g n)) n) ps ns"
  shows "\<exists>d. parse_pairs ps c = Return (Inr d) \<and>
     map_of (entries (clock d)) = (\<lambda>n. if n \<in> set ns then Some (g n) else map_of (entries (clock c)) n)"
  using assms
proof (induction ns arbitrary: ps c)
  case (Cons n ns)
  then obtain p ps' where ps: "ps = p # ps'" "TrimSpace p = pair_text (\<lambda>n. sint (g n)) n"
    "list_all2 (\<lambda>p n. TrimSpace p = pair_text (\<lambda>n. sint (g n)) n) ps' ns"
    by (auto simp: list_all2_Cons2)
  let ?c = "\<lparr>clock = Some (mput n (g n) (entries (clock c)))\<rparr>"
  have "Clock_Set (Some c) n (g n) = Return ?c"
    by (cases c) (simp add: Clock_Set_def)
  then have "parse_pairs ps c = parse_pairs ps' ?c"
    using Cons.prems(1) ps(1,2) parse_pairs_step [of n p g ps' c] by simp
  with Cons.IH [of ps' ?c] Cons.prems(1) ps(3) show ?case
    by (auto simp: fun_eq_iff)
qed simp

lemma print_range_rest:
  "print_range f ns (Suc i) = concat (map (\<lambda>n. '', '' @ pair_text f n) ns)"
  by (induction ns arbitrary: i) (auto simp: pair_text_def)

lemma split_printed:
  assumes "CHR '','' \<notin> set p" and "\<forall>n \<in> set ns. CHR '','' \<notin> set n"
  shows "split_on (CHR '','') (p @ concat (map (\<lambda>n. '', '' @ pair_text f n) ns)) =
         p # map (\<lambda>n. CHR '' '' # pair_text f n) ns"
  using assms
proof (induction ns arbitrary: p)
  case (Cons n ns)
  then show ?case
    using Cons.IH [of "CHR '' '' # pair_text f n"]
    by (simp add: pair_text_def)
qed simp

lemma split_print_range:
  assumes "list_all text_safe (n # ns)"
  shows "split_on (CHR '','') (print_range f (n # ns) 0) =
         pair_text f n # map (\<lambda>n. CHR '' '' # pair_text f n) ns"
proof -
  have "print_range f (n # ns) 0 = pair_text f n @ concat (map (\<lambda>n. '', '' @ pair_text f n) ns)"
    by (simp add: pair_text_def print_range_rest)
  moreover have "CHR '','' \<notin> set (pair_text f n)" "\<forall>n \<in> set ns. CHR '','' \<notin> set n"
    using assms by (auto simp: list_all_iff text_safe_def pair_text_def)
  ultimately show ?thesis
    using split_printed [of "pair_text f n" ns f] by simp
qed

lemma TrimSpace_braced: "TrimSpace (''{'' @ s @ ''}'') = ''{'' @ s @ ''}''"
  using trim_left_ascii [of "CHR ''{''" "s @ ''}''"] trim_right_ascii [of "CHR ''}''" "''{'' @ s"]
  by (simp add: TrimSpace_def is_space_def)

lemma braced_iff:
  "take 1 s = ''{'' \<and> drop (length s - 1) s = ''}'' \<longleftrightarrow> (\<exists>b. s = ''{'' @ b @ ''}'')"
proof
  assume *: "take 1 s = ''{'' \<and> drop (length s - 1) s = ''}''"
  then obtain t where t: "s = CHR ''{'' # t" by (cases s) auto
  with * have "t \<noteq> []" by auto
  then obtain b y where "t = b @ [y]" by (metis rev_exhaust)
  with t * show "\<exists>b. s = ''{'' @ b @ ''}''" by auto
qed auto

lemma ParseClock_braced:
  assumes "s \<noteq> []"
  shows "ParseClock (''{'' @ s @ ''}'') = parse_pairs (split_on (CHR '','') s) (NewClock [])"
  using assms by (simp add: ParseClock_def TrimSpace_braced [simplified] Let_def)

lemma ParseClock_empty: "ParseClock ''{}'' = Return (Inr (NewClock []))"
  using TrimSpace_braced [of "[]"] by (simp add: ParseClock_def)

lemma ParseClock_String:
  assumes "clock_rep c" and "list_all text_safe (Clock_Nodes c)"
  shows "\<exists>d. ParseClock (Clock_String c) = Return (Inr d) \<and>
             map_of (entries (clock d)) = map_of (entries (clock_map c))"
proof (cases "entries (clock_map c) = []")
  case True
  then have "Clock_String c = ''{}''"
    by (cases "clock_map c") (simp_all add: Clock_String_def)
  with True show ?thesis by (simp add: ParseClock_empty NewClock_def)
next
  case False
  then obtain m where m: "clock_map c = Some m" "m \<noteq> []" by (cases "clock_map c") auto
  let ?g = "mget m"
  have set: "set (Clock_Nodes c) = dom (map_of m)" by (simp add: Clock_Nodes_def m)
  moreover have "dom (map_of m) \<noteq> {}" using m(2) by (cases m) auto
  ultimately obtain n ns where ns: "Clock_Nodes c = n # ns"
    by (cases "Clock_Nodes c") auto
  let ?ps = "pair_text (\<lambda>n. sint (?g n)) n # map (\<lambda>n. CHR '' '' # pair_text (\<lambda>n. sint (?g n)) n) ns"
  have str: "Clock_String c = ''{'' @ print_range (\<lambda>n. sint (?g n)) (n # ns) 0 @ ''}''"
    using m by (simp add: Clock_String_def ns)
  have "ParseClock (Clock_String c) = parse_pairs ?ps (NewClock [])"
    using assms(2) unfolding str ns by (subst ParseClock_braced) (simp_all only: split_print_range, simp)
  moreover have "list_all2 (\<lambda>p n. TrimSpace p = pair_text (\<lambda>n. sint (?g n)) n) ?ps (n # ns)"
    using assms(2) by (simp add: ns TrimSpace_pair list_all2_map1 list_all2_same list_all_iff)
  ultimately obtain d where d: "ParseClock (Clock_String c) = Return (Inr d)"
    "map_of (entries (clock d)) =
       (\<lambda>k. if k \<in> set (n # ns) then Some (?g k) else map_of (entries (clock (NewClock []))) k)"
    using parse_pairs_printed [OF assms(2) [unfolded ns], of ?g ?ps "NewClock []"] by metis
  have "map_of (entries (clock d)) = map_of m"
    unfolding d(2) ns [symmetric] set by (auto simp: fun_eq_iff mget_def NewClock_def domIff)
  with d(1) show ?thesis by (simp add: m)
qed

section \<open>Properties\<close>

text \<open>C12. Printing a clock and parsing the text gives a clock with the same entries, for any
  \<open>int64\<close> counters, negative ones included, as long as the node names have no comma, no
  colon and no white space at either end.\<close>

theorem ParseClock_String_roundtrip:
  assumes "clock_rep c" and "list_all text_safe (Clock_Nodes c)"
  shows "\<exists>d. ParseClock (Clock_String c) = Return (Inr d) \<and>
             map_of (entries (clock d)) = map_of (entries (clock_map c)) \<and>
             (\<forall>n. Clock_Get (Some d) n = Clock_Get c n)"
proof -
  from ParseClock_String [OF assms] obtain d where d: "ParseClock (Clock_String c) = Return (Inr d)"
    "map_of (entries (clock d)) = map_of (entries (clock_map c))"
    by blast
  then show ?thesis
    using mget_cong [OF d(2)] by (simp add: Clock_Get_mget)
qed

theorem ParseClock_String_roundtrip_witness:
  "Clock_String (Some \<lparr>clock = Some [(''b'', 2), (''a'', -1)]\<rparr>) = ''{a:-1, b:2}'' \<and>
   (\<exists>d. ParseClock (Clock_String (Some \<lparr>clock = Some [(''b'', 2), (''a'', -1)]\<rparr>)) = Return (Inr d) \<and>
        Clock_Get (Some d) ''a'' = -1)"
proof -
  let ?c = "Some \<lparr>clock = Some [(''b'', 2), (''a'', -1)]\<rparr>"
  have nodes: "Clock_Nodes ?c = [''a'', ''b'']"
    by (simp add: Clock_Nodes_def mkeys_def)
  have "TrimSpace ''a'' = ''a''" "TrimSpace ''b'' = ''b''"
    using trim_right_ascii [of _ "[]"]
    by (simp_all add: TrimSpace_def trim_left.simps is_space_def)
  then have "clock_rep ?c" "list_all text_safe (Clock_Nodes ?c)"
    by (simp_all add: nodes text_safe_def clock_rep_def mwf_def)
  from ParseClock_String_roundtrip [OF this] obtain d where
    "ParseClock (Clock_String ?c) = Return (Inr d)" "Clock_Get (Some d) ''a'' = Clock_Get ?c ''a''"
    by blast
  moreover have "Clock_String ?c = ''{a:-1, b:2}''" "Clock_Get ?c ''a'' = -1"
    by code_simp+
  ultimately show ?thesis by auto
qed

text \<open>C40. \<open>ParseClock\<close> returns on every input: no slice or index it takes is out of range.
  It returns a clock exactly when the trimmed input is a text in braces whose comma-separated
  pieces all are node:value pairs (\<open>clock_text\<close>), and then the clock holds the entries of
  these pairs, the last one of a repeated node; on every other input it returns an error.\<close>

theorem ParseClock_total:
  "case ParseClock s of
     Panic p \<Rightarrow> False
   | Return (Inl e) \<Rightarrow> \<nexists>es. clock_text s es
   | Return (Inr c) \<Rightarrow> clock_rep (Some c) \<and>
       (\<exists>es. clock_text s es \<and> map_of (entries (clock c)) = map_of (rev es))"
proof (cases "\<exists>b. TrimSpace s = ''{'' @ b @ ''}''")
  case True
  then obtain b where b: "TrimSpace s = ''{'' @ b @ ''}''" by blast
  have new: "clock_rep (Some (NewClock []))" "map_of (entries (clock (NewClock []))) = Map.empty"
    by (simp_all add: clock_ok_rep) (simp add: NewClock_def)
  show ?thesis
  proof (cases "b = []")
    case False
    then have "ParseClock s = parse_pairs (split_on (CHR '','') b) (NewClock [])"
      using b by (simp add: ParseClock_def Let_def)
    moreover have "clock_text s es \<longleftrightarrow> list_all2 pair_entry (split_on (CHR '','') b) es" for es
      using b False by (simp add: clock_text_def)
    ultimately show ?thesis
      using parse_pairs_entries [OF new(1), of "split_on (CHR '','') b"]
      by (simp add: new(2) split: go.splits sum.splits)
  qed (use b new in \<open>auto simp: ParseClock_def clock_text_def\<close>)
next
  case False
  then have "take 1 (TrimSpace s) \<noteq> ''{'' \<or> drop (length (TrimSpace s) - 1) (TrimSpace s) \<noteq> ''}''"
    "TrimSpace s \<noteq> ''{}''"
    using braced_iff [of "TrimSpace s"] by auto
  then show ?thesis
    using False by (auto simp: ParseClock_def clock_text_def Let_def)
qed

text \<open>\<open>ParseClock\<close> accepts values that are not integers: whatever follows the first
  digits of a value is dropped without an error, although the documentation says that a value
  that is not a valid integer is an error.\<close>

lemma ParseClock_accepts_trailing_text:
  assumes "\<not> is_digit x" and "byte_of x < 128" and "\<not> is_space (byte_of x)"
    and "x \<noteq> CHR '',''" and "x \<noteq> CHR '':''"
  shows "\<exists>c. ParseClock (''{a:'' @ show_int (sint v) @ [x] @ ''}'') = Return (Inr c) \<and>
             Clock_Get (Some c) ''a'' = v"
proof -
  let ?v = "show_int (sint v) @ [x]"
  have v: "TrimSpace ?v = ?v"
    by (rule show_int_cases [of "sint v"])
      (simp add: TrimSpace_def trim_left_ascii trim_right_ascii [OF assms(2,3), of "_ # _", simplified])
  have p: "TrimSpace (''a:'' @ ?v) = ''a:'' @ ?v"
    using trim_right_ascii [OF assms(2,3), of "''a:'' @ show_int (sint v)"]
    by (simp add: TrimSpace_def trim_left_ascii is_space_def)
  have a: "TrimSpace ''a'' = ''a''"
    using trim_right_ascii [of "CHR ''a''" "[]"] by (simp add: TrimSpace_def trim_left_ascii is_space_def)
  have comma: "split_on (CHR '','') (''a:'' @ ?v) = [''a:'' @ ?v]"
    and colon: "split_on (CHR '':'') (''a:'' @ ?v) = [''a'', ?v]"
    using assms(4,5) split_on_append [of "CHR '':''" "''a''" ?v] by simp_all
  have "ParseClock (''{a:'' @ show_int (sint v) @ [x] @ ''}'') =
        parse_pairs [''a:'' @ ?v] (NewClock [])"
    using ParseClock_braced [of "''a:'' @ ?v"] comma by simp
  also have "\<dots> = go_bind (Clock_Set (Some (NewClock [])) ''a'' v) (parse_pairs [])"
    using p colon v a scan_show_int64_append [of "[x]" v] assms(1) by (simp add: Let_def)
  finally show ?thesis
    by (simp add: Clock_Set_def Clock_Get_Some)
qed

end
