(* ===== verification/Clock_Heap.thy ===== *)
theory Clock_Heap
  imports Vector_Clock
begin

text \<open>
  Clocks behind pointers.  The theory Vector\_Clock gives every method as a function on values,
  so it cannot tell a copy from a second pointer to the same clock.  Here the methods of
  clock/clock.go that allocate or mutate run on a store with two kinds of objects: \<open>Clock\<close>
  structs, whose only field is a reference to a map, and the maps.  Two pointers may be equal, a
  clock may be merged into itself, and nothing in the types keeps two structs from sharing a
  map; that the package never makes them share is the invariant \<open>store_ok\<close>.

  The refinement lemmas say that each method does to the clock of its receiver what the value
  model says and leaves every other clock alone; the property at the end is what \<open>Copy\<close>
  promises: a snapshot that no later call on another clock can change.
\<close>

section \<open>The store\<close>

type_synonym map_ref = nat
type_synonym clock_ptr = "nat option"

record clock_store =
  structs :: "map_ref option list"
  maps :: "(NodeID, int64) gomap list"

definition make_map :: "clock_store \<Rightarrow> map_ref \<times> clock_store" where
  "make_map st = (length (maps st), st\<lparr>maps := maps st @ [[]]\<rparr>)"

definition new_struct :: "map_ref option \<Rightarrow> clock_store \<Rightarrow> nat \<times> clock_store" where
  "new_struct r st = (length (structs st), st\<lparr>structs := structs st @ [r]\<rparr>)"

definition set_map :: "map_ref \<Rightarrow> (NodeID, int64) gomap \<Rightarrow> clock_store \<Rightarrow> clock_store" where
  "set_map r m st = st\<lparr>maps := (maps st)[r := m]\<rparr>"

definition map_put :: "map_ref \<Rightarrow> NodeID \<Rightarrow> int64 \<Rightarrow> clock_store \<Rightarrow> clock_store" where
  "map_put r k v st = set_map r (mput k v (maps st ! r)) st"

text \<open>The value a pointer leads to, and the pointers that lead to a struct.\<close>

definition load :: "clock_store \<Rightarrow> clock_ptr \<Rightarrow> Clock option" where
  "load st p = map_option (\<lambda>a. \<lparr>clock = map_option (\<lambda>r. maps st ! r) (structs st ! a)\<rparr>) p"

definition valid_ptr :: "clock_store \<Rightarrow> clock_ptr \<Rightarrow> bool" where
  "valid_ptr st p \<longleftrightarrow> (case p of None \<Rightarrow> True | Some a \<Rightarrow> a < length (structs st))"

section \<open>The methods\<close>

fun put_zeros :: "NodeID list \<Rightarrow> map_ref \<Rightarrow> clock_store \<Rightarrow> clock_store" where
  "put_zeros [] r st = st"
| "put_zeros (node # nodes) r st = put_zeros nodes r (map_put r node 0 st)"

definition ref_NewClock :: "NodeID list \<Rightarrow> clock_store \<Rightarrow> nat \<times> clock_store" where
  "ref_NewClock nodes st =
     (let (r, st) = make_map st;
          (c, st) = new_struct (Some r) st
      in (c, put_zeros nodes r st))"

fun put_entries :: "(NodeID, int64) gomap \<Rightarrow> map_ref \<Rightarrow> clock_store \<Rightarrow> clock_store" where
  "put_entries [] r st = st"
| "put_entries ((k, v) # src) r st = put_entries src r (map_put r k v st)"

definition ref_Copy :: "clock_ptr \<Rightarrow> clock_store \<Rightarrow> nat \<times> clock_store" where
  "ref_Copy p st = (case p of
       None \<Rightarrow> ref_NewClock [] st
     | Some a \<Rightarrow>
         (let (r, st) = make_map st;
              (c, st) = new_struct (Some r) st
          in (c, case structs st ! a of
                   None \<Rightarrow> st
                 | Some s \<Rightarrow> put_entries (maps st ! s) r st)))"

text \<open>The check at the start of the mutating methods: a nil map is replaced by a new one.\<close>

definition ensure_map :: "nat \<Rightarrow> clock_store \<Rightarrow> map_ref \<times> clock_store" where
  "ensure_map a st = (case structs st ! a of
       Some r \<Rightarrow> (r, st)
     | None \<Rightarrow>
         (let (r, st) = make_map st
          in (r, st\<lparr>structs := (structs st)[a := Some r]\<rparr>)))"

definition ref_Increment :: "clock_ptr \<Rightarrow> NodeID \<Rightarrow> clock_store \<Rightarrow> (int64 \<times> clock_store) go" where
  "ref_Increment p node st = (case p of
       None \<Rightarrow> Panic NilDereference
     | Some a \<Rightarrow>
         (let (r, st) = ensure_map a st;
              st = map_put r node (mget (maps st ! r) node + 1) st
          in Return (mget (maps st ! r) node, st)))"

definition ref_Set :: "clock_ptr \<Rightarrow> NodeID \<Rightarrow> int64 \<Rightarrow> clock_store \<Rightarrow> clock_store go" where
  "ref_Set p node val st = (case p of
       None \<Rightarrow> Panic NilDereference
     | Some a \<Rightarrow>
         (let (r, st) = ensure_map a st
          in Return (map_put r node val st)))"

text \<open>
  The loop of \<open>Merge\<close>: the value of a node is read from the other map when the node is
  visited, which matters when the two maps are the same one.
\<close>

fun merge_nodes :: "NodeID list \<Rightarrow> map_ref \<Rightarrow> map_ref \<Rightarrow> clock_store \<Rightarrow> clock_store" where
  "merge_nodes [] s r st = st"
| "merge_nodes (node # nodes) s r st =
     (let otherVal = mget (maps st ! s) node;
          currentVal = mget (maps st ! r) node
      in merge_nodes nodes s r
           (if int64_gt otherVal currentVal then map_put r node otherVal st
            else if currentVal = 0 \<and> otherVal = 0 then map_put r node 0 st
            else st))"

definition ref_Merge :: "clock_ptr \<Rightarrow> clock_ptr \<Rightarrow> clock_store \<Rightarrow> clock_store go" where
  "ref_Merge p other st = (case other of
       None \<Rightarrow> Return st
     | Some b \<Rightarrow> (case structs st ! b of
           None \<Rightarrow> Return st
         | Some s \<Rightarrow> (case p of
               None \<Rightarrow> Panic NilDereference
             | Some a \<Rightarrow>
                 (let (r, st) = ensure_map a st
                  in Return (merge_nodes (mkeys (maps st ! s)) s r st)))))"

section \<open>Programs that use clocks\<close>

datatype clock_op =
    NewOp "NodeID list"
  | CopyOp clock_ptr
  | IncrementOp clock_ptr NodeID
  | SetOp clock_ptr NodeID int64
  | MergeOp clock_ptr clock_ptr

fun op_receiver :: "clock_op \<Rightarrow> clock_ptr" where
  "op_receiver (NewOp nodes) = None"
| "op_receiver (CopyOp p) = None"
| "op_receiver (IncrementOp p node) = p"
| "op_receiver (SetOp p node val) = p"
| "op_receiver (MergeOp p other) = p"

fun op_valid :: "clock_store \<Rightarrow> clock_op \<Rightarrow> bool" where
  "op_valid st (NewOp nodes) \<longleftrightarrow> True"
| "op_valid st (CopyOp p) \<longleftrightarrow> valid_ptr st p"
| "op_valid st (IncrementOp p node) \<longleftrightarrow> valid_ptr st p"
| "op_valid st (SetOp p node val) \<longleftrightarrow> valid_ptr st p"
| "op_valid st (MergeOp p other) \<longleftrightarrow> valid_ptr st p \<and> valid_ptr st other"

fun exec_op :: "clock_op \<Rightarrow> clock_store \<Rightarrow> clock_store go" where
  "exec_op (NewOp nodes) st = Return (snd (ref_NewClock nodes st))"
| "exec_op (CopyOp p) st = Return (snd (ref_Copy p st))"
| "exec_op (IncrementOp p node) st = go_map snd (ref_Increment p node st)"
| "exec_op (SetOp p node val) st = ref_Set p node val st"
| "exec_op (MergeOp p other) st = ref_Merge p other st"

text \<open>Any sequence of calls on pointers the program has, up to a panic.\<close>

inductive clock_run :: "clock_store \<Rightarrow> clock_op list \<Rightarrow> clock_store \<Rightarrow> bool" where
  clock_run_Nil: "clock_run st [] st"
| clock_run_Cons: "op_valid st op \<Longrightarrow> exec_op op st = Return st' \<Longrightarrow> clock_run st' ops st'' \<Longrightarrow>
    clock_run st (op # ops) st''"

section \<open>No two clocks share a map\<close>

definition store_ok :: "clock_store \<Rightarrow> bool" where
  "store_ok st \<longleftrightarrow>
     (\<forall>a < length (structs st). \<forall>r. structs st ! a = Some r \<longrightarrow>
        r < length (maps st) \<and>
        (\<forall>b < length (structs st). structs st ! b = Some r \<longrightarrow> b = a)) \<and>
     (\<forall>m \<in> set (maps st). mwf m)"

lemma load_None [simp]: "load st None = None"
  by (simp add: load_def)

lemma set_map_simps [simp]:
  "structs (set_map r m st) = structs st"
  "maps (set_map r m st) = (maps st)[r := m]"
  by (simp_all add: set_map_def)

lemma set_map_set_map [simp]: "set_map r m (set_map r m' st) = set_map r m st"
  by (simp add: set_map_def)

lemma set_map_id [simp]: "set_map r (maps st ! r) st = st"
  by (simp add: set_map_def)

lemma store_ok_mwf: "store_ok st \<Longrightarrow> r < length (maps st) \<Longrightarrow> mwf (maps st ! r)"
  by (simp add: store_ok_def)

lemma store_ok_ref:
  "store_ok st \<Longrightarrow> a < length (structs st) \<Longrightarrow> structs st ! a = Some r \<Longrightarrow> r < length (maps st)"
  by (simp add: store_ok_def)

lemma store_ok_inj:
  "store_ok st \<Longrightarrow> a < length (structs st) \<Longrightarrow> b < length (structs st) \<Longrightarrow>
   structs st ! a = Some r \<Longrightarrow> structs st ! b = Some r \<Longrightarrow> b = a"
  unfolding store_ok_def by (elim conjE allE impE) assumption+

lemma store_okI:
  assumes "\<And>a r. a < length (structs st) \<Longrightarrow> structs st ! a = Some r \<Longrightarrow> r < length (maps st)"
    and "\<And>a b r. a < length (structs st) \<Longrightarrow> b < length (structs st) \<Longrightarrow>
           structs st ! a = Some r \<Longrightarrow> structs st ! b = Some r \<Longrightarrow> b = a"
    and "\<And>m. m \<in> set (maps st) \<Longrightarrow> mwf m"
  shows "store_ok st"
  unfolding store_ok_def
proof (intro conjI allI impI ballI)
  show "r < length (maps st)" if "a < length (structs st)" "structs st ! a = Some r" for a r
    using that by (rule assms(1))
  show "b = a" if "a < length (structs st)" "structs st ! a = Some r"
    "b < length (structs st)" "structs st ! b = Some r" for a b r
    using that(1,3,2,4) by (rule assms(2))
  show "mwf m" if "m \<in> set (maps st)" for m
    using that by (rule assms(3))
qed

text \<open>The loops write one map.\<close>

lemma put_zeros_set:
  "r < length (maps st) \<Longrightarrow> put_zeros nodes r st = set_map r (init_range nodes (maps st ! r)) st"
  by (induction nodes r st rule: put_zeros.induct) (simp_all add: map_put_def)

lemma put_entries_set:
  "r < length (maps st) \<Longrightarrow> put_entries src r st = set_map r (copy_range src (maps st ! r)) st"
  by (induction src r st rule: put_entries.induct) (simp_all add: map_put_def)

lemma merge_nodes_other:
  assumes "s \<noteq> r" and "r < length (maps st)" and "\<forall>(k, v) \<in> set es. mget (maps st ! s) k = v"
  shows "merge_nodes (mkeys es) s r st = set_map r (merge_range int64_gt es (maps st ! r)) st"
  using assms
proof (induction es arbitrary: st)
  case (Cons e es)
  obtain k v where e: "e = (k, v)" by fastforce
  let ?m = "if int64_gt v (mget (maps st ! r) k) then mput k v (maps st ! r)
            else if mget (maps st ! r) k = 0 \<and> v = 0 then mput k 0 (maps st ! r) else maps st ! r"
  let ?st = "set_map r ?m st"
  have "merge_nodes (mkeys (e # es)) s r st = merge_nodes (mkeys es) s r ?st"
    using Cons.prems by (simp add: e mkeys_def map_put_def)
  also have "\<dots> = set_map r (merge_range int64_gt es (maps ?st ! r)) ?st"
    using Cons.prems by (intro Cons.IH) simp_all
  finally show ?case
    using Cons.prems(2) by (simp add: e)
qed simp

text \<open>Merging a map into itself changes nothing.\<close>

lemma mput_same: "map_of m k = Some v \<Longrightarrow> mput k v m = m"
  by (induction m) (auto split: if_splits)

lemma merge_range_same:
  "\<forall>(k, v) \<in> set es. map_of m k = Some v \<Longrightarrow> merge_range int64_gt es m = m"
proof (induction es)
  case (Cons e es)
  obtain k v where e: "e = (k, v)" by fastforce
  with Cons.prems have "map_of m k = Some v" by simp
  then show ?case
    using Cons by (auto simp: e mget_def int64_gt_def mput_same)
qed simp

lemma merge_nodes_same:
  "\<forall>k \<in> set ks. k \<in> dom (map_of (maps st ! r)) \<Longrightarrow> merge_nodes ks r r st = st"
proof (induction ks)
  case (Cons k ks)
  then obtain v where "map_of (maps st ! r) k = Some v" by auto
  then have "mget (maps st ! r) k = 0 \<Longrightarrow> map_put r k 0 st = st"
    by (simp add: map_put_def mget_def mput_same)
  then show ?case
    using Cons by (simp add: int64_gt_def)
qed simp

lemma merge_nodes_set:
  assumes "r < length (maps st)" and "mwf (maps st ! s)"
  shows "merge_nodes (mkeys (maps st ! s)) s r st =
         set_map r (merge_range int64_gt (maps st ! s) (maps st ! r)) st"
proof (cases "s = r")
  case True
  then have "merge_range int64_gt (maps st ! s) (maps st ! r) = maps st ! r"
    using assms(2) by (intro merge_range_same) (auto simp: mwf_def)
  then show ?thesis
    using True by (simp add: merge_nodes_same)
next
  case False
  then show ?thesis
    using assms by (intro merge_nodes_other) (auto simp: mwf_mget)
qed

section \<open>Refinement of the value model\<close>

text \<open>What the allocating methods leave: one more struct with a map of its own.\<close>

definition alloc_clock :: "(NodeID, int64) gomap \<Rightarrow> clock_store \<Rightarrow> clock_store" where
  "alloc_clock m st =
     st\<lparr>structs := structs st @ [Some (length (maps st))], maps := maps st @ [m]\<rparr>"

lemma alloc_clock_ok:
  assumes "store_ok st" and "mwf m"
  shows "store_ok (alloc_clock m st)"
proof (rule store_okI)
  let ?st = "alloc_clock m st"
  have cases: "a < length (structs st) \<and> structs st ! a = Some r \<and> r < length (maps st) \<or>
      a = length (structs st) \<and> r = length (maps st)"
    if "a < length (structs ?st)" "structs ?st ! a = Some r" for a r
    using that store_ok_ref [OF assms(1), of a r]
    by (cases "a < length (structs st)") (simp_all add: alloc_clock_def nth_append less_Suc_eq)
  show "r < length (maps ?st)" if "a < length (structs ?st)" "structs ?st ! a = Some r" for a r
    using cases [OF that] by (auto simp: alloc_clock_def)
  show "b = a" if "a < length (structs ?st)" "b < length (structs ?st)"
    "structs ?st ! a = Some r" "structs ?st ! b = Some r" for a b r
    using cases [OF that(1,3)] cases [OF that(2,4)] store_ok_inj [OF assms(1), of a b r] by auto
  show "mwf m'" if "m' \<in> set (maps ?st)" for m'
    using that assms by (auto simp: alloc_clock_def store_ok_def)
qed

lemma alloc_clock_frame:
  assumes "store_ok st" and "valid_ptr st q"
  shows "load (alloc_clock m st) q = load st q" and "valid_ptr (alloc_clock m st) q"
proof -
  show "valid_ptr (alloc_clock m st) q"
    using assms(2) by (auto simp: valid_ptr_def alloc_clock_def split: option.splits)
  show "load (alloc_clock m st) q = load st q"
  proof (cases q)
    case (Some a)
    then show ?thesis
      using assms by (cases "structs st ! a")
        (auto simp: load_def alloc_clock_def valid_ptr_def nth_append dest: store_ok_ref)
  qed simp
qed

lemma alloc_clock_load: "load (alloc_clock m st) (Some (length (structs st))) = Some \<lparr>clock = Some m\<rparr>"
  by (simp add: load_def alloc_clock_def)

lemma ref_NewClock_alloc:
  "ref_NewClock nodes st = (length (structs st), alloc_clock (init_range nodes []) st)"
  by (simp add: ref_NewClock_def make_map_def new_struct_def put_zeros_set alloc_clock_def set_map_def)

lemma ref_Copy_alloc:
  assumes "store_ok st" and "valid_ptr st p"
  shows "ref_Copy p st =
     (length (structs st), alloc_clock (entries (clock (Clock_Copy (load st p)))) st)"
proof (cases p)
  case None
  then show ?thesis
    by (simp add: ref_Copy_def ref_NewClock_alloc Clock_Copy_def NewClock_def)
next
  case (Some a)
  then have a: "a < length (structs st)" using assms(2) by (simp add: valid_ptr_def)
  show ?thesis
  proof (cases "structs st ! a")
    case None
    then show ?thesis
      using Some a by (simp add: ref_Copy_def make_map_def new_struct_def alloc_clock_def
          Clock_Copy_def load_def nth_append)
  next
    case (Some s)
    then show ?thesis
      using \<open>p = Some a\<close> a store_ok_ref [OF assms(1) a Some]
      by (simp add: ref_Copy_def make_map_def new_struct_def alloc_clock_def Clock_Copy_def
          load_def nth_append put_entries_set set_map_def)
  qed
qed

text \<open>What the mutating methods leave: the receiver's own map written, no other clock touched.\<close>

lemma fresh_map_ok:
  assumes "store_ok st"
    and st1: "st1 = st\<lparr>maps := maps st @ [[]], structs := (structs st)[a := Some (length (maps st))]\<rparr>"
  shows "store_ok st1"
proof (rule store_okI)
  have cases: "(if b = a then r' = length (maps st) else structs st ! b = Some r' \<and> r' < length (maps st))"
    if "b < length (structs st1)" "structs st1 ! b = Some r'" for b r'
    using that store_ok_ref [OF assms(1), of b r'] by (auto simp: st1)
  show "r' < length (maps st1)" if "b < length (structs st1)" "structs st1 ! b = Some r'" for b r'
    using cases [OF that] by (auto simp: st1 split: if_splits)
  show "c = b" if "b < length (structs st1)" "c < length (structs st1)"
    "structs st1 ! b = Some r'" "structs st1 ! c = Some r'" for b c r'
    using cases [OF that(1,3)] cases [OF that(2,4)] store_ok_inj [OF assms(1), of b c r'] that(1,2)
    by (auto simp: st1 split: if_splits)
  show "mwf m" if "m \<in> set (maps st1)" for m
    using that assms(1) by (auto simp: st1 store_ok_def)
qed

lemma ensure_map_own:
  assumes "store_ok st" and "a < length (structs st)" and "ensure_map a st = (r, st1)"
  shows "store_ok st1" and "r < length (maps st1)" and "structs st1 ! a = Some r"
    and "length (structs st1) = length (structs st)"
    and "maps st1 ! r = entries (clock (the (load st (Some a))))"
    and "b < length (structs st) \<Longrightarrow> b \<noteq> a \<Longrightarrow> load st1 (Some b) = load st (Some b)"
    and "s < length (maps st) \<Longrightarrow> maps st1 ! s = maps st ! s"
proof (atomize (full), goal_cases)
  case 1
  show ?case
  proof (cases "structs st ! a")
    case (Some r')
    then show ?thesis
      using assms by (auto simp: ensure_map_def load_def dest: store_ok_ref)
  next
    case None
    have st1: "r = length (maps st)"
      "st1 = st\<lparr>maps := maps st @ [[]], structs := (structs st)[a := Some (length (maps st))]\<rparr>"
      using None assms(3) by (auto simp: ensure_map_def make_map_def)
    have "load st1 (Some b) = load st (Some b)" if "b < length (structs st)" "b \<noteq> a"
      using that by (cases "structs st ! b")
        (auto simp: load_def st1 nth_append dest: store_ok_ref [OF assms(1)])
    then show ?thesis
      using assms(2) None fresh_map_ok [OF assms(1) st1(2)] by (simp add: st1 load_def nth_append)
  qed
qed

lemma write_own_map:
  assumes "store_ok st" and "a < length (structs st)" and "ensure_map a st = (r, st1)" and "mwf m"
  shows "store_ok (set_map r m st1)" and "load (set_map r m st1) (Some a) = Some \<lparr>clock = Some m\<rparr>"
    and "valid_ptr st q \<Longrightarrow> q \<noteq> Some a \<Longrightarrow> load (set_map r m st1) q = load st q"
    and "valid_ptr st q \<Longrightarrow> valid_ptr (set_map r m st1) q"
proof -
  note own = ensure_map_own [OF assms(1-3)]
  have "m' \<in> set (maps (set_map r m st1)) \<Longrightarrow> mwf m'" for m'
    using own(1) assms(4) set_update_subset_insert [of "maps st1" r m] by (auto simp: store_ok_def)
  then show "store_ok (set_map r m st1)"
    using store_ok_ref [OF own(1)] store_ok_inj [OF own(1)] by (intro store_okI) simp_all
  show "load (set_map r m st1) (Some a) = Some \<lparr>clock = Some m\<rparr>"
    using own by (simp add: load_def)
  show "valid_ptr (set_map r m st1) q" if "valid_ptr st q"
    using that own(4) by (simp add: valid_ptr_def split: option.splits)
  show "load (set_map r m st1) q = load st q" if q: "valid_ptr st q" "q \<noteq> Some a"
  proof (cases q)
    case (Some b)
    then have b: "b < length (structs st)" "b \<noteq> a" using q by (auto simp: valid_ptr_def)
    have "structs st1 ! b \<noteq> Some r"
      using own(1,3,4) assms(2) b unfolding store_ok_def by metis
    then have "load (set_map r m st1) (Some b) = load st1 (Some b)"
      by (cases "structs st1 ! b") (auto simp: load_def)
    then show ?thesis
      using Some own(6) b by simp
  qed simp
qed

text \<open>
  Each mutating method: the receiver's clock becomes what the value model says, the other
  clocks stay as they are, and it panics exactly where the value model does.
\<close>

definition changes_only :: "nat \<Rightarrow> Clock \<Rightarrow> clock_store \<Rightarrow> clock_store \<Rightarrow> bool" where
  "changes_only a c st st' \<longleftrightarrow> store_ok st' \<and> load st' (Some a) = Some c \<and>
     (\<forall>q. valid_ptr st q \<longrightarrow> valid_ptr st' q \<and> (q \<noteq> Some a \<longrightarrow> load st' q = load st q))"

lemma load_Some: "load st (Some a) = Some (the (load st (Some a)))"
  by (simp add: load_def)

lemma write_changes_only:
  assumes "store_ok st" and "a < length (structs st)" and "ensure_map a st = (r, st1)" and "mwf m"
  shows "changes_only a \<lparr>clock = Some m\<rparr> st (set_map r m st1)"
  unfolding changes_only_def using write_own_map [OF assms] by blast

lemma load_mwf:
  assumes "store_ok st" and "a < length (structs st)"
  shows "mwf (entries (clock (the (load st (Some a)))))"
  using store_ok_mwf [OF assms(1)] store_ok_ref [OF assms]
  by (cases "structs st ! a") (auto simp: load_def)

lemma ref_Increment_refines:
  assumes "store_ok st" and "a < length (structs st)"
  shows "\<exists>c v st'. Clock_Increment (load st (Some a)) n = Return (c, v) \<and>
           ref_Increment (Some a) n st = Return (v, st') \<and> changes_only a c st st'"
proof -
  obtain r st1 where e: "ensure_map a st = (r, st1)" by fastforce
  note own = ensure_map_own [OF assms e]
  let ?m = "entries (clock (the (load st (Some a))))"
  have "changes_only a \<lparr>clock = Some (mput n (mget ?m n + 1) ?m)\<rparr> st
      (set_map r (mput n (mget ?m n + 1) ?m) st1)"
    using write_changes_only [OF assms e] load_mwf [OF assms] by blast
  moreover have "Clock_Increment (load st (Some a)) n =
      Return (\<lparr>clock = Some (mput n (mget ?m n + 1) ?m)\<rparr>, mget ?m n + 1)"
    by (subst (1) load_Some) (simp add: Clock_Increment_Some Clock_Get_Some)
  ultimately show ?thesis
    using own(2,5) by (simp add: ref_Increment_def e map_put_def Let_def)
qed

lemma ref_Set_refines:
  assumes "store_ok st" and "a < length (structs st)"
  shows "\<exists>c st'. Clock_Set (load st (Some a)) n v = Return c \<and>
           ref_Set (Some a) n v st = Return st' \<and> changes_only a c st st'"
proof -
  obtain r st1 where e: "ensure_map a st = (r, st1)" by fastforce
  note own = ensure_map_own [OF assms e]
  let ?m = "entries (clock (the (load st (Some a))))"
  have "changes_only a \<lparr>clock = Some (mput n v ?m)\<rparr> st (set_map r (mput n v ?m) st1)"
    using write_changes_only [OF assms e] load_mwf [OF assms] by blast
  moreover have "Clock_Set (load st (Some a)) n v = Return \<lparr>clock = Some (mput n v ?m)\<rparr>"
    by (simp add: Clock_Set_def load_def split: option.split)
  ultimately show ?thesis
    using own(2,5) by (simp add: ref_Set_def e map_put_def Let_def)
qed

lemma ref_Merge_refines:
  assumes "store_ok st" and "a < length (structs st)" and "valid_ptr st q"
  shows "\<exists>c st'. Clock_Merge (load st (Some a)) (load st q) = Return (Some c) \<and>
           ref_Merge (Some a) q st = Return st' \<and> changes_only a c st st'"
proof (cases "clock_map (load st q)")
  case None
  then have "ref_Merge (Some a) q st = Return st"
    "Clock_Merge (load st (Some a)) (load st q) = Return (load st (Some a))"
    by (auto simp: ref_Merge_def Clock_Merge_def load_def split: option.split)
  then show ?thesis
    using assms(1) load_Some [of st a] by (auto simp: changes_only_def)
next
  case (Some om)
  then obtain b s where b: "q = Some b" "structs st ! b = Some s" "om = maps st ! s"
    by (cases q) (auto simp: load_def)
  obtain r st1 where e: "ensure_map a st = (r, st1)" by fastforce
  note own = ensure_map_own [OF assms(1,2) e]
  have s: "s < length (maps st)"
    using assms(1,3) b by (auto simp: valid_ptr_def dest: store_ok_ref)
  let ?m = "entries (clock (the (load st (Some a))))"
  let ?m' = "merge_range int64_gt om ?m"
  have "mwf (maps st1 ! s)"
    using store_ok_mwf [OF assms(1) s] own(7) [OF s] by simp
  then have "ref_Merge (Some a) q st = Return (set_map r ?m' st1)"
    using merge_nodes_set [OF own(2), of s] own(5) own(7) [OF s] by (simp add: ref_Merge_def b e)
  moreover have "Clock_Merge (load st (Some a)) (load st q) = Return (Some \<lparr>clock = Some ?m'\<rparr>)"
    using b by (simp add: Clock_Merge_def load_def split: option.split)
  moreover have "changes_only a \<lparr>clock = Some ?m'\<rparr> st (set_map r ?m' st1)"
    using write_changes_only [OF assms(1,2) e] load_mwf [OF assms(1,2)] by simp
  ultimately show ?thesis by blast
qed

text \<open>A call allocates a clock, or changes its receiver only, or does nothing.\<close>

lemma exec_op_cases:
  assumes "store_ok st" and "op_valid st op" and "exec_op op st = Return st'"
  shows "(\<exists>m. mwf m \<and> st' = alloc_clock m st) \<or>
    (\<exists>a c. op_receiver op = Some a \<and> changes_only a c st st') \<or> st' = st"
proof (cases op)
  case (NewOp nodes)
  then have "st' = alloc_clock (init_range nodes []) st"
    using assms(3) by (simp add: ref_NewClock_alloc)
  then show ?thesis
    using mwf_init_range [OF mwf_Nil] by blast
next
  case (CopyOp p)
  then show ?thesis
    using assms Clock_Copy_rep [of "load st p"] by (auto simp: ref_Copy_alloc clock_rep_Some)
next
  case (IncrementOp p n)
  with assms(3) have "p \<noteq> None" by (cases p) (auto simp: ref_Increment_def)
  with IncrementOp assms(2) obtain a where a: "p = Some a" "a < length (structs st)"
    by (auto simp: valid_ptr_def)
  from ref_Increment_refines [OF assms(1) a(2), of n] IncrementOp assms(3) show ?thesis
    by (auto simp: a(1))
next
  case (SetOp p n v)
  with assms(3) have "p \<noteq> None" by (cases p) (auto simp: ref_Set_def)
  with SetOp assms(2) obtain a where a: "p = Some a" "a < length (structs st)"
    by (auto simp: valid_ptr_def)
  from ref_Set_refines [OF assms(1) a(2), of n v] SetOp assms(3) show ?thesis
    by (auto simp: a(1))
next
  case (MergeOp p q)
  show ?thesis
  proof (cases p)
    case None
    with MergeOp assms(3) show ?thesis by (auto simp: ref_Merge_def split: option.splits)
  next
    case (Some a)
    with MergeOp assms(2) have "a < length (structs st)" "valid_ptr st q"
      by (simp_all add: valid_ptr_def)
    from ref_Merge_refines [OF assms(1) this] MergeOp assms(3) show ?thesis
      by (auto simp: Some)
  qed
qed

text \<open>So it keeps the invariant and the pointers, and every clock but its receiver's.\<close>

lemma exec_op_frame:
  assumes "store_ok st" and "op_valid st op" and "exec_op op st = Return st'"
  shows "store_ok st'" and "valid_ptr st q \<Longrightarrow> valid_ptr st' q"
    and "valid_ptr st q \<Longrightarrow> op_receiver op \<noteq> q \<Longrightarrow> load st' q = load st q"
  using exec_op_cases [OF assms] alloc_clock_ok [OF assms(1)] alloc_clock_frame [OF assms(1)] assms(1)
  by (auto simp: changes_only_def)

lemma clock_run_frame:
  "clock_run st ops st' \<Longrightarrow> store_ok st \<Longrightarrow> valid_ptr st q \<Longrightarrow>
   store_ok st' \<and> valid_ptr st' q \<and> (q \<notin> op_receiver ` set ops \<longrightarrow> load st' q = load st q)"
proof (induction rule: clock_run.induct)
  case (clock_run_Cons st op st' ops st'')
  note frame = exec_op_frame [OF clock_run_Cons.prems(1) clock_run_Cons.hyps(1,2)]
  show ?case
    using clock_run_Cons.IH frame clock_run_Cons.prems(2) by auto
qed simp

lemma ref_Copy_fresh:
  assumes "store_ok st" and "valid_ptr st p" and "ref_Copy p st = (c, st')"
  shows "c = length (structs st)" and "store_ok st'" and "valid_ptr st' (Some c)"
    and "load st' (Some c) = Some (Clock_Copy (load st p))"
    and "valid_ptr st q \<Longrightarrow> load st' q = load st q \<and> valid_ptr st' q"
proof -
  have c: "c = length (structs st)" and st': "st' = alloc_clock (entries (clock (Clock_Copy (load st p)))) st"
    using assms(3) by (simp_all add: ref_Copy_alloc [OF assms(1,2)])
  have "mwf (entries (clock (Clock_Copy (load st p))))"
    using Clock_Copy_rep [of "load st p"] by (simp add: clock_rep_Some)
  moreover have "\<lparr>clock = Some (entries (clock (Clock_Copy d)))\<rparr> = Clock_Copy d" for d
    by (simp add: Clock_Copy_def NewClock_def split: option.split)
  ultimately show "store_ok st'" "load st' (Some c) = Some (Clock_Copy (load st p))"
    by (simp_all add: st' c alloc_clock_load alloc_clock_ok [OF assms(1)])
  show "c = length (structs st)" by (rule c)
  show "valid_ptr st' (Some c)" by (simp add: st' c valid_ptr_def alloc_clock_def)
  show "load st' q = load st q \<and> valid_ptr st' q" if "valid_ptr st q"
    unfolding st' using alloc_clock_frame [OF assms(1) that] by simp
qed

lemma load_rep:
  assumes "store_ok st" and "valid_ptr st p"
  shows "clock_rep (load st p)"
proof (cases p)
  case (Some a)
  with assms(2) have "a < length (structs st)" by (simp add: valid_ptr_def)
  from load_mwf [OF assms(1) this] show ?thesis
    unfolding Some by (subst load_Some) (simp only: clock_rep_Some)
qed (simp add: clock_rep_def)

section \<open>Properties\<close>

text \<open>C19. \<open>Copy\<close> gives an independent snapshot.  The pointer it returns is new, and the
  clock behind it has every counter of the clock that was copied; whatever calls follow, on any
  pointers and with clocks merged into each other or themselves, the copy still reads the same as
  long as none of them mutates the copy itself, and the original still reads the same as long as
  none of them mutates the original.\<close>

theorem Copy_snapshot_isolated:
  assumes "store_ok st" and "valid_ptr st p" and "ref_Copy p st = (c, st1)"
    and "clock_run st1 ops st2"
  shows "\<not> valid_ptr st (Some c) \<and>
         (Some c \<notin> op_receiver ` set ops \<longrightarrow>
            load st2 (Some c) = Some (Clock_Copy (load st p)) \<and>
            (\<forall>n. Clock_Get (load st2 (Some c)) n = Clock_Get (load st p) n)) \<and>
         (p \<notin> op_receiver ` set ops \<longrightarrow> load st2 p = load st p)"
proof -
  note copy = ref_Copy_fresh [OF assms(1-3)]
  have "\<not> valid_ptr st (Some c)"
    by (simp add: copy(1) valid_ptr_def)
  moreover have "load st2 (Some c) = Some (Clock_Copy (load st p))"
    if "Some c \<notin> op_receiver ` set ops"
    using clock_run_frame [OF assms(4) copy(2,3)] that copy(4) by simp
  moreover have "load st2 p = load st p" if "p \<notin> op_receiver ` set ops"
    using clock_run_frame [OF assms(4) copy(2)] that copy(5) [OF assms(2)] by simp
  ultimately show ?thesis
    using Clock_Copy_Get [OF load_rep [OF assms(1,2)]] by simp
qed

theorem Copy_snapshot_isolated_witness:
  "\<exists>st1 st2. ref_Copy (Some 0) \<lparr>structs = [Some 0], maps = [[(''a'', 1)]]\<rparr> = (1, st1) \<and>
     exec_op (IncrementOp (Some 0) ''a'') st1 = Return st2 \<and>
     Clock_Get (load st2 (Some 0)) ''a'' = 2 \<and> Clock_Get (load st2 (Some 1)) ''a'' = 1"
proof -
  let ?st = "\<lparr>structs = [Some 0], maps = [[(''a'', 1)]]\<rparr> :: clock_store"
  let ?st1 = "\<lparr>structs = [Some 0, Some 1], maps = [[(''a'', 1)], [(''a'', 1)]]\<rparr> :: clock_store"
  let ?st2 = "\<lparr>structs = [Some 0, Some 1], maps = [[(''a'', 2)], [(''a'', 1)]]\<rparr> :: clock_store"
  have ok: "store_ok ?st" "valid_ptr ?st (Some 0)"
    by (auto simp: store_ok_def valid_ptr_def mwf_def)
  have copy: "ref_Copy (Some 0) ?st = (1, ?st1)"
    by (simp add: ref_Copy_def make_map_def new_struct_def map_put_def set_map_def)
  have inc: "exec_op (IncrementOp (Some 0) ''a'') ?st1 = Return ?st2"
    by (simp add: ref_Increment_def ensure_map_def map_put_def set_map_def mget_def)
  have "clock_run ?st1 [IncrementOp (Some 0) ''a''] ?st2"
    by (rule clock_run_Cons [OF _ inc clock_run_Nil]) (simp add: valid_ptr_def)
  from Copy_snapshot_isolated [OF ok copy this]
  have "Clock_Get (load ?st2 (Some 1)) ''a'' = Clock_Get (load ?st (Some 0)) ''a''"
    by (elim conjE) (erule impE, simp, blast)
  moreover have "Clock_Get (load ?st (Some 0)) ''a'' = 1" "Clock_Get (load ?st2 (Some 0)) ''a'' = 2"
    by (simp_all add: load_def Clock_Get_def mget_def)
  ultimately show ?thesis using copy inc by metis
qed

end
