(* ===== verification/Message_Core.thy ===== *)
theory Message_Core
  imports Clock_Heap Go_Strings
begin

text \<open>
  The framed message of message/message.go: its record, the constructor, validation, the size
  estimate and \<open>WithMetadata\<close>.  The current time, which the constructor reads from the
  system clock, is an argument.  The constructor runs on the store of Clock\_Heap, because what
  it promises is about aliasing: the message gets a clock of its own.
\<close>

section \<open>State and operations\<close>

definition CurrentVersion :: uint8 where
  "CurrentVersion = 1"

definition MaxMessageSize :: nat where
  "MaxMessageSize = 16 * 1024 * 1024"

definition MaxSenderIDLength :: nat where
  "MaxSenderIDLength = 256"

definition MaxPayloadSize :: nat where
  "MaxPayloadSize = 15 * 1024 * 1024"

datatype sender_id_error = EmptySenderID | SenderIDTooLong nat | ControlCharacters

datatype message_error =
    ErrInvalidVersion uint8
  | ErrMessageTooLarge
  | ErrInvalidSenderID sender_id_error
  | ErrNilClock
  | ErrPayloadTooLarge
  | NilMessage
  | MetadataTooLarge

record Message =
  Version :: uint8
  SenderID :: string
  MClock :: "Clock option"
  Payload :: bytes
  Timestamp :: Time
  Metadata :: "(string, string) gomap option"

text \<open>The loop over the runes of the identifier.\<close>

fun has_control :: "nat list \<Rightarrow> bool" where
  "has_control [] = False"
| "has_control (r # rs) = (if r < 32 \<or> r = 127 then True else has_control rs)"

definition validateSenderID :: "string \<Rightarrow> message_error option" where
  "validateSenderID ident =
     (if ident = [] then Some (ErrInvalidSenderID EmptySenderID)
      else if length ident > MaxSenderIDLength
      then Some (ErrInvalidSenderID (SenderIDTooLong (length ident)))
      else if has_control (range_runes ident) then Some (ErrInvalidSenderID ControlCharacters)
      else None)"

text \<open>
  The struct with its clock still a pointer, and the message it stands for in a store.  The
  constructor keeps the caller's payload slice (it does not copy the bytes), so the payload is
  the same value here.
\<close>

record message_struct =
  version_field :: uint8
  sender_field :: string
  clock_field :: clock_ptr
  payload_field :: bytes
  timestamp_field :: Time
  metadata_field :: "(string, string) gomap option"

definition load_message :: "clock_store \<Rightarrow> message_struct \<Rightarrow> Message" where
  "load_message st m =
     \<lparr>Version = version_field m, SenderID = sender_field m, MClock = load st (clock_field m),
      Payload = payload_field m, Timestamp = timestamp_field m, Metadata = metadata_field m\<rparr>"

definition NewMessage ::
  "Time \<Rightarrow> string \<Rightarrow> clock_ptr \<Rightarrow> bytes \<Rightarrow> clock_store \<Rightarrow>
   (message_error + message_struct) \<times> clock_store" where
  "NewMessage now senderID clk payload st = (case validateSenderID senderID of
       Some err \<Rightarrow> (Inl err, st)
     | None \<Rightarrow>
         (if clk = None then (Inl ErrNilClock, st)
          else if blen payload > MaxPayloadSize then (Inl ErrPayloadTooLarge, st)
          else let (c, st) = ref_Copy clk st in
            (Inr \<lparr>version_field = CurrentVersion, sender_field = senderID, clock_field = Some c,
                  payload_field = payload, timestamp_field = now\<lparr>utc := True\<rparr>,
                  metadata_field = None\<rparr>, st)))"

text \<open>The loop over the metadata.\<close>

fun metadata_too_large :: "(string, string) gomap \<Rightarrow> bool" where
  "metadata_too_large [] = False"
| "metadata_too_large ((key, val) # md) =
     (if length key > 256 \<or> length val > 1024 then True else metadata_too_large md)"

definition Validate :: "Message option \<Rightarrow> message_error option" where
  "Validate msg = (case msg of
       None \<Rightarrow> Some NilMessage
     | Some m \<Rightarrow>
         (if Version m = 0 \<or> Version m > CurrentVersion then Some (ErrInvalidVersion (Version m))
          else case validateSenderID (SenderID m) of
              Some err \<Rightarrow> Some err
            | None \<Rightarrow>
                (if MClock m = None then Some ErrNilClock
                 else if blen (Payload m) > MaxPayloadSize then Some ErrPayloadTooLarge
                 else case Metadata m of
                     None \<Rightarrow> None
                   | Some md \<Rightarrow> (if metadata_too_large md then Some MetadataTooLarge else None))))"

fun size_nodes :: "NodeID list \<Rightarrow> nat \<Rightarrow> nat" where
  "size_nodes [] sz = sz"
| "size_nodes (node # nodes) sz = size_nodes nodes (sz + (length node + 8))"

fun size_metadata :: "(string, string) gomap \<Rightarrow> nat \<Rightarrow> nat" where
  "size_metadata [] sz = sz"
| "size_metadata ((key, val) # md) sz =
     size_metadata md (sz + (length key + length val + 16))"

definition Size :: "Message option \<Rightarrow> nat go" where
  "Size msg = (case msg of
       None \<Rightarrow> Panic NilDereference
     | Some m \<Rightarrow>
         (let sz = 1 + length (SenderID m) + blen (Payload m) + 8;
              sz = (if MClock m \<noteq> None
                      then size_nodes (Clock_Nodes (MClock m)) sz + 16 * Clock_Len (MClock m)
                      else sz)
          in Return (size_metadata (entries (Metadata m)) sz)))"

definition WithMetadata :: "Message option \<Rightarrow> string \<Rightarrow> string \<Rightarrow> Message go" where
  "WithMetadata msg key val = (case msg of
       None \<Rightarrow> Panic NilDereference
     | Some m \<Rightarrow>
         (let md = (case Metadata m of None \<Rightarrow> [] | Some md \<Rightarrow> md)
          in Return (m\<lparr>Metadata := Some (mput key val md)\<rparr>)))"

section \<open>Facts\<close>

lemma no_control_iff: "\<not> has_control rs \<longleftrightarrow> (\<forall>r \<in> set rs. \<not> (r < 32 \<or> r = 127))"
  by (induction rs) auto

text \<open>Looking at runes or at bytes makes no difference to the check, on any input.\<close>

lemma no_control_bytes:
  "\<not> has_control (range_runes s) \<longleftrightarrow> (\<forall>c \<in> set s. \<not> (byte_of c < 32 \<or> byte_of c = 127))"
proof -
  have "r \<in> set (range_runes s) \<longleftrightarrow> r \<in> byte_of ` set s" if "r < 32 \<or> r = 127" for r
    using that by (intro range_runes_ascii) auto
  then have "(\<forall>r \<in> set (range_runes s). \<not> (r < 32 \<or> r = 127)) \<longleftrightarrow>
             (\<forall>r \<in> byte_of ` set s. \<not> (r < 32 \<or> r = 127))"
    by metis
  then show ?thesis
    unfolding no_control_iff by (simp only: ball_simps)
qed

definition sender_ok :: "string \<Rightarrow> bool" where
  "sender_ok s \<longleftrightarrow> s \<noteq> [] \<and> length s \<le> 256 \<and>
     (\<forall>c \<in> set s. \<not> (byte_of c < 32 \<or> byte_of c = 127))"

lemma validateSenderID_ok: "validateSenderID s = None \<longleftrightarrow> sender_ok s"
  unfolding sender_ok_def no_control_bytes [symmetric]
  by (simp add: validateSenderID_def MaxSenderIDLength_def not_less)

lemma metadata_ok_iff:
  "\<not> metadata_too_large md \<longleftrightarrow> (\<forall>(k, v) \<in> set md. \<not> (256 < length k \<or> 1024 < length v))"
  by (induction md rule: metadata_too_large.induct) auto

definition message_ok :: "Message \<Rightarrow> bool" where
  "message_ok m \<longleftrightarrow> Version m = 1 \<and> sender_ok (SenderID m) \<and> MClock m \<noteq> None \<and>
     blen (Payload m) \<le> 15728640 \<and>
     (\<forall>(k, v) \<in> set (entries (Metadata m)). \<not> (256 < length k \<or> 1024 < length v))"

lemma version_ok: "\<not> (v = 0 \<or> v > CurrentVersion) \<longleftrightarrow> v = (1 :: uint8)"
proof -
  have "v = 0 \<or> v = 1 \<or> 1 < v"
    by (metis linorder_less_linear word_gt_0 word_less_1)
  then show ?thesis by (auto simp: CurrentVersion_def)
qed

lemma Validate_ok: "Validate (Some m) = None \<longleftrightarrow> message_ok m"
proof -
  have "Validate (Some m) = None \<longleftrightarrow>
      \<not> (Version m = 0 \<or> Version m > CurrentVersion) \<and> validateSenderID (SenderID m) = None \<and>
      MClock m \<noteq> None \<and> \<not> blen (Payload m) > MaxPayloadSize \<and> \<not> metadata_too_large (entries (Metadata m))"
    by (cases "Metadata m") (simp_all add: Validate_def split: option.split)
  then show ?thesis
    unfolding version_ok validateSenderID_ok metadata_ok_iff
    by (simp add: message_ok_def MaxPayloadSize_def not_less)
qed

lemma size_nodes_eq: "size_nodes ns k = k + (\<Sum>n \<leftarrow> ns. length n + 8)"
  by (induction ns arbitrary: k) auto

lemma size_metadata_eq: "size_metadata md k = k + (\<Sum>(x, y) \<leftarrow> md. length x + length y + 16)"
  by (induction md arbitrary: k) auto

section \<open>Properties\<close>

text \<open>C26. \<open>Validate\<close> accepts exactly the messages within the documented limits: version 1, a
  sender of 1 to 256 bytes none of which is a control byte (0 to 31, or 127), a clock, a
  payload of at most 15 MiB, and metadata keys of at most 256 and values of at most 1024
  bytes.  The check for control characters walks the runes of the identifier; it comes to the
  same for identifiers that are not valid UTF-8.\<close>

theorem Validate_accepts_exactly:
  "Validate msg = None \<longleftrightarrow>
   (\<exists>m. msg = Some m \<and> Version m = 1 \<and>
      1 \<le> length (SenderID m) \<and> length (SenderID m) \<le> 256 \<and>
      (\<forall>c \<in> set (SenderID m). 32 \<le> byte_of c \<and> byte_of c \<noteq> 127) \<and>
      MClock m \<noteq> None \<and> blen (Payload m) \<le> 15 * 1024 * 1024 \<and>
      (\<forall>(k, v) \<in> set (entries (Metadata m)). length k \<le> 256 \<and> length v \<le> 1024))"
proof (cases msg)
  case None
  then show ?thesis by (simp add: Validate_def)
next
  case (Some m)
  then show ?thesis
    by (simp add: Validate_ok message_ok_def sender_ok_def not_less Suc_le_eq)
qed

theorem Validate_accepts_exactly_witness:
  "Validate (Some \<lparr>Version = 1, SenderID = ''n1'', MClock = Some (NewClock []), Payload = None,
     Timestamp = zero_time, Metadata = Some [(''k'', ''v'')]\<rparr>) = None"
  by (simp add: Validate_accepts_exactly)

text \<open>C33. The constructor succeeds exactly on a valid sender, a clock and a payload within the
  limit.  The message it returns passes \<open>Validate\<close> and carries the current version, the
  sender, the payload, the time in UTC and no metadata.  Its clock is a copy: the pointer is
  new, the clock behind it compares equal to the caller's, the caller's clocks are untouched, and
  no later call that mutates another clock, the caller's included, changes the message.
  Otherwise the store is left alone and the error names the first check that failed.\<close>

theorem NewMessage_valid:
  assumes "store_ok st" and "valid_ptr st clk" and "clock_ok (load st clk)"
  shows "case NewMessage now sender clk payload st of
       (Inr m, st') \<Rightarrow> sender_ok sender \<and> clk \<noteq> None \<and> blen payload \<le> 15 * 1024 * 1024 \<and>
         Validate (Some (load_message st' m)) = None \<and> version_field m = 1 \<and>
         sender_field m = sender \<and> payload_field m = payload \<and>
         timestamp_field m = now\<lparr>utc := True\<rparr> \<and> metadata_field m = None \<and>
         \<not> valid_ptr st (clock_field m) \<and>
         Clock_Equal (load st' (clock_field m)) (load st clk) \<and>
         (\<forall>n. Clock_Get (load st' (clock_field m)) n = Clock_Get (load st clk) n) \<and>
         (\<forall>q. valid_ptr st q \<longrightarrow> load st' q = load st q) \<and>
         (\<forall>ops st''. clock_run st' ops st'' \<and> clock_field m \<notin> op_receiver ` set ops \<longrightarrow>
            load_message st'' m = load_message st' m)
     | (Inl e, st') \<Rightarrow> st' = st \<and>
         ((\<not> sender_ok sender \<and> (\<exists>r. e = ErrInvalidSenderID r)) \<or>
          (sender_ok sender \<and> clk = None \<and> e = ErrNilClock) \<or>
          (sender_ok sender \<and> clk \<noteq> None \<and> 15 * 1024 * 1024 < blen payload \<and> e = ErrPayloadTooLarge))"
proof (cases "sender_ok sender \<and> clk \<noteq> None \<and> blen payload \<le> MaxPayloadSize")
  case False
  then show ?thesis
    by (cases "validateSenderID sender")
      (auto simp: NewMessage_def validateSenderID_def MaxPayloadSize_def split: if_splits
        simp flip: validateSenderID_ok)
next
  case True
  obtain c st' where copy: "ref_Copy clk st = (c, st')" by fastforce
  note fresh = ref_Copy_fresh [OF assms(1,2) copy]
  let ?m = "\<lparr>version_field = CurrentVersion, sender_field = sender, clock_field = Some c,
      payload_field = payload, timestamp_field = now\<lparr>utc := True\<rparr>, metadata_field = None\<rparr>"
  have new: "NewMessage now sender clk payload st = (Inr ?m, st')"
    using True copy by (simp add: NewMessage_def flip: validateSenderID_ok)
  have get: "Clock_Get (load st' (Some c)) n = Clock_Get (load st clk) n" for n
    using Clock_Copy_Get [OF clock_ok_rep [OF assms(3)]] by (simp add: fresh(4))
  have "Clock_Equal (load st' (Some c)) (load st clk)"
    using Clock_Compare_spec [OF Clock_Copy_ok [OF assms(3)] assms(3)] get
    by (simp add: Clock_Equal_def cmp_spec_def fun_eq_iff clock_val_def fresh(4))
  moreover have "Validate (Some (load_message st' ?m)) = None"
    using True fresh(4)
    by (simp add: Validate_ok message_ok_def load_message_def CurrentVersion_def MaxPayloadSize_def)
  moreover have "\<forall>ops st''. clock_run st' ops st'' \<and> Some c \<notin> op_receiver ` set ops \<longrightarrow>
      load_message st'' ?m = load_message st' ?m"
    using clock_run_frame [OF _ fresh(2,3)] by (auto simp: load_message_def)
  moreover have "\<not> valid_ptr st (Some c)"
    by (simp add: fresh(1) valid_ptr_def)
  ultimately show ?thesis
    using True get fresh(5) by (simp add: new) (simp add: CurrentVersion_def MaxPayloadSize_def)
qed

theorem NewMessage_valid_witness:
  "\<exists>m st'. NewMessage zero_time ''n1'' (Some 0) None \<lparr>structs = [Some 0], maps = [[(''n1'', 3)]]\<rparr> =
       (Inr m, st') \<and> Validate (Some (load_message st' m)) = None \<and> clock_field m \<noteq> Some 0 \<and>
     Clock_Get (MClock (load_message st' m)) ''n1'' = 3"
proof -
  let ?st = "\<lparr>structs = [Some 0], maps = [[(''n1'', 3)]]\<rparr> :: clock_store"
  have ok: "store_ok ?st" "valid_ptr ?st (Some 0)" "clock_ok (load ?st (Some 0))"
    by (auto simp: store_ok_def valid_ptr_def mwf_def clock_ok_def vwf_def load_def)
  have "validateSenderID ''n1'' = None"
    by (simp add: validateSenderID_ok sender_ok_def)
  then obtain m st' where new: "NewMessage zero_time ''n1'' (Some 0) None ?st = (Inr m, st')"
    by (cases "ref_Copy (Some 0) ?st") (simp add: NewMessage_def blen_def)
  have "Clock_Get (load ?st (Some 0)) ''n1'' = 3"
    by (simp add: load_def Clock_Get_def mget_def)
  with NewMessage_valid [OF ok, where now = zero_time and sender = "''n1''" and payload = None] new ok(2)
  show ?thesis
    by (auto simp: load_message_def)
qed

text \<open>Adding metadata to a valid message keeps it valid exactly when the key and the value
  are within their limits, and changes nothing but the one entry; on a nil message it panics,
  as does \<open>Size\<close>.\<close>

lemma WithMetadata_valid:
  assumes "Validate (Some m) = None"
  shows "\<exists>m'. WithMetadata (Some m) key val = Return m' \<and>
           m'\<lparr>Metadata := Metadata m\<rparr> = m \<and>
           map_of (entries (Metadata m')) = (map_of (entries (Metadata m)))(key \<mapsto> val) \<and>
           (Validate (Some m') = None \<longleftrightarrow> length key \<le> 256 \<and> length val \<le> 1024) \<and>
           WithMetadata None key val = Panic NilDereference \<and> Size None = Panic NilDereference"
proof -
  let ?md = "entries (Metadata m)"
  let ?m = "m\<lparr>Metadata := Some (mput key val ?md)\<rparr>"
  have sub: "set (mput key val md) \<subseteq> insert (key, val) (set md)" "(key, val) \<in> set (mput key val md)" for md
    by (induction md) auto
  have "(\<forall>(k, v) \<in> set (mput key val ?md). \<not> (256 < length k \<or> 1024 < length v)) \<longleftrightarrow>
        \<not> (256 < length key \<or> 1024 < length val)"
    using assms sub [of ?md] unfolding Validate_ok message_ok_def by blast
  then have "Validate (Some ?m) = None \<longleftrightarrow> length key \<le> 256 \<and> length val \<le> 1024"
    using assms unfolding Validate_ok by (simp add: message_ok_def not_less)
  then show ?thesis
    by (simp add: WithMetadata_def Size_def)
qed

text \<open>\<open>Size\<close> is a fixed overhead of nine bytes, the sender and payload bytes, 24 bytes and
  the name for every node of the clock, and 16 bytes and both strings for every metadata
  entry.\<close>

lemma Size_formula:
  "Size (Some m) = Return (9 + length (SenderID m) + blen (Payload m) +
     (\<Sum>n \<leftarrow> Clock_Nodes (MClock m). length n + 24) +
     (\<Sum>(k, v) \<leftarrow> entries (Metadata m). length k + length v + 16))"
proof -
  have "Clock_Len c = length (Clock_Nodes c)" for c
    by (cases "clock_map c") (simp_all add: Clock_Nodes_def Clock_Len_def mkeys_def)
  moreover have "(\<Sum>n \<leftarrow> ns. length n + 24) = (\<Sum>n \<leftarrow> ns. length n + 8) + 16 * length ns" for ns :: "string list"
    by (induction ns) auto
  moreover have "Clock_Nodes None = []" by (simp add: Clock_Nodes_def)
  ultimately show ?thesis
    by (cases "MClock m") (simp_all add: Size_def size_nodes_eq size_metadata_eq Let_def)
qed

end
