(* ===== verification/Message_Codec.thy ===== *)
theory Message_Codec
  imports Message_Core
begin

text \<open>
  Serialization of framed messages: the helper struct that message/cbor.go and
  message/json\_helpers.go build from a message and read one back from, the CBOR serializer,
  and the interface and the registry of serializers of message/serializer.go.

  The CBOR library is not part of the repository.  Its encoding and decoding modes are
  functions held in the serializer, as the struct holds them; a theorem that needs one to
  behave says so in a hypothesis.
\<close>

section \<open>The helper struct\<close>

text \<open>The structs \<open>cborMessage\<close> and \<open>messageJSON\<close> have the same fields.\<close>

record cborMessage =
  hVersion :: uint8
  hSenderID :: string
  hClockData :: "(string, int64) gomap option"
  hPayload :: bytes
  hTimestamp :: int64
  hMetadata :: "(string, string) gomap option"

type_synonym messageJSON = cborMessage

datatype codec_error =
    CannotMarshalNil
  | ValidationFailed message_error
  | EncodingFailed
  | TooLarge
  | InvalidEncodingEmpty
  | InvalidEncoding
  | DecodingFailed
  | ClockDataNull
  | NegativeClockValue string int64

text \<open>The loop that copies the clock into a map.\<close>

fun clock_data_range :: "Clock option \<Rightarrow> NodeID list \<Rightarrow> (string, int64) gomap \<Rightarrow> (string, int64) gomap"
  where
  "clock_data_range c [] clockData = clockData"
| "clock_data_range c (node # nodes) clockData =
     clock_data_range c nodes (mput node (Clock_Get c node) clockData)"

definition to_helper :: "Message \<Rightarrow> cborMessage" where
  "to_helper m =
     \<lparr>hVersion = Version m, hSenderID = SenderID m,
      hClockData = Some (if MClock m \<noteq> None
                         then clock_data_range (MClock m) (Clock_Nodes (MClock m)) [] else []),
      hPayload = Payload m,
      hTimestamp = (if \<not> Time_IsZero (Timestamp m) then unix_sec (Timestamp m) else 0),
      hMetadata = Metadata m\<rparr>"

text \<open>The loop that sets a counter by incrementing a temporary clock.\<close>

function inc_loop :: "NodeID \<Rightarrow> int64 \<Rightarrow> int64 \<Rightarrow> Clock \<Rightarrow> Clock go" where
  "inc_loop node bound i tempClock =
     (if sint i < sint bound
      then go_bind (Clock_Increment (Some tempClock) node) (\<lambda>(t, v). inc_loop node bound (i + 1) t)
      else Return tempClock)"
  by pat_completeness auto
termination
proof (relation "measure (\<lambda>(node, bound, i, t). nat (sint bound - sint i))")
  fix node :: NodeID and bound i :: int64 and tempClock t :: Clock and x y
  assume lt: "sint i < sint bound"
  have "sint i < 2 ^ 63 - 1"
    using lt sint64_range(2) [of bound] by linarith
  with lt show "((node, bound, i + 1, t), node, bound, i, tempClock) \<in>
      measure (\<lambda>(node, bound, i, t). nat (sint bound - sint i))"
    by (simp add: sint64_add_one)
qed simp

declare inc_loop.simps [simp del]

text \<open>The loop that rebuilds the clock from the map.\<close>

fun rebuild_range :: "(string, int64) gomap \<Rightarrow> Clock \<Rightarrow> (codec_error + Clock) go" where
  "rebuild_range [] clk = Return (Inr clk)"
| "rebuild_range ((node, x) # data) clk =
     (if sint x < 0 then Return (Inl (NegativeClockValue node x))
      else go_bind (inc_loop node x 0 (NewClock [])) (\<lambda>tempClock.
           go_bind (Clock_Merge (Some clk) (Some tempClock)) (\<lambda>clk'.
             case clk' of None \<Rightarrow> Panic NilDereference | Some c \<Rightarrow> rebuild_range data c)))"

text \<open>The fields of the message read back from the helper and the rebuilt clock.\<close>

definition from_helper :: "cborMessage \<Rightarrow> Clock \<Rightarrow> Message" where
  "from_helper h clk =
     \<lparr>Version = hVersion h, SenderID = hSenderID h, MClock = Some clk, Payload = hPayload h,
      Timestamp = (if 0 < sint (hTimestamp h) then Time_Unix (hTimestamp h) else zero_time),
      Metadata = hMetadata h\<rparr>"

section \<open>The CBOR serializer\<close>

record CBORSerializer =
  encMode :: "cborMessage \<Rightarrow> unit + byte list"
  decMode :: "byte list \<Rightarrow> unit + cborMessage"

definition NewCBORSerializer ::
  "unit + (cborMessage \<Rightarrow> unit + byte list) \<Rightarrow> unit + (byte list \<Rightarrow> unit + cborMessage) \<Rightarrow>
   unit + CBORSerializer" where
  "NewCBORSerializer newEncMode newDecMode = (case newEncMode of
       Inl e \<Rightarrow> Inl e
     | Inr enc \<Rightarrow> (case newDecMode of
           Inl e \<Rightarrow> Inl e
         | Inr dec \<Rightarrow> Inr \<lparr>encMode = enc, decMode = dec\<rparr>))"

definition CBOR_Marshal :: "CBORSerializer \<Rightarrow> Message option \<Rightarrow> codec_error + byte list" where
  "CBOR_Marshal s msg = (case msg of
       None \<Rightarrow> Inl CannotMarshalNil
     | Some m \<Rightarrow> (case Validate msg of
           Some err \<Rightarrow> Inl (ValidationFailed err)
         | None \<Rightarrow> (case encMode s (to_helper m) of
               Inl _ \<Rightarrow> Inl EncodingFailed
             | Inr data \<Rightarrow> (if length data > MaxMessageSize then Inl TooLarge else Inr data))))"

definition CBOR_Unmarshal :: "CBORSerializer \<Rightarrow> byte list \<Rightarrow> (codec_error + Message) go" where
  "CBOR_Unmarshal s data =
     (if length data = 0 then Return (Inl InvalidEncodingEmpty)
      else if length data > MaxMessageSize then Return (Inl TooLarge)
      else case decMode s data of
          Inl _ \<Rightarrow> Return (Inl InvalidEncoding)
        | Inr helper \<Rightarrow>
            go_bind (rebuild_range (entries (hClockData helper)) (NewClock [])) (\<lambda>r.
              case r of
                Inl err \<Rightarrow> Return (Inl err)
              | Inr clk \<Rightarrow>
                  (let msg = from_helper helper clk in
                   case Validate (Some msg) of
                     Some err \<Rightarrow> Return (Inl (ValidationFailed err))
                   | None \<Rightarrow> Return (Inr msg))))"

section \<open>The registry of serializers\<close>

text \<open>A serializer is known to the registry by its name; \<open>'s\<close> stands for the values that
  implement the interface.\<close>

record 's Registry =
  serializers :: "(string, 's) gomap"

definition NewRegistry :: "'s Registry" where
  "NewRegistry = \<lparr>serializers = []\<rparr>"

definition Registry_Register :: "('s \<Rightarrow> string) \<Rightarrow> 's Registry \<Rightarrow> 's \<Rightarrow> 's Registry" where
  "Registry_Register name r s = r\<lparr>serializers := mput (name s) s (serializers r)\<rparr>"

definition Registry_Get :: "'s Registry \<Rightarrow> string \<Rightarrow> 's option" where
  "Registry_Get r name = map_of (serializers r) name"

datatype Serializer = JSON | CBOR CBORSerializer

definition Serializer_Name :: "Serializer \<Rightarrow> string" where
  "Serializer_Name s = (case s of JSON \<Rightarrow> ''json'' | CBOR _ \<Rightarrow> ''cbor'')"

text \<open>The default registry after \<open>init\<close>; the argument is what \<open>NewCBORSerializer\<close>
  returned.\<close>

definition DefaultRegistry :: "unit + CBORSerializer \<Rightarrow> Serializer Registry" where
  "DefaultRegistry newCBOR =
     (let r = Registry_Register Serializer_Name NewRegistry JSON
      in case newCBOR of
           Inl _ \<Rightarrow> r
         | Inr cbor \<Rightarrow> Registry_Register Serializer_Name r (CBOR cbor))"

section \<open>Facts\<close>

abbreviation clock_entries :: "Clock \<Rightarrow> NodeID \<Rightarrow> int64 option" where
  "clock_entries c \<equiv> map_of (entries (clock c))"

lemma inc_loop_entries:
  assumes "sint i \<le> sint bound" and "Clock_Get (Some t) node = i" and "clock_rep (Some t)"
  shows "\<exists>t'. inc_loop node bound i t = Return t' \<and> clock_rep (Some t') \<and>
     clock_entries t' = (if i = bound then clock_entries t else (clock_entries t)(node \<mapsto> bound))"
  using assms
proof (induction node bound i t rule: inc_loop.induct)
  case (1 node bound i t)
  show ?case
  proof (cases "sint i < sint bound")
    case True
    let ?t = "\<lparr>clock = Some (mput node (i + 1) (entries (clock t)))\<rparr>"
    have inc: "Clock_Increment (Some t) node = Return (?t, i + 1)"
      using "1.prems"(2) by (simp add: Clock_Increment_Some)
    have "sint i < 2 ^ 63 - 1"
      using True sint64_range(2) [of bound] by linarith
    then have "sint (i + 1) \<le> sint bound"
      using True by (simp add: sint64_add_one)
    moreover have "Clock_Get (Some ?t) node = i + 1" "clock_rep (Some ?t)"
      using "1.prems"(3) by (simp_all add: Clock_Get_Some clock_rep_Some)
    ultimately obtain t' where "inc_loop node bound (i + 1) ?t = Return t'" "clock_rep (Some t')"
      "clock_entries t' = (if i + 1 = bound then clock_entries ?t else (clock_entries ?t)(node \<mapsto> bound))"
      using "1.IH" [OF True] by blast
    then show ?thesis
      using True inc by (subst inc_loop.simps) auto
  next
    case False
    then have "i = bound" using "1.prems"(1) by (intro signed_word_eqI) simp
    then show ?thesis using "1.prems"(3) by (subst inc_loop.simps) simp
  qed
qed

text \<open>What the temporary clock holds: one entry, or none when the value is zero.\<close>

lemma inc_loop_NewClock:
  assumes "0 \<le> sint x"
  obtains t where "inc_loop node x 0 (NewClock []) = Return t" "clock_rep (Some t)"
    "clock_entries t = (if x = 0 then Map.empty else [node \<mapsto> x])"
proof -
  have "clock_rep (Some (NewClock []))" by (simp add: clock_ok_rep)
  with inc_loop_entries [of 0 x "NewClock []" node] assms obtain t where
    "inc_loop node x 0 (NewClock []) = Return t" "clock_rep (Some t)"
    "clock_entries t = (if 0 = x then clock_entries (NewClock []) else (clock_entries (NewClock []))(node \<mapsto> x))"
    by auto
  then show thesis
    by (intro that [of t]) (auto simp: NewClock_def)
qed

lemma clock_entries_val: "clock_val (Some c) n = (case clock_entries c n of None \<Rightarrow> 0 | Some v \<Rightarrow> sint v)"
  by (simp add: clock_val_def Clock_Get_Some mget_def split: option.split)

lemma rebuild_step:
  assumes "clock_ok (Some clk)" and "0 \<le> sint x" and "n \<notin> dom (clock_entries clk)"
  obtains c where "rebuild_range ((n, x) # data) clk = rebuild_range data c" "clock_ok (Some c)"
    "clock_entries c = (if x = 0 then clock_entries clk else (clock_entries clk)(n \<mapsto> x))"
proof -
  obtain t where t: "inc_loop n x 0 (NewClock []) = Return t" "clock_rep (Some t)"
    "clock_entries t = (if x = 0 then Map.empty else [n \<mapsto> x])"
    using inc_loop_NewClock [OF assms(2)] by blast
  let ?c = "clock_merged clk t"
  have ok_t: "clock_ok (Some t)"
    using t(2,3) assms(2) by (intro clock_okI) (auto simp: clock_entries_val split: option.split)
  have ok: "clock_ok (Some ?c)" by (rule clock_merged_ok [OF assms(1) ok_t])
  have wf: "mwf (entries (clock t))" using t(2) by (simp add: clock_rep_Some)
  have dom: "dom (clock_entries ?c) = dom (clock_entries clk) \<union> (if x = 0 then {} else {n})"
    using signed.merge_range_dom [OF wf, of "entries (clock clk)"] t(3) assms(2)
    by (auto simp: entries_clock_merged mget_def)
  have "clock_entries ?c = (if x = 0 then clock_entries clk else (clock_entries clk)(n \<mapsto> x))"
  proof
    fix k
    have "sint (mget (entries (clock ?c)) k) =
          (if k = n \<and> x \<noteq> 0 then sint x else sint (mget (entries (clock clk)) k))"
    proof (cases "k = n \<and> x \<noteq> 0")
      case True
      then have "mget (entries (clock t)) k = x" "mget (entries (clock clk)) k = 0"
        "k \<in> dom (clock_entries t)"
        using t(3) assms(3) by (auto simp: mget_def domIff)
      then show ?thesis
        using True assms(2) by (simp add: entries_clock_merged signed.merge_range_get [OF wf])
    next
      case False
      then have "k \<notin> dom (clock_entries t)" using t(3) by auto
      then show ?thesis
        using False by (auto simp: entries_clock_merged signed.merge_range_get [OF wf])
    qed
    then have "mget (entries (clock ?c)) k = (if k = n \<and> x \<noteq> 0 then x else mget (entries (clock clk)) k)"
      by (auto simp: signed.val_inj split: if_splits)
    moreover have "k \<in> dom (clock_entries ?c) \<longleftrightarrow> k \<in> dom (clock_entries clk) \<or> (k = n \<and> x \<noteq> 0)"
      using dom by auto
    ultimately show "clock_entries ?c k = (if x = 0 then clock_entries clk else (clock_entries clk)(n \<mapsto> x)) k"
      by (auto simp: mget_def domIff split: option.splits if_splits)
  qed
  moreover have "rebuild_range ((n, x) # data) clk = rebuild_range data ?c"
    using assms(2) t(1) by (simp add: Clock_Merge_Some)
  ultimately show thesis using that ok by blast
qed

text \<open>The rebuilt clock has the entries of the map that are not zero.\<close>

lemma rebuild_range_ok:
  assumes "mwf data" and "\<forall>(n, x) \<in> set data. 0 \<le> sint x" and "clock_ok (Some clk)"
    and "dom (map_of data) \<inter> dom (clock_entries clk) = {}"
  shows "\<exists>c. rebuild_range data clk = Return (Inr c) \<and> clock_ok (Some c) \<and>
     clock_entries c = (\<lambda>n. case map_of data n of
        Some x \<Rightarrow> if x = 0 then clock_entries clk n else Some x | None \<Rightarrow> clock_entries clk n)"
  using assms
proof (induction data arbitrary: clk)
  case (Cons p data)
  obtain n x where p: "p = (n, x)" by fastforce
  have "n \<notin> dom (clock_entries clk)" "0 \<le> sint x"
    using Cons.prems(2,4) p by auto
  with rebuild_step [OF Cons.prems(3), of x n data] obtain c where
    c: "rebuild_range (p # data) clk = rebuild_range data c" "clock_ok (Some c)"
    "clock_entries c = (if x = 0 then clock_entries clk else (clock_entries clk)(n \<mapsto> x))"
    using p by blast
  have n: "map_of data n = None" and "mwf data"
    using Cons.prems(1) p by (auto simp: mwf_Cons)
  moreover have "dom (map_of data) \<inter> dom (clock_entries c) = {}"
    using Cons.prems(4) n unfolding c(3) p dom_map_of_Cons by auto
  ultimately obtain d where "rebuild_range data c = Return (Inr d)" "clock_ok (Some d)"
    "clock_entries d = (\<lambda>n. case map_of data n of
        Some x \<Rightarrow> if x = 0 then clock_entries c n else Some x | None \<Rightarrow> clock_entries c n)"
    using Cons.IH [of c] Cons.prems(2) c(2) by auto
  then show ?case
    using c(1,3) n p by (auto simp: fun_eq_iff split: option.split)
qed simp

lemma rebuild_range_negative:
  assumes "\<exists>(n, x) \<in> set data. sint x < 0" and "mwf data" and "clock_ok (Some clk)"
    and "dom (map_of data) \<inter> dom (clock_entries clk) = {}"
  shows "\<exists>n x. rebuild_range data clk = Return (Inl (NegativeClockValue n x)) \<and>
           (n, x) \<in> set data \<and> sint x < 0"
  using assms
proof (induction data arbitrary: clk)
  case (Cons p data)
  obtain n x where p: "p = (n, x)" by fastforce
  show ?case
  proof (cases "sint x < 0")
    case True
    then show ?thesis using p by auto
  next
    case False
    have "n \<notin> dom (clock_entries clk)"
      using Cons.prems(4) p by auto
    with rebuild_step [OF Cons.prems(3), of x n data] False obtain c where
      c: "rebuild_range (p # data) clk = rebuild_range data c" "clock_ok (Some c)"
      "clock_entries c = (if x = 0 then clock_entries clk else (clock_entries clk)(n \<mapsto> x))"
      using p by (metis not_less)
    have "map_of data n = None" "mwf data"
      using Cons.prems(2) p by (auto simp: mwf_Cons)
    then have "dom (map_of data) \<inter> dom (clock_entries c) = {}"
      using Cons.prems(4) unfolding c(3) p dom_map_of_Cons by auto
    with Cons.IH [of c] Cons.prems(1) False p c(1,2) \<open>mwf data\<close> show ?thesis by auto
  qed
qed simp

text \<open>Rebuilding a clock never panics: a negative counter is an error, otherwise there is a clock.\<close>

lemma rebuild_total:
  assumes "mwf d"
  shows "(\<exists>n x. rebuild_range d (NewClock []) = Return (Inl (NegativeClockValue n x)) \<and>
      (n, x) \<in> set d \<and> sint x < 0) \<or>
    (\<exists>k. rebuild_range d (NewClock []) = Return (Inr k) \<and> clock_ok (Some k) \<and>
      (\<forall>(n, x) \<in> set d. 0 \<le> sint x))"
proof -
  have disj: "dom (map_of d) \<inter> dom (clock_entries (NewClock [])) = {}"
    by (simp add: NewClock_def)
  show ?thesis
  proof (cases "\<exists>(n, x) \<in> set d. sint x < 0")
    case True
    from rebuild_range_negative [OF this assms NewClock_ok disj] show ?thesis by blast
  next
    case False
    then have nonneg: "\<forall>(n, x) \<in> set d. 0 \<le> sint x" by fastforce
    from rebuild_range_ok [OF assms this NewClock_ok disj] nonneg show ?thesis by blast
  qed
qed

lemma map_of_clock_data_range:
  "map_of (clock_data_range c ns d) = (\<lambda>n. if n \<in> set ns then Some (Clock_Get c n) else map_of d n)"
  by (induction ns arbitrary: d) auto

lemma mwf_clock_data_range: "mwf d \<Longrightarrow> mwf (clock_data_range c ns d)"
  by (induction ns arbitrary: d) auto

text \<open>The helper holds exactly the entries of the clock.\<close>

lemma to_helper_clock:
  assumes "clock_rep c" and "MClock m = c"
  shows "mwf (entries (hClockData (to_helper m)))"
    and "map_of (entries (hClockData (to_helper m))) = map_of (entries (clock_map c))"
proof -
  show "mwf (entries (hClockData (to_helper m)))"
    by (simp add: to_helper_def mwf_clock_data_range)
  show "map_of (entries (hClockData (to_helper m))) = map_of (entries (clock_map c))"
    using assms by (cases c)
      (auto simp: to_helper_def map_of_clock_data_range Clock_Nodes_dom finite_dom_map_of
        Clock_Get_mget mget_def fun_eq_iff domIff)
qed

text \<open>Rebuilding from the helper of a message gives its clock back, less the zero entries.\<close>

lemma rebuild_to_helper:
  assumes "clock_ok c" and "MClock m = c"
    and "map_of (entries d) = map_of (entries (hClockData (to_helper m)))" and "mwf (entries d)"
  shows "\<exists>k. rebuild_range (entries d) (NewClock []) = Return (Inr k) \<and> clock_ok (Some k) \<and>
     (\<forall>n. Clock_Get (Some k) n = Clock_Get c n) \<and>
     set (Clock_Nodes (Some k)) = {n. Clock_Get c n \<noteq> 0}"
proof -
  have d: "map_of (entries d) = map_of (entries (clock_map c))"
    using assms(3) to_helper_clock(2) [OF clock_ok_rep [OF assms(1)] assms(2)] by simp
  have "\<forall>(n, x) \<in> set (entries d). 0 \<le> sint x"
  proof clarify
    fix n x
    assume "(n, x) \<in> set (entries d)"
    then have "Clock_Get c n = x"
      using mwf_mget [OF assms(4)] mget_cong [OF d] by (simp add: Clock_Get_mget)
    then show "0 \<le> sint x"
      using clock_ok_nonneg [OF assms(1), of n] by (simp add: clock_val_def)
  qed
  moreover have empty: "clock_entries (NewClock []) = Map.empty" by (simp add: NewClock_def)
  ultimately obtain k where k: "rebuild_range (entries d) (NewClock []) = Return (Inr k)"
    "clock_ok (Some k)"
    "clock_entries k = (\<lambda>n. case map_of (entries d) n of
        Some x \<Rightarrow> if x = 0 then clock_entries (NewClock []) n else Some x
      | None \<Rightarrow> clock_entries (NewClock []) n)"
    using rebuild_range_ok [OF assms(4) _ NewClock_ok [of "[]"]] by auto
  have "Clock_Get (Some k) n = Clock_Get c n" for n
    by (simp add: Clock_Get_mget mget_def k(3) d empty split: option.split)
  moreover have "set (Clock_Nodes (Some k)) = dom (clock_entries k)"
    using k(2) by (simp add: Clock_Nodes_dom clock_ok_rep finite_dom_map_of)
  moreover have "dom (clock_entries k) = {n. Clock_Get c n \<noteq> 0}"
    by (auto simp: k(3) d empty Clock_Get_mget mget_def split: option.splits if_splits)
  ultimately show ?thesis using k(1,2) by auto
qed

text \<open>Decoding the bytes of a valid message, whatever the library did to the time stamp.\<close>

lemma CBOR_decodes:
  assumes "Validate (Some m) = None" and "clock_ok (MClock m)"
    and "data \<noteq> []" and "length data \<le> MaxMessageSize" and "decMode s data = Inr h"
    and "hVersion h = Version m" and "hSenderID h = SenderID m" and "hPayload h = Payload m"
    and "map_of (entries (hClockData h)) = map_of (entries (hClockData (to_helper m)))"
    and "mwf (entries (hClockData h))"
    and "set (entries (hMetadata h)) = set (entries (Metadata m))"
  shows "\<exists>k. CBOR_Unmarshal s data = Return (Inr (from_helper h k)) \<and>
    Validate (Some (from_helper h k)) = None \<and> clock_ok (Some k) \<and>
    (\<forall>n. Clock_Get (Some k) n = Clock_Get (MClock m) n) \<and>
    set (Clock_Nodes (Some k)) = {n. Clock_Get (MClock m) n \<noteq> 0}"
proof -
  obtain k where k: "rebuild_range (entries (hClockData h)) (NewClock []) = Return (Inr k)"
    "clock_ok (Some k)" "\<forall>n. Clock_Get (Some k) n = Clock_Get (MClock m) n"
    "set (Clock_Nodes (Some k)) = {n. Clock_Get (MClock m) n \<noteq> 0}"
    using rebuild_to_helper [OF assms(2) refl assms(9,10)] by blast
  have valid: "Validate (Some (from_helper h k)) = None"
    using assms(1,6-8,11) by (simp add: Validate_ok message_ok_def from_helper_def)
  then have "CBOR_Unmarshal s data = Return (Inr (from_helper h k))"
    using assms(3-5) k(1) by (simp add: CBOR_Unmarshal_def Let_def)
  with valid k(2-4) show ?thesis
    by blast
qed

section \<open>Properties\<close>

text \<open>C14. Round trip through the CBOR serializer.  If the library encodes the helper struct of a
  valid message within the size limit, and decodes those bytes to a struct with the same
  fields (an empty metadata map may come back as nil), then \<open>Marshal\<close> returns the bytes and
  \<open>Unmarshal\<close> returns a valid message with the same version, sender, payload and metadata, a
  clock that compares equal and reads the same at every node, and the time stamp to the second
  if it is after the epoch.  Only nodes with a counter other than zero are left in the
  clock.\<close>

theorem CBOR_roundtrip:
  assumes "Validate (Some m) = None" and "clock_ok (MClock m)"
    and "encMode s (to_helper m) = Inr data" and "data \<noteq> []" and "length data \<le> MaxMessageSize"
    and "decMode s data = Inr h"
    and "hVersion h = Version m" and "hSenderID h = SenderID m" and "hPayload h = Payload m"
    and "hTimestamp h = hTimestamp (to_helper m)"
    and "map_of (entries (hClockData h)) = map_of (entries (hClockData (to_helper m)))"
    and "mwf (entries (hClockData h))"
    and "set (entries (hMetadata h)) = set (entries (Metadata m))"
  shows "CBOR_Marshal s (Some m) = Inr data \<and>
     (\<exists>m'. CBOR_Unmarshal s data = Return (Inr m') \<and> Validate (Some m') = None \<and>
        Version m' = Version m \<and> SenderID m' = SenderID m \<and> Payload m' = Payload m \<and>
        set (entries (Metadata m')) = set (entries (Metadata m)) \<and>
        Clock_Equal (MClock m') (MClock m) \<and>
        (\<forall>n. Clock_Get (MClock m') n = Clock_Get (MClock m) n) \<and>
        set (Clock_Nodes (MClock m')) = {n. Clock_Get (MClock m) n \<noteq> 0} \<and>
        (0 < sint (unix_sec (Timestamp m)) \<longrightarrow>
           unix_sec (Timestamp m') = unix_sec (Timestamp m)))"
proof -
  obtain k where k: "CBOR_Unmarshal s data = Return (Inr (from_helper h k))"
    "Validate (Some (from_helper h k)) = None" "clock_ok (Some k)"
    "\<forall>n. Clock_Get (Some k) n = Clock_Get (MClock m) n"
    "set (Clock_Nodes (Some k)) = {n. Clock_Get (MClock m) n \<noteq> 0}"
    using CBOR_decodes [OF assms(1,2,4-9,11-13)] by blast
  have "Clock_Equal (Some k) (MClock m)"
    using k(3,4) assms(2)
    by (simp add: Clock_Equal_def Clock_Compare_spec cmp_spec_def fun_eq_iff clock_val_def)
  moreover have "CBOR_Marshal s (Some m) = Inr data"
    using assms(1,3,5) by (simp add: CBOR_Marshal_def)
  moreover have "unix_sec (Timestamp (from_helper h k)) = unix_sec (Timestamp m)"
    if "0 < sint (unix_sec (Timestamp m))"
    using that assms(10) by (simp add: from_helper_def to_helper_def Time_IsZero_def Time_Unix_def)
  ultimately show ?thesis
    using k assms(7-9,13) by (auto simp: from_helper_def)
qed

theorem CBOR_roundtrip_witness:
  "\<exists>m'. CBOR_Unmarshal
      \<lparr>encMode = \<lambda>h. Inr [1],
       decMode = \<lambda>d. Inr (to_helper \<lparr>Version = 1, SenderID = ''n'', MClock = Some \<lparr>clock = Some [(''a'', 2), (''b'', 0)]\<rparr>,
         Payload = None, Timestamp = zero_time, Metadata = None\<rparr>)\<rparr> [1] = Return (Inr m') \<and>
     Clock_Get (MClock m') ''a'' = 2 \<and> set (Clock_Nodes (MClock m')) = {''a''}"
proof -
  let ?c = "Some \<lparr>clock = Some [(''a'', 2), (''b'', 0)]\<rparr>"
  let ?m = "\<lparr>Version = 1, SenderID = ''n'', MClock = ?c, Payload = None, Timestamp = zero_time, Metadata = None\<rparr>"
  let ?s = "\<lparr>encMode = \<lambda>h. Inr [1], decMode = \<lambda>d. Inr (to_helper ?m)\<rparr>"
  have valid: "Validate (Some ?m) = None"
    by (simp add: Validate_ok message_ok_def sender_ok_def)
  have ok: "clock_ok (MClock ?m)"
    by (simp add: clock_ok_def vwf_def mwf_def)
  have "{n. Clock_Get ?c n \<noteq> 0} = {''a''}" "Clock_Get ?c ''a'' = 2"
    by (auto simp: Clock_Get_def mget_def)
  moreover have enc: "encMode ?s (to_helper ?m) = Inr [1]" "[1] \<noteq> ([] :: byte list)"
    "length [1 :: byte] \<le> MaxMessageSize" "decMode ?s [1] = Inr (to_helper ?m)"
    by (simp_all add: MaxMessageSize_def)
  moreover have fields: "hVersion (to_helper ?m) = Version ?m" "hSenderID (to_helper ?m) = SenderID ?m"
    "hPayload (to_helper ?m) = Payload ?m"
    "set (entries (hMetadata (to_helper ?m))) = set (entries (Metadata ?m))"
    by (simp_all add: to_helper_def)
  moreover have wf: "mwf (entries (hClockData (to_helper ?m)))"
    by (rule to_helper_clock(1) [OF clock_ok_rep [OF ok] refl])
  ultimately show ?thesis
    using CBOR_roundtrip [OF valid ok enc fields(1-3) refl refl wf fields(4)] by fastforce
qed

text \<open>C22. Whatever bytes arrive and whatever the library decodes them to (a map in which no key
  occurs twice, as in any Go map), \<open>Unmarshal\<close> returns and does not panic: an error, or a
  message that passes \<open>Validate\<close>, whose clock has no negative counter.  Empty and oversized
  input and negative counters are always errors.\<close>

theorem CBOR_Unmarshal_safe:
  assumes "\<And>h. decMode s data = Inr h \<Longrightarrow> mwf (entries (hClockData h))"
  shows "(\<exists>e. CBOR_Unmarshal s data = Return (Inl e)) \<or>
     (\<exists>m. CBOR_Unmarshal s data = Return (Inr m) \<and> Validate (Some m) = None \<and>
        MClock m \<noteq> None \<and> clock_ok (MClock m) \<and>
        0 < length data \<and> length data \<le> MaxMessageSize \<and>
        (\<exists>h. decMode s data = Inr h \<and> (\<forall>(n, x) \<in> set (entries (hClockData h)). 0 \<le> sint x)))"
proof (cases "data = [] \<or> length data > MaxMessageSize \<or> (\<exists>e. decMode s data = Inl e)")
  case True
  then show ?thesis by (auto simp: CBOR_Unmarshal_def)
next
  case False
  then obtain h where h: "data \<noteq> []" "length data \<le> MaxMessageSize" "decMode s data = Inr h"
    by (cases "decMode s data") auto
  from rebuild_total [OF assms [OF h(3)]] show ?thesis
  proof
    assume "\<exists>k. rebuild_range (entries (hClockData h)) (NewClock []) = Return (Inr k) \<and>
      clock_ok (Some k) \<and> (\<forall>(n, x) \<in> set (entries (hClockData h)). 0 \<le> sint x)"
    then obtain k where "rebuild_range (entries (hClockData h)) (NewClock []) = Return (Inr k)"
      "clock_ok (Some k)" "\<forall>(n, x) \<in> set (entries (hClockData h)). 0 \<le> sint x"
      by blast
    then show ?thesis
      using h by (cases "Validate (Some (from_helper h k))")
        (auto simp: CBOR_Unmarshal_def Let_def from_helper_def)
  qed (use h in \<open>auto simp: CBOR_Unmarshal_def\<close>)
qed

theorem CBOR_Unmarshal_safe_witness:
  "\<exists>m. CBOR_Unmarshal \<lparr>encMode = \<lambda>h. Inr [1], decMode = \<lambda>d. Inr \<lparr>hVersion = 1, hSenderID = ''n'',
       hClockData = Some [(''a'', 0)], hPayload = None, hTimestamp = 0, hMetadata = None\<rparr>\<rparr> [1] =
     Return (Inr m) \<and> Validate (Some m) = None"
proof -
  let ?h = "\<lparr>hVersion = 1, hSenderID = ''n'', hClockData = Some [(''a'', 0)], hPayload = None,
    hTimestamp = 0, hMetadata = None\<rparr>"
  let ?s = "\<lparr>encMode = \<lambda>h. Inr [1], decMode = \<lambda>d. Inr ?h\<rparr>"
  have "mwf (entries (hClockData h))" if "decMode ?s [1] = Inr h" for h
    using that by (auto simp: mwf_def)
  note safe = CBOR_Unmarshal_safe [of ?s "[1]", OF this]
  obtain k where "rebuild_range [(''a'', 0)] (NewClock []) = Return (Inr k)"
    by (auto simp: Clock_Merge_Some inc_loop.simps)
  moreover have "Validate (Some (from_helper ?h k)) = None"
    by (simp add: Validate_ok message_ok_def sender_ok_def from_helper_def)
  ultimately have "\<nexists>e. CBOR_Unmarshal ?s [1] = Return (Inl e)"
    by (simp add: CBOR_Unmarshal_def MaxMessageSize_def Let_def del: rebuild_range.simps)
  with safe show ?thesis by blast
qed

text \<open>A registered serializer is found under its own name and hides only an earlier one of
  the same name; the default registry always has the JSON serializer, and the CBOR serializer
  exactly when its construction succeeded.\<close>

lemma Registry_lookup:
  "Registry_Get (Registry_Register name r s) n = (if n = name s then Some s else Registry_Get r n) \<and>
   Registry_Get (DefaultRegistry newCBOR) ''json'' = Some JSON \<and>
   Registry_Get (DefaultRegistry newCBOR) ''cbor'' = (case newCBOR of Inl e \<Rightarrow> None | Inr c \<Rightarrow> Some (CBOR c)) \<and>
   (n \<notin> {''json'', ''cbor''} \<longrightarrow> Registry_Get (DefaultRegistry newCBOR) n = None)"
  by (auto simp: Registry_Get_def Registry_Register_def DefaultRegistry_def NewRegistry_def
      Serializer_Name_def split: sum.split)

end
