(* ===== verification/Go_Json.thy ===== *)
theory Go_Json
  imports Go_Strings
begin

text \<open>
  What the message package uses of \<open>encoding/json\<close> and \<open>encoding/base64\<close>, as of Go 1.21:
  writing values as compact text with HTML escaping, reading the first value of a text, and the
  standard base64 encoding of byte slices.  A value that has been read is a tree; a number keeps
  its literal, because how it converts depends on the field it goes to.
\<close>

section \<open>UTF-8 encoding\<close>

text \<open>\<open>utf8.EncodeRune\<close>; surrogates and values past the last code point become U+FFFD.\<close>

definition encode_rune :: "nat \<Rightarrow> string" where
  "encode_rune r =
     (if r < 128 then [char_of r]
      else if r < 2048 then [char_of (192 + r div 64), char_of (128 + r mod 64)]
      else if 55296 \<le> r \<and> r < 57344 \<or> 1114112 \<le> r then
        [char_of (239 :: nat), char_of (191 :: nat), char_of (189 :: nat)]
      else if r < 65536 then
        [char_of (224 + r div 4096), char_of (128 + r div 64 mod 64), char_of (128 + r mod 64)]
      else
        [char_of (240 + r div 262144), char_of (128 + r div 4096 mod 64),
         char_of (128 + r div 64 mod 64), char_of (128 + r mod 64)])"

section \<open>Base64\<close>

definition b64_char :: "nat \<Rightarrow> char" where
  "b64_char n =
     (if n < 26 then char_of (65 + n)
      else if n < 52 then char_of (97 + (n - 26))
      else if n < 62 then char_of (48 + (n - 52))
      else if n = 62 then CHR ''+'' else CHR ''/'')"

definition b64_val :: "char \<Rightarrow> nat option" where
  "b64_val c =
     (let b = byte_of c in
      if 65 \<le> b \<and> b \<le> 90 then Some (b - 65)
      else if 97 \<le> b \<and> b \<le> 122 then Some (b - 97 + 26)
      else if 48 \<le> b \<and> b \<le> 57 then Some (b - 48 + 52)
      else if c = CHR ''+'' then Some 62
      else if c = CHR ''/'' then Some 63
      else None)"

fun base64_encode :: "byte list \<Rightarrow> string" where
  "base64_encode [] = []"
| "base64_encode [a] =
     (let v = unat a * 65536 in
      [b64_char (v div 262144), b64_char (v div 4096 mod 64), CHR ''='', CHR ''=''])"
| "base64_encode [a, b] =
     (let v = unat a * 65536 + unat b * 256 in
      [b64_char (v div 262144), b64_char (v div 4096 mod 64), b64_char (v div 64 mod 64), CHR ''=''])"
| "base64_encode (a # b # c # bs) =
     (let v = unat a * 65536 + unat b * 256 + unat c in
      [b64_char (v div 262144), b64_char (v div 4096 mod 64), b64_char (v div 64 mod 64),
       b64_char (v mod 64)] @ base64_encode bs)"

text \<open>
  Decoding ignores line breaks, wants every group of four characters complete, and accepts padding
  in the last group only; the bits that padding leaves over are not checked.
\<close>

fun b64_groups :: "string \<Rightarrow> byte list option" where
  "b64_groups [] = Some []"
| "b64_groups (c0 # c1 # c2 # c3 # cs) =
     (case (b64_val c0, b64_val c1) of
        (Some x0, Some x1) \<Rightarrow>
          (if c2 = CHR ''='' then
             (if c3 = CHR ''='' \<and> cs = [] then Some [of_nat ((x0 * 64 + x1) div 16)] else None)
           else if c3 = CHR ''='' then
             (case b64_val c2 of
                Some x2 \<Rightarrow>
                  if cs = [] then
                    (let v = x0 * 4096 + x1 * 64 + x2 in
                     Some [of_nat (v div 1024), of_nat (v div 4)])
                  else None
              | None \<Rightarrow> None)
           else
             (case (b64_val c2, b64_val c3) of
                (Some x2, Some x3) \<Rightarrow>
                  (let v = x0 * 262144 + x1 * 4096 + x2 * 64 + x3 in
                   map_option (\<lambda>bs. of_nat (v div 65536) # of_nat (v div 256) # of_nat v # bs)
                     (b64_groups cs))
              | _ \<Rightarrow> None))
      | _ \<Rightarrow> None)"
| "b64_groups _ = None"

definition base64_decode :: "string \<Rightarrow> byte list option" where
  "base64_decode s = b64_groups (filter (\<lambda>c. byte_of c \<noteq> 10 \<and> byte_of c \<noteq> 13) s)"

section \<open>Strings\<close>

definition hex_digit :: "nat \<Rightarrow> char" where
  "hex_digit n = (if n < 10 then char_of (48 + n) else char_of (97 + (n - 10)))"

definition hex_val :: "char \<Rightarrow> nat option" where
  "hex_val c =
     (let b = byte_of c in
      if 48 \<le> b \<and> b \<le> 57 then Some (b - 48)
      else if 97 \<le> b \<and> b \<le> 102 then Some (b - 97 + 10)
      else if 65 \<le> b \<and> b \<le> 70 then Some (b - 65 + 10)
      else None)"

text \<open>The escapes an ASCII character needs; the quoting loop copies the others.\<close>

definition quote_ascii :: "nat \<Rightarrow> string" where
  "quote_ascii b =
     (if b = 34 \<or> b = 92 then [CHR 0x5C, char_of b]
      else if b = 10 then [CHR 0x5C, CHR ''n'']
      else if b = 13 then [CHR 0x5C, CHR ''r'']
      else if b = 9 then [CHR 0x5C, CHR ''t'']
      else if b < 32 \<or> b = 60 \<or> b = 62 \<or> b = 38 then
        [CHR 0x5C, CHR ''u'', CHR ''0'', CHR ''0'', hex_digit (b div 16), hex_digit (b mod 16)]
      else [char_of b])"

function quote_body :: "string \<Rightarrow> string" where
  "quote_body s =
     (if s = [] then []
      else
        let r = fst (decode_rune s); n = snd (decode_rune s) in
        (if r < 128 then quote_ascii r
         else if r = rune_error \<and> n = 1 then [CHR 0x5C] @ ''ufffd''
         else if r = 8232 \<or> r = 8233 then [CHR 0x5C] @ ''u202'' @ [hex_digit (r mod 16)]
         else take n s) @
        quote_body (drop n s))"
  by pat_completeness auto
termination
  by (relation "measure length")
    (use decode_rune_width in \<open>auto simp: diff_less simp del: decode_rune.simps\<close>)

definition quote :: "string \<Rightarrow> string" where
  "quote s = [CHR 0x22] @ quote_body s @ [CHR 0x22]"

text \<open>Four hexadecimal digits, as after a \<open>u\<close> escape.\<close>

fun hex4 :: "string \<Rightarrow> (nat \<times> string) option" where
  "hex4 (a # b # c # d # s) =
     (case (hex_val a, hex_val b, hex_val c, hex_val d) of
        (Some w, Some x, Some y, Some z) \<Rightarrow> Some (w * 4096 + x * 256 + y * 16 + z, s)
      | _ \<Rightarrow> None)"
| "hex4 _ = None"

lemma hex4_length: "hex4 s = Some (r, t) \<Longrightarrow> length t < length s"
  by (cases s rule: hex4.cases) (auto split: option.splits)

text \<open>A pair of escapes that spells a code point above U+FFFF.\<close>

fun surrogate_pair :: "nat \<Rightarrow> string \<Rightarrow> (nat \<times> string) option" where
  "surrogate_pair hi (a # b # s) =
     (if a = CHR 0x5C \<and> b = CHR ''u'' then
        (case hex4 s of
           Some (lo, t) \<Rightarrow>
             if 55296 \<le> hi \<and> hi < 56320 \<and> 56320 \<le> lo \<and> lo < 57344
             then Some ((hi - 55296) * 1024 + (lo - 56320) + 65536, t) else None
         | None \<Rightarrow> None)
      else None)"
| "surrogate_pair hi _ = None"

lemma surrogate_pair_length: "surrogate_pair hi s = Some (r, t) \<Longrightarrow> length t < length s"
  by (cases "(hi, s)" rule: surrogate_pair.cases)
    (auto split: if_splits option.splits dest!: hex4_length)

definition simple_escape :: "char \<Rightarrow> char option" where
  "simple_escape c =
     (if c = CHR 0x22 \<or> c = CHR 0x5C \<or> c = CHR ''/'' then Some c
      else if c = CHR ''b'' then Some (char_of (8 :: nat))
      else if c = CHR ''f'' then Some (char_of (12 :: nat))
      else if c = CHR ''n'' then Some (char_of (10 :: nat))
      else if c = CHR ''r'' then Some (char_of (13 :: nat))
      else if c = CHR ''t'' then Some (char_of (9 :: nat))
      else None)"

text \<open>
  Reading a string, from behind the opening quote: the string and what follows the closing quote.
  Bytes that are not UTF-8 and surrogates without a partner become U+FFFD.
\<close>

function unquote :: "string \<Rightarrow> (string \<times> string) option" where
  "unquote s =
     (case s of
        [] \<Rightarrow> None
      | c # t \<Rightarrow>
          if c = CHR 0x22 then Some ([], t)
          else if c = CHR 0x5C then
            (case t of
               [] \<Rightarrow> None
             | e # t \<Rightarrow>
                 (case simple_escape e of
                    Some d \<Rightarrow> map_option (\<lambda>(x, y). (d # x, y)) (unquote t)
                  | None \<Rightarrow>
                      if e = CHR ''u'' then
                        (case hex4 t of
                           None \<Rightarrow> None
                         | Some (r, t) \<Rightarrow>
                             (case surrogate_pair r t of
                                Some (p, t) \<Rightarrow> map_option (\<lambda>(x, y). (encode_rune p @ x, y)) (unquote t)
                              | None \<Rightarrow> map_option (\<lambda>(x, y). (encode_rune r @ x, y)) (unquote t)))
                      else None))
          else if byte_of c < 32 then None
          else
            map_option (\<lambda>(x, y). (encode_rune (fst (decode_rune s)) @ x, y))
              (unquote (drop (snd (decode_rune s)) s)))"
  by pat_completeness auto
termination
  by (relation "measure length")
    (use decode_rune_width in \<open>auto dest!: hex4_length surrogate_pair_length simp del: decode_rune.simps\<close>)

declare quote_body.simps [simp del] unquote.simps [simp del]

section \<open>Values and their text\<close>

datatype json =
    JNull
  | JBool bool
  | JNumber string
  | JString string
  | JArray "json list"
  | JObject "(string \<times> json) list"

fun commas :: "string list \<Rightarrow> string" where
  "commas [] = []"
| "commas [x] = x"
| "commas (x # xs) = x @ CHR '','' # commas xs"

text \<open>The compact text of a value; the caller of the encoder sorts the keys of a map.\<close>

fun json_text :: "json \<Rightarrow> string" where
  "json_text JNull = ''null''"
| "json_text (JBool b) = (if b then ''true'' else ''false'')"
| "json_text (JNumber s) = s"
| "json_text (JString s) = quote s"
| "json_text (JArray vs) = ''['' @ commas (map json_text vs) @ '']''"
| "json_text (JObject ms) =
     ''{'' @ commas (map (\<lambda>(k, v). quote k @ CHR '':'' # json_text v) ms) @ ''}''"

section \<open>Tokens\<close>

datatype token =
    TLBrace | TRBrace | TLBrack | TRBrack | TColon | TComma
  | TNull | TBool bool | TNumber string | TString string

definition json_space :: "char \<Rightarrow> bool" where
  "json_space c \<longleftrightarrow> byte_of c \<in> {9, 10, 13, 32}"

text \<open>The digits at the front of a text.\<close>

fun span_digits :: "string \<Rightarrow> string \<times> string" where
  "span_digits [] = ([], [])"
| "span_digits (c # s) =
     (if is_digit c then (case span_digits s of (ds, t) \<Rightarrow> (c # ds, t)) else ([], c # s))"

text \<open>A number: an integer part without leading zeros, a fraction, an exponent.\<close>

definition lex_int :: "string \<Rightarrow> (string \<times> string) option" where
  "lex_int s =
     (case s of
        [] \<Rightarrow> None
      | c # t \<Rightarrow>
          if c = CHR ''0'' then Some ([c], t)
          else if is_digit c then Some (span_digits s)
          else None)"

definition lex_frac :: "string \<Rightarrow> (string \<times> string) option" where
  "lex_frac s =
     (case s of
        c # t \<Rightarrow>
          if c = CHR ''.'' then
            (case span_digits t of (ds, u) \<Rightarrow> if ds = [] then None else Some (c # ds, u))
          else Some ([], s)
      | [] \<Rightarrow> Some ([], []))"

definition lex_exp :: "string \<Rightarrow> (string \<times> string) option" where
  "lex_exp s =
     (case s of
        c # t \<Rightarrow>
          if c = CHR ''e'' \<or> c = CHR ''E'' then
            (let (sg, u) = (case t of d # u \<Rightarrow> if d = CHR ''+'' \<or> d = CHR ''-'' then ([d], u) else ([], t)
                            | [] \<Rightarrow> ([], []))
             in case span_digits u of (ds, w) \<Rightarrow> if ds = [] then None else Some (c # sg @ ds, w))
          else Some ([], s)
      | [] \<Rightarrow> Some ([], []))"

definition lex_number :: "string \<Rightarrow> (token \<times> string) option" where
  "lex_number s =
     (let (sg, t) = (case s of c # u \<Rightarrow> if c = CHR ''-'' then ([c], u) else ([], s) | [] \<Rightarrow> ([], [])) in
      case lex_int t of
        None \<Rightarrow> None
      | Some (i, t) \<Rightarrow>
          (case lex_frac t of
             None \<Rightarrow> None
           | Some (f, t) \<Rightarrow>
               (case lex_exp t of
                  None \<Rightarrow> None
                | Some (e, t) \<Rightarrow> Some (TNumber (sg @ i @ f @ e), t))))"

definition lex_word :: "string \<Rightarrow> token \<Rightarrow> string \<Rightarrow> (token \<times> string) option" where
  "lex_word w tok s = (if take (length w) s = w then Some (tok, drop (length w) s) else None)"

text \<open>The next token, from a character that is not white space.\<close>

definition lex_token :: "string \<Rightarrow> (token \<times> string) option" where
  "lex_token s =
     (case s of
        [] \<Rightarrow> None
      | c # t \<Rightarrow>
          if c = CHR ''{'' then Some (TLBrace, t)
          else if c = CHR ''}'' then Some (TRBrace, t)
          else if c = CHR ''['' then Some (TLBrack, t)
          else if c = CHR '']'' then Some (TRBrack, t)
          else if c = CHR '':'' then Some (TColon, t)
          else if c = CHR '','' then Some (TComma, t)
          else if c = CHR 0x22 then map_option (\<lambda>(x, u). (TString x, u)) (unquote t)
          else if c = CHR ''n'' then lex_word ''null'' TNull s
          else if c = CHR ''t'' then lex_word ''true'' (TBool True) s
          else if c = CHR ''f'' then lex_word ''false'' (TBool False) s
          else lex_number s)"

section \<open>Reading a value\<close>

text \<open>
  The reader keeps a stack of the arrays and objects it is inside of, as the scanner of the library
  does, and what it expects next.  An object on the stack carries the key whose value is being
  read.
\<close>

datatype frame =
    InArray "json list"
  | InObject "(string \<times> json) list" string

datatype expect =
    ExpValue
  | ExpFirst
  | ExpFirstKey
  | ExpKey
  | ExpColon
  | ExpEnd

datatype reading =
    Failed
  | Complete json
  | Continue "frame list" expect

definition max_nesting :: nat where
  "max_nesting = 10000"

fun complete :: "json \<Rightarrow> frame list \<Rightarrow> reading" where
  "complete v [] = Complete v"
| "complete v (InArray vs # st) = Continue (InArray (vs @ [v]) # st) ExpEnd"
| "complete v (InObject ms k # st) = Continue (InObject (ms @ [(k, v)]) k # st) ExpEnd"

definition open_frame :: "frame \<Rightarrow> expect \<Rightarrow> frame list \<Rightarrow> reading" where
  "open_frame f e st =
     (if length st < max_nesting then Continue (f # st) e else Failed)"

fun read_value :: "token \<Rightarrow> frame list \<Rightarrow> reading" where
  "read_value TNull st = complete JNull st"
| "read_value (TBool b) st = complete (JBool b) st"
| "read_value (TNumber n) st = complete (JNumber n) st"
| "read_value (TString s) st = complete (JString s) st"
| "read_value TLBrack st = open_frame (InArray []) ExpFirst st"
| "read_value TLBrace st = open_frame (InObject [] []) ExpFirstKey st"
| "read_value _ st = Failed"

fun read_key :: "token \<Rightarrow> frame list \<Rightarrow> reading" where
  "read_key (TString k) (InObject ms k' # st) = Continue (InObject ms k # st) ExpColon"
| "read_key _ _ = Failed"

fun feed :: "expect \<Rightarrow> token \<Rightarrow> frame list \<Rightarrow> reading" where
  "feed ExpValue t st = read_value t st"
| "feed ExpFirst t st =
     (if t = TRBrack then (case st of InArray vs # st' \<Rightarrow> complete (JArray vs) st' | _ \<Rightarrow> Failed)
      else read_value t st)"
| "feed ExpFirstKey t st =
     (if t = TRBrace then (case st of InObject ms k # st' \<Rightarrow> complete (JObject ms) st' | _ \<Rightarrow> Failed)
      else read_key t st)"
| "feed ExpKey t st = read_key t st"
| "feed ExpColon t st = (if t = TColon then Continue st ExpValue else Failed)"
| "feed ExpEnd t st =
     (case st of
        InArray vs # st' \<Rightarrow>
          if t = TComma then Continue st ExpValue
          else if t = TRBrack then complete (JArray vs) st'
          else Failed
      | InObject ms k # st' \<Rightarrow>
          if t = TComma then Continue st ExpKey
          else if t = TRBrace then complete (JObject ms) st'
          else Failed
      | [] \<Rightarrow> Failed)"

text \<open>Every token takes at least one character.\<close>

lemma span_digits_length: "span_digits s = (ds, t) \<Longrightarrow> length s = length ds + length t"
  by (induction s arbitrary: ds t) (auto split: if_splits prod.splits)

lemma lex_int_length: "lex_int s = Some (i, t) \<Longrightarrow> length t < length s"
  by (auto simp: lex_int_def split: list.splits if_splits prod.splits dest!: span_digits_length)

lemma lex_frac_length: "lex_frac s = Some (f, t) \<Longrightarrow> length t \<le> length s"
  by (auto simp: lex_frac_def split: list.splits if_splits prod.splits dest!: span_digits_length)

lemma lex_exp_length: "lex_exp s = Some (e, t) \<Longrightarrow> length t \<le> length s"
  by (auto simp: lex_exp_def Let_def split: list.splits if_splits prod.splits dest!: span_digits_length)

lemma lex_number_length: "lex_number s = Some (tok, t) \<Longrightarrow> length t < length s"
  by (fastforce simp: lex_number_def Let_def split: list.splits if_splits prod.splits option.splits
      dest!: lex_int_length lex_frac_length lex_exp_length)

text \<open>One step of reading a string, by its first character.\<close>

lemma unquote_Nil [simp]: "unquote [] = None"
  by (simp add: unquote.simps)

lemma unquote_end [simp]: "unquote (CHR 0x22 # t) = Some ([], t)"
  by (simp add: unquote.simps)

lemma unquote_escape:
  "unquote (CHR 0x5C # t) =
     (case t of
        [] \<Rightarrow> None
      | e # t \<Rightarrow>
          (case simple_escape e of
             Some d \<Rightarrow> map_option (\<lambda>(x, y). (d # x, y)) (unquote t)
           | None \<Rightarrow>
               if e = CHR ''u'' then
                 (case hex4 t of
                    None \<Rightarrow> None
                  | Some (r, t) \<Rightarrow>
                      (case surrogate_pair r t of
                         Some (p, t) \<Rightarrow> map_option (\<lambda>(x, y). (encode_rune p @ x, y)) (unquote t)
                       | None \<Rightarrow> map_option (\<lambda>(x, y). (encode_rune r @ x, y)) (unquote t)))
               else None))"
  by (subst unquote.simps) simp

lemma unquote_plain:
  "c \<noteq> CHR 0x22 \<Longrightarrow> c \<noteq> CHR 0x5C \<Longrightarrow>
   unquote (c # t) =
     (if byte_of c < 32 then None
      else map_option (\<lambda>(x, y). (encode_rune (fst (decode_rune (c # t))) @ x, y))
        (unquote (drop (snd (decode_rune (c # t))) (c # t))))"
  by (subst unquote.simps) (simp del: decode_rune.simps)

lemma unquote_length: "unquote s = Some (x, t) \<Longrightarrow> length t < length s"
proof (induction s arbitrary: x t rule: measure_induct_rule [of length])
  case (less s)
  show ?case
  proof (cases s)
    case (Cons c u)
    consider "c = CHR 0x22" | "c = CHR 0x5C" | "c \<noteq> CHR 0x22" "c \<noteq> CHR 0x5C"
      by blast
    then show ?thesis
    proof cases
      case 1
      with less.prems Cons show ?thesis by simp
    next
      case 2
      have *: "\<And>v y z. length v < length s \<Longrightarrow> unquote v = Some (y, z) \<Longrightarrow> length z < length s"
        using less.IH less_trans by blast
      show ?thesis
        using less.prems unfolding Cons 2 unquote_escape
        by (auto split: list.splits option.splits if_splits
            dest!: hex4_length surrogate_pair_length * [unfolded Cons, rotated])
    next
      case 3
      let ?d = "drop (snd (decode_rune s)) s"
      obtain y where y: "unquote ?d = Some (y, t)"
        using less.prems 3 unfolding Cons
        by (auto simp: unquote_plain simp del: decode_rune.simps split: if_splits)
      have "length ?d < length s"
        using decode_rune_width [of s] Cons by (auto simp del: decode_rune.simps)
      with less.IH [OF this y] show ?thesis by simp
    qed
  qed (use less.prems in simp)
qed

lemma lex_word_length: "lex_word (c # w) k s = Some (tok, t) \<Longrightarrow> s \<noteq> [] \<Longrightarrow> length t < length s"
  by (cases s) (auto simp: lex_word_def split: if_splits)

lemma lex_token_length:
  assumes "lex_token s = Some (tok, t)"
  shows "length t < length s"
proof (cases s)
  case (Cons c u)
  with assms show ?thesis
    by (auto simp: lex_token_def split: if_splits
        dest!: unquote_length lex_number_length lex_word_length)
qed (use assms in \<open>simp add: lex_token_def\<close>)

text \<open>
  Reading the first value of a text.  Only what belongs to the value is read; the second component
  is the rest of the text.
\<close>

function json_run :: "expect \<Rightarrow> frame list \<Rightarrow> string \<Rightarrow> (json \<times> string) option" where
  "json_run e st s =
     (case s of
        [] \<Rightarrow> None
      | c # t \<Rightarrow>
          if json_space c then json_run e st t
          else
            (case lex_token s of
               None \<Rightarrow> None
             | Some (tok, u) \<Rightarrow>
                 (case feed e tok st of
                    Failed \<Rightarrow> None
                  | Complete v \<Rightarrow> Some (v, u)
                  | Continue st' e' \<Rightarrow> json_run e' st' u)))"
  by pat_completeness auto
termination
  by (relation "measure (\<lambda>(e, st, s). length s)") (auto dest!: lex_token_length)

declare json_run.simps [simp del]

definition json_parse :: "string \<Rightarrow> (json \<times> string) option" where
  "json_parse s = json_run ExpValue [] s"

section \<open>Base64 round trip\<close>

lemma b64_val_char: "n < 64 \<Longrightarrow> b64_val (b64_char n) = Some n"
  by (auto simp: b64_val_def b64_char_def Let_def)

lemma b64_char_plain:
  assumes "n < 64"
  shows "b64_char n \<noteq> CHR ''=''" "byte_of (b64_char n) \<noteq> (10 :: nat)" "byte_of (b64_char n) \<noteq> (13 :: nat)"
proof -
  show "b64_char n \<noteq> CHR ''=''"
    using b64_val_char [OF assms] by (auto simp: b64_val_def)
  show "byte_of (b64_char n) \<noteq> (10 :: nat)" "byte_of (b64_char n) \<noteq> (13 :: nat)"
    using assms by (auto simp: b64_char_def)
qed

lemma unat_byte_less [simp]: "unat (b :: byte) < 256"
  using unsigned_less [of b, where 'a = nat] by simp

lemma byte_of_nat_eqI: "n mod 256 = unat b \<Longrightarrow> of_nat n = (b :: byte)"
  by (simp add: word_unat_eq_iff unat_of_nat)

text \<open>Splitting 24 bits into four groups of six, and putting them together again.\<close>

lemma sextets:
  fixes v :: nat
  shows "v div 262144 * 262144 + v div 4096 mod 64 * 4096 + v div 64 mod 64 * 64 + v mod 64 = v"
proof -
  have "v div 64 div 64 = v div 4096" "v div 4096 div 64 = v div 262144"
    by (simp_all flip: div_mult2_eq)
  moreover have "v div 64 * 64 + v mod 64 = v" "v div 64 div 64 * 64 + v div 64 mod 64 = v div 64"
    "v div 4096 div 64 * 64 + v div 4096 mod 64 = v div 4096"
    by (rule div_mult_mod_eq)+
  ultimately show ?thesis by linarith
qed

lemma sextet_top: "v < 16777216 \<Longrightarrow> (v :: nat) div 262144 < 64"
  by (simp add: less_mult_imp_div_less)

text \<open>The three bytes of a 24-bit number.\<close>

lemma div_mod_256:
  fixes x :: nat
  assumes "y < 256"
  shows "(x * 256 + y) div 256 = x" "(x * 256 + y) mod 256 = y"
  using assms by simp_all

lemma octets:
  fixes a b c :: byte
  assumes "v = unat a * 65536 + unat b * 256 + unat c"
  shows "v < 16777216" "of_nat (v div 65536) = a" "of_nat (v div 256) = b" "of_nat v = c"
proof -
  have abc: "unat a < 256" "unat b < 256" "unat c < 256"
    by simp_all
  show "v < 16777216"
    using assms abc by linarith
  have v: "v = (unat a * 256 + unat b) * 256 + unat c"
    using assms by simp
  have d: "v div 256 = unat a * 256 + unat b" "v mod 256 = unat c"
    unfolding v by (rule div_mod_256 [OF abc(3)])+
  have "v div 65536 = v div 256 div 256"
    by (simp flip: div_mult2_eq)
  then have "v div 65536 = unat a"
    by (simp only: d div_mod_256 [OF abc(2)])
  then show "of_nat (v div 65536) = a"
    by simp
  show "of_nat (v div 256) = b" "of_nat v = c"
    by (intro byte_of_nat_eqI; simp only: d div_mod_256 [OF abc(2)])+
qed

text \<open>The groups that are not full spell the same 24 bits, with zeros at the end.\<close>

lemma padded_bits:
  fixes v :: nat
  assumes "v mod 64 = 0"
  shows "(v div 262144 * 4096 + v div 4096 mod 64 * 64 + v div 64 mod 64) div 1024 = v div 65536"
    "(v div 262144 * 4096 + v div 4096 mod 64 * 64 + v div 64 mod 64) div 4 = v div 256"
    "v div 64 mod 64 = 0 \<Longrightarrow> (v div 262144 * 64 + v div 4096 mod 64) div 16 = v div 65536"
proof -
  let ?w = "v div 262144 * 4096 + v div 4096 mod 64 * 64 + v div 64 mod 64"
  have regroup: "(a * 4096 + b * 64 + c) * 64 = a * 262144 + b * 4096 + c * 64 + 0" for a b c :: nat
    by simp
  have w: "?w * 64 = v"
    unfolding regroup using sextets [of v, unfolded assms] .
  then have "?w = v div 64" by (metis nonzero_mult_div_cancel_right zero_neq_numeral)
  then show "?w div 1024 = v div 65536" "?w div 4 = v div 256"
    by (simp_all flip: div_mult2_eq)
  assume "v div 64 mod 64 = 0"
  with w have "(v div 262144 * 4096 + v div 4096 mod 64 * 64 + 0) * 64 = v"
    by (simp only:)
  moreover have "(a * 4096 + b * 64 + 0) * 64 = (a * 64 + b) * 4096" for a b :: nat
    by simp
  ultimately have "(v div 262144 * 64 + v div 4096 mod 64) * 4096 = v"
    by (simp only:)
  then have "v div 262144 * 64 + v div 4096 mod 64 = v div 4096"
    by (metis nonzero_mult_div_cancel_right zero_neq_numeral)
  then show "(v div 262144 * 64 + v div 4096 mod 64) div 16 = v div 65536"
    by (simp flip: div_mult2_eq)
qed

lemma b64_digits:
  fixes v :: nat
  assumes "v < 16777216"
  shows "b64_val (b64_char (v div 262144)) = Some (v div 262144)"
    "b64_val (b64_char (v div 4096 mod 64)) = Some (v div 4096 mod 64)"
    "b64_val (b64_char (v div 64 mod 64)) = Some (v div 64 mod 64)"
    "b64_val (b64_char (v mod 64)) = Some (v mod 64)"
    "b64_char (v div 64 mod 64) \<noteq> CHR ''=''" "b64_char (v mod 64) \<noteq> CHR ''=''"
  using sextet_top [OF assms]
  by (simp_all add: b64_val_char b64_char_plain)

lemma b64_groups_encode: "b64_groups (base64_encode bs) = Some bs"
proof (induction bs rule: base64_encode.induct)
  case (2 a)
  let ?v = "unat a * 65536"
  have v: "?v = unat a * 65536 + unat (0 :: byte) * 256 + unat (0 :: byte)" by simp
  have z: "?v mod 64 = 0" "?v div 64 mod 64 = 0"
    using div_mult1_eq [of "unat a" 65536 64] by simp_all
  show ?case
    unfolding base64_encode.simps Let_def b64_groups.simps b64_digits [OF octets(1) [OF v]] option.case
      prod.case padded_bits(3) [OF z] octets(2) [OF v] by simp
next
  case (3 a b)
  let ?v = "unat a * 65536 + unat b * 256"
  have v: "?v = unat a * 65536 + unat b * 256 + unat (0 :: byte)" by simp
  have "?v = (unat a * 1024 + unat b * 4) * 64" by simp
  then have z: "?v mod 64 = 0" by (metis mod_mult_self2_is_0)
  have "b64_char (?v div 64 mod 64) \<noteq> CHR ''=''"
    by (rule b64_digits(5) [OF octets(1) [OF v]])
  then show ?case
    unfolding base64_encode.simps Let_def b64_groups.simps b64_digits [OF octets(1) [OF v]] option.case
      prod.case padded_bits(1,2) [OF z] octets(2,3) [OF v] by simp
next
  case (4 a b c bs)
  let ?v = "unat a * 65536 + unat b * 256 + unat c"
  note o = octets [of ?v a b c, OF refl]
  have n: "b64_char (?v div 64 mod 64) \<noteq> CHR ''=''" "b64_char (?v mod 64) \<noteq> CHR ''=''"
    by (rule b64_digits [OF o(1)])+
  show ?case
    unfolding base64_encode.simps Let_def append.simps b64_groups.simps b64_digits [OF o(1)] option.case
      prod.case sextets o(2-4) using n 4 by simp
qed simp

lemma b64_char_ascii: "byte_of (b64_char n) < 128"
  by (auto simp: b64_char_def)

lemma base64_encode_ascii: "list_all (\<lambda>c. byte_of c < 128) (base64_encode bs)"
  by (induction bs rule: base64_encode.induct) (simp_all add: Let_def b64_char_ascii)

lemma length_base64_encode: "length (base64_encode bs) = 4 * ((length bs + 2) div 3)"
proof (induction bs rule: base64_encode.induct)
  case (4 a b c bs)
  have "length (a # b # c # bs) + 2 = length bs + 2 + 3" by simp
  then have "(length (a # b # c # bs) + 2) div 3 = (length bs + 2) div 3 + 1"
    by (simp only: div_add_self2)
  with 4 show ?case by (simp only: base64_encode.simps Let_def length_append) simp
qed (simp_all add: Let_def)

lemma base64_encode_plain:
  "c \<in> set (base64_encode bs) \<Longrightarrow> byte_of c \<noteq> (10 :: nat) \<and> byte_of c \<noteq> (13 :: nat)"
proof (induction bs rule: base64_encode.induct)
  case (2 a)
  have "unat a * 65536 div 262144 < 64"
    using octets(1) [of "unat a * 65536" a 0 0] by (intro sextet_top) simp
  with 2 show ?case by (auto simp: Let_def b64_char_plain)
next
  case (3 a b)
  have "(unat a * 65536 + unat b * 256) div 262144 < 64"
    using octets(1) [of _ a b 0] by (intro sextet_top) simp
  with 3 show ?case by (auto simp: Let_def b64_char_plain)
next
  case (4 a b c bs)
  have "(unat a * 65536 + unat b * 256 + unat c) div 262144 < 64"
    using octets(1) [of _ a b c] by (intro sextet_top) simp
  with 4 show ?case by (auto simp: Let_def b64_char_plain)
qed simp

theorem base64_roundtrip: "base64_decode (base64_encode bs) = Some bs"
proof -
  have "filter (\<lambda>c. byte_of c \<noteq> 10 \<and> byte_of c \<noteq> 13) (base64_encode bs) = base64_encode bs"
    using base64_encode_plain by (simp add: filter_id_conv)
  then show ?thesis
    by (simp add: base64_decode_def b64_groups_encode)
qed

section \<open>Strings: writing and reading back\<close>

text \<open>\<open>utf8.ValidString\<close>, and the string in which every byte that is not part of a valid
  sequence has become U+FFFD.\<close>

function valid_utf8 :: "string \<Rightarrow> bool" where
  "valid_utf8 s \<longleftrightarrow>
     (if s = [] then True
      else decode_rune s \<noteq> (rune_error, 1) \<and> valid_utf8 (drop (snd (decode_rune s)) s))"
  by pat_completeness auto
termination
  by (relation "measure length") (use decode_rune_width in \<open>auto simp del: decode_rune.simps\<close>)

declare valid_utf8.simps [simp del]

definition coerce_utf8 :: "string \<Rightarrow> string" where
  "coerce_utf8 s = concat (map encode_rune (range_runes s))"

lemma mod_64_of_cont:
  "is_cont c \<Longrightarrow> byte_of c mod 64 = byte_of c - 128"
  "second_ok b c \<Longrightarrow> byte_of c mod 64 = byte_of c - 128"
  by (auto simp: is_cont_def second_ok_def le_mod_geq split: if_splits)

lemma radix_64:
  fixes x y z w :: nat
  assumes "y < 64"
  shows "(x * 64 + y) div 64 = x" "(x * 64 + y) mod 64 = y"
    "z < 64 \<Longrightarrow> (x * 4096 + y * 64 + z) div 64 = x * 64 + y"
    "z < 64 \<Longrightarrow> (x * 4096 + y * 64 + z) mod 64 = z"
    "z < 64 \<Longrightarrow> w < 64 \<Longrightarrow> (x * 262144 + y * 4096 + z * 64 + w) div 64 = x * 4096 + y * 64 + z"
    "z < 64 \<Longrightarrow> w < 64 \<Longrightarrow> (x * 262144 + y * 4096 + z * 64 + w) mod 64 = w"
proof -
  have dm: "(a * 64 + b) div 64 = a" "(a * 64 + b) mod 64 = b" if "b < 64" for a b :: nat
    using that by simp_all
  show "(x * 64 + y) div 64 = x" "(x * 64 + y) mod 64 = y"
    by (rule dm [OF assms])+
  have three: "x * 4096 + y * 64 + z = (x * 64 + y) * 64 + z"
    and four: "x * 262144 + y * 4096 + z * 64 + w = (x * 4096 + y * 64 + z) * 64 + w"
    by simp_all
  show "z < 64 \<Longrightarrow> (x * 4096 + y * 64 + z) div 64 = x * 64 + y"
    "z < 64 \<Longrightarrow> (x * 4096 + y * 64 + z) mod 64 = z"
    "z < 64 \<Longrightarrow> w < 64 \<Longrightarrow> (x * 262144 + y * 4096 + z * 64 + w) div 64 = x * 4096 + y * 64 + z"
    "z < 64 \<Longrightarrow> w < 64 \<Longrightarrow> (x * 262144 + y * 4096 + z * 64 + w) mod 64 = w"
    unfolding four three by (simp_all only: dm)
qed

lemma div_4096: "(v :: nat) div 4096 = v div 64 div 64" "v div 262144 = v div 64 div 64 div 64"
  by (simp_all flip: div_mult2_eq)

text \<open>A rune that was decoded from valid bytes is encoded to the same bytes.\<close>

lemma char_of_sum: "byte_of c = n \<Longrightarrow> char_of n = c"
  by auto

lemma encode_decode_2:
  assumes "194 \<le> byte_of c0" "byte_of c0 \<le> 223" "is_cont c1"
  shows "encode_rune (byte_of c0 mod 32 * 64 + byte_of c1 mod 64) = [c0, c1]"
proof -
  let ?x = "byte_of c0 - 192" and ?y = "byte_of c1 - 128"
  have m: "byte_of c0 mod 32 = ?x"
    using assms(1,2) by (simp add: le_mod_geq)
  have c1: "128 \<le> byte_of c1" "byte_of c1 \<le> 191"
    using assms(3) by (auto simp: is_cont_def)
  then have b: "?y < 64" "128 \<le> ?x * 64 + ?y" "?x * 64 + ?y < 2048"
    using assms(1,2) by auto
  have "char_of (192 + ?x) = c0" "char_of (128 + ?y) = c1"
    using assms(1) c1 by (simp_all add: char_of_sum)
  then show ?thesis
    unfolding m mod_64_of_cont(1) [OF assms(3)] encode_rune_def radix_64 [OF b(1)]
    using b(2,3) by simp
qed

lemma encode_decode_3:
  assumes "224 \<le> byte_of c0" "byte_of c0 \<le> 239" "second_ok (byte_of c0) c1" "is_cont c2"
  shows "encode_rune (byte_of c0 mod 16 * 4096 + byte_of c1 mod 64 * 64 + byte_of c2 mod 64) = [c0, c1, c2]"
proof -
  let ?x = "byte_of c0 - 224" and ?y = "byte_of c1 - 128" and ?z = "byte_of c2 - 128"
  let ?r = "?x * 4096 + ?y * 64 + ?z"
  have m: "byte_of c0 mod 16 = ?x"
    using assms(1,2) by (simp add: le_mod_geq)
  have c1: "128 \<le> byte_of c1" "byte_of c1 \<le> 191" "byte_of c0 = 224 \<longrightarrow> 160 \<le> byte_of c1"
      "byte_of c0 = 237 \<longrightarrow> byte_of c1 \<le> 159"
    using assms(3) by (auto simp: second_ok_def split: if_splits)
  have c2: "128 \<le> byte_of c2" "byte_of c2 \<le> 191"
    using assms(4) by (auto simp: is_cont_def)
  have b: "?y < 64" "?z < 64" "2048 \<le> ?r" "?r < 65536"
    using assms(1,2) c1 c2 by linarith+
  consider "byte_of c0 \<le> 236" | "byte_of c0 = 237" | "238 \<le> byte_of c0"
    by linarith
  then have s: "\<not> (55296 \<le> ?r \<and> ?r < 57344)"
    using assms(1) c1 c2 by cases linarith+
  have "char_of (224 + ?x) = c0" "char_of (128 + ?y) = c1" "char_of (128 + ?z) = c2"
    using assms(1) c1 c2 by (simp_all add: char_of_sum)
  then show ?thesis
    unfolding m mod_64_of_cont(1) [OF assms(4)] mod_64_of_cont(2) [OF assms(3)] encode_rune_def
      div_4096 radix_64(3,4) [OF b(1,2)] radix_64(1,2) [OF b(1)]
    using b(3,4) s by auto
qed

lemma encode_decode_4:
  assumes "240 \<le> byte_of c0" "byte_of c0 \<le> 244" "second_ok (byte_of c0) c1" "is_cont c2" "is_cont c3"
  shows "encode_rune (byte_of c0 mod 8 * 262144 + byte_of c1 mod 64 * 4096 + byte_of c2 mod 64 * 64 +
    byte_of c3 mod 64) = [c0, c1, c2, c3]"
proof -
  let ?x = "byte_of c0 - 240" and ?y = "byte_of c1 - 128" and ?z = "byte_of c2 - 128"
    and ?w = "byte_of c3 - 128"
  let ?r = "?x * 262144 + ?y * 4096 + ?z * 64 + ?w"
  have m: "byte_of c0 mod 8 = ?x"
    using assms(1,2) by (simp add: le_mod_geq)
  have c1: "128 \<le> byte_of c1" "byte_of c1 \<le> 191" "byte_of c0 = 240 \<longrightarrow> 144 \<le> byte_of c1"
      "byte_of c0 = 244 \<longrightarrow> byte_of c1 \<le> 143"
    using assms(3) by (auto simp: second_ok_def split: if_splits)
  have c2: "128 \<le> byte_of c2" "byte_of c2 \<le> 191" "128 \<le> byte_of c3" "byte_of c3 \<le> 191"
    using assms(4,5) by (auto simp: is_cont_def)
  have b: "?y < 64" "?z < 64" "?w < 64" "65536 \<le> ?r" "?r < 1114112"
    using assms(1,2) c1 c2 by linarith+
  have "char_of (240 + ?x) = c0" "char_of (128 + ?y) = c1" "char_of (128 + ?z) = c2" "char_of (128 + ?w) = c3"
    using assms(1) c1 c2 by (simp_all add: char_of_sum)
  then show ?thesis
    unfolding m mod_64_of_cont(1) [OF assms(4)] mod_64_of_cont(1) [OF assms(5)]
      mod_64_of_cont(2) [OF assms(3)] encode_rune_def div_4096
      radix_64(5,6) [OF b(1-3)] radix_64(3,4) [OF b(1,2)] radix_64(1,2) [OF b(1)]
    using b(4,5) by simp
qed

lemma encode_decode_rune:
  assumes "decode_rune s = (r, n)" "s \<noteq> []" "(r, n) \<noteq> (rune_error, 1)"
  shows "encode_rune r = take n s" and "decode_rune (take n s @ t) = (r, n)"
proof -
  obtain c0 s' where s: "s = c0 # s'"
    using assms(2) by (cases s) auto
  show "encode_rune r = take n s"
    using assms unfolding s
    by (auto simp: Let_def encode_decode_2 encode_decode_3 encode_decode_4 split: if_splits list.splits)
      (simp add: encode_rune_def)
  show "decode_rune (take n s @ t) = (r, n)"
    using assms unfolding s by (auto simp: Let_def split: if_splits list.splits)
qed

lemma coerce_utf8_step:
  "s \<noteq> [] \<Longrightarrow> coerce_utf8 s = encode_rune (fst (decode_rune s)) @ coerce_utf8 (drop (snd (decode_rune s)) s)"
  unfolding coerce_utf8_def by (subst range_runes.simps) (simp del: decode_rune.simps)

lemma coerce_utf8_Nil [simp]: "coerce_utf8 [] = []"
  by (simp add: coerce_utf8_def)

lemma coerce_valid_utf8: "valid_utf8 s \<Longrightarrow> coerce_utf8 s = s"
proof (induction s rule: valid_utf8.induct)
  case (1 s)
  show ?case
  proof (cases "s = []")
    case False
    obtain r n where d: "decode_rune s = (r, n)" by fastforce
    have "(r, n) \<noteq> (rune_error, 1)" "valid_utf8 (drop n s)"
      using "1.prems" False d by (simp_all add: valid_utf8.simps [of s])
    with 1 False d encode_decode_rune(1) [OF d False] show ?thesis
      by (simp add: coerce_utf8_step)
  qed simp
qed

lemma valid_utf8_Nil [simp]: "valid_utf8 []"
  by (simp add: valid_utf8.simps)

lemma valid_utf8_ascii_Cons: "byte_of c < 128 \<Longrightarrow> valid_utf8 (c # s) \<longleftrightarrow> valid_utf8 s"
  by (subst valid_utf8.simps) (simp add: rune_error_def)

lemma valid_utf8_ascii: "list_all (\<lambda>c. byte_of c < 128) s \<Longrightarrow> valid_utf8 s"
  by (induction s) (simp_all add: valid_utf8_ascii_Cons)

lemma coerce_ascii: "list_all (\<lambda>c. byte_of c < 128) s \<Longrightarrow> coerce_utf8 s = s"
  by (simp add: coerce_valid_utf8 valid_utf8_ascii)

lemma hex_val_digit: "n < 16 \<Longrightarrow> hex_val (hex_digit n) = Some n"
  by (auto simp: hex_val_def hex_digit_def Let_def)

lemma char_literals:
  "char_of (34 :: nat) = CHR 0x22" "char_of (92 :: nat) = CHR 0x5C"
  "char_of (56 :: nat) = CHR ''8''" "char_of (57 :: nat) = CHR ''9''"
  by (rule char_of_sum; simp)+

text \<open>Reading back the escapes that the writer uses.\<close>

lemma unquote_u_escape:
  assumes "hex4 (h @ t) = Some (r, t)" "r < 55296 \<or> 56320 \<le> r"
  shows "unquote (CHR 0x5C # CHR ''u'' # h @ t) = map_option (\<lambda>(x, y). (encode_rune r @ x, y)) (unquote t)"
proof -
  have "surrogate_pair r t = None"
    using assms(2) by (cases "(r, t)" rule: surrogate_pair.cases) (auto split: option.splits)
  then show ?thesis
    using assms(1) by (simp add: unquote_escape simple_escape_def)
qed

lemma unquote_quote_ascii:
  assumes "b < 128"
  shows "unquote (quote_ascii b @ t) = map_option (\<lambda>(x, y). (encode_rune b @ x, y)) (unquote t)"
proof -
  have e: "encode_rune b = [char_of b]"
    using assms by (simp add: encode_rune_def)
  consider "b = 34 \<or> b = 92 \<or> b = 10 \<or> b = 13 \<or> b = 9"
    | "b \<noteq> 34 \<and> b \<noteq> 92 \<and> b \<noteq> 10 \<and> b \<noteq> 13 \<and> b \<noteq> 9 \<and> (b < 32 \<or> b = 60 \<or> b = 62 \<or> b = 38)"
    | "32 \<le> b" "b \<noteq> 34" "b \<noteq> 92" "b \<noteq> 60" "b \<noteq> 62" "b \<noteq> 38"
    by linarith
  then show ?thesis
  proof cases
    case 1
    then show ?thesis
      using e by (elim disjE) (simp_all add: quote_ascii_def unquote_escape simple_escape_def char_literals)
  next
    case 2
    let ?h = "[CHR ''0'', CHR ''0'', hex_digit (b div 16), hex_digit (b mod 16)]"
    have "b div 16 < 16" using assms by (simp add: less_mult_imp_div_less)
    then have "hex4 (?h @ t) = Some (b, t)"
      using hex_val_digit by (simp add: hex_val_def)
    from unquote_u_escape [OF this] 2 assms show ?thesis
      by (simp add: quote_ascii_def)
  next
    case 3
    then have "char_of b \<noteq> CHR 0x22" "char_of b \<noteq> CHR 0x5C"
      using assms by (auto dest: arg_cong [where f = "of_char :: char \<Rightarrow> nat"])
    with 3 assms show ?thesis
      by (simp add: quote_ascii_def unquote_plain e)
  qed
qed

lemma quote_body_step:
  "s \<noteq> [] \<Longrightarrow> decode_rune s = (r, n) \<Longrightarrow>
   quote_body s =
     (if r < 128 then quote_ascii r
      else if r = rune_error \<and> n = 1 then [CHR 0x5C] @ ''ufffd''
      else if r = 8232 \<or> r = 8233 then [CHR 0x5C] @ ''u202'' @ [hex_digit (r mod 16)]
      else take n s) @ quote_body (drop n s)"
  by (simp add: quote_body.simps [of s])

lemma quote_body_Nil [simp]: "quote_body [] = []"
  by (simp add: quote_body.simps)

text \<open>A byte takes at most six characters, and a string is never shorter quoted.\<close>

lemma length_quote_ascii: "1 \<le> length (quote_ascii b)" "length (quote_ascii b) \<le> 6"
  by (simp_all add: quote_ascii_def)

lemma decode_rune_widths:
  "snd (decode_rune s) \<le> 4" "fst (decode_rune s) < 128 \<Longrightarrow> snd (decode_rune s) \<le> 1"
proof -
  show "snd (decode_rune s) \<le> 4"
    by (cases s) (simp_all add: Let_def split: list.split)
  assume lt: "fst (decode_rune s) < 128"
  show "snd (decode_rune s) \<le> 1"
  proof (cases s)
    case (Cons c t)
    then have "byte_of c < 128"
      using lt decode_rune_high(1) [of c t] by (meson not_le)
    with Cons show ?thesis by simp
  qed simp
qed

lemma length_quote_body: "length s \<le> length (quote_body s) \<and> length (quote_body s) \<le> 6 * length s"
proof (induction s rule: quote_body.induct)
  case (1 s)
  show ?case
  proof (cases "s = []")
    case False
    obtain r n where d: "decode_rune s = (r, n)" by fastforce
    have n: "0 < n" "n \<le> length s" "n \<le> 4" "r < 128 \<Longrightarrow> n \<le> 1"
      using decode_rune_width [OF False] decode_rune_widths [of s] d by simp_all
    let ?q = "if r < 128 then quote_ascii r
      else if r = rune_error \<and> n = 1 then [CHR 0x5C] @ ''ufffd''
      else if r = 8232 \<or> r = 8233 then [CHR 0x5C] @ ''u202'' @ [hex_digit (r mod 16)]
      else take n s"
    have "n \<le> length ?q \<and> length ?q \<le> 6 * n"
      using n length_quote_ascii [of r] by auto
    moreover have "length (drop n s) \<le> length (quote_body (drop n s)) \<and>
        length (quote_body (drop n s)) \<le> 6 * length (drop n s)"
      using 1 [OF False refl refl] d by simp
    ultimately show ?thesis
      unfolding quote_body_step [OF False d] length_append length_drop using n(2) by linarith
  qed simp
qed

text \<open>One rune, whatever follows it.\<close>

lemma unquote_quote_rune:
  assumes "s \<noteq> []" "decode_rune s = (r, n)"
  shows "unquote ((if r < 128 then quote_ascii r
      else if r = rune_error \<and> n = 1 then [CHR 0x5C] @ ''ufffd''
      else if r = 8232 \<or> r = 8233 then [CHR 0x5C] @ ''u202'' @ [hex_digit (r mod 16)]
      else take n s) @ t) = map_option (\<lambda>(x, y). (encode_rune r @ x, y)) (unquote t)"
proof -
  consider "r < 128" | "r = rune_error" "n = 1" | "r = 8232" | "r = 8233"
    | "128 \<le> r" "\<not> (r = rune_error \<and> n = 1)" "r \<noteq> 8232" "r \<noteq> 8233"
    by linarith
  then show ?thesis
  proof cases
    case 1
    then show ?thesis by (simp add: unquote_quote_ascii)
  next
    case 2
    have "hex4 (''fffd'' @ t) = Some (65533, t)" by (simp add: hex_val_def)
    from unquote_u_escape [OF this] 2 show ?thesis
      by (simp add: rune_error_def)
  next
    case 3
    have "hex4 (''2028'' @ t) = Some (8232, t)" by (simp add: hex_val_def)
    from unquote_u_escape [OF this] 3 show ?thesis
      by (simp add: hex_digit_def rune_error_def char_literals)
  next
    case 4
    have "hex4 (''2029'' @ t) = Some (8233, t)" by (simp add: hex_val_def)
    from unquote_u_escape [OF this] 4 show ?thesis
      by (simp add: hex_digit_def rune_error_def char_literals)
  next
    case 5
    obtain c u where s: "s = c # u" using assms(1) by (cases s) auto
    have c: "128 \<le> byte_of c"
      using 5(1) assms(2) s by (cases "byte_of c < 128") auto
    have n: "0 < n" "n \<le> length s"
      using decode_rune_width [OF assms(1)] assms(2) by simp_all
    then obtain v where v: "take n s @ t = c # v"
      using s by (cases n) auto
    have d: "decode_rune (c # v) = (r, n)"
      using encode_decode_rune(2) [OF assms(2,1), of t] 5(2) v by simp
    have "drop n (c # v) = t"
      using n by (simp flip: v)
    moreover have "c \<noteq> CHR 0x22" "c \<noteq> CHR 0x5C"
      using c by auto
    ultimately have "unquote (take n s @ t) = map_option (\<lambda>(x, y). (encode_rune r @ x, y)) (unquote t)"
      using c unfolding v by (simp add: unquote_plain d del: decode_rune.simps)
    with 5 show ?thesis by auto
  qed
qed

theorem unquote_quote_body: "unquote (quote_body s @ CHR 0x22 # t) = Some (coerce_utf8 s, t)"
proof (induction s rule: quote_body.induct)
  case (1 s)
  show ?case
  proof (cases "s = []")
    case False
    obtain r n where d: "decode_rune s = (r, n)" by fastforce
    have "unquote (quote_body (drop n s) @ CHR 0x22 # t) = Some (coerce_utf8 (drop n s), t)"
      using 1 [OF False refl refl] d by simp
    with False d show ?thesis
      unfolding quote_body_step [OF False d] append_assoc unquote_quote_rune [OF False d]
      by (simp add: coerce_utf8_step)
  qed simp
qed

section \<open>Reading back the text of a value\<close>

text \<open>Integers are written in decimal; a number ends where no digit, point or exponent follows.\<close>

definition number_end :: "string \<Rightarrow> bool" where
  "number_end t \<longleftrightarrow> t = [] \<or> \<not> is_digit (hd t) \<and> hd t \<noteq> CHR ''.'' \<and> hd t \<noteq> CHR ''e'' \<and> hd t \<noteq> CHR ''E''"

lemma span_digits_append:
  "list_all is_digit ds \<Longrightarrow> t = [] \<or> \<not> is_digit (hd t) \<Longrightarrow> span_digits (ds @ t) = (ds, t)"
proof (induction ds)
  case Nil
  then show ?case by (cases t) auto
qed simp

lemma show_nat_first: "hd (show_nat n) = CHR ''0'' \<longleftrightarrow> n = 0"
proof (induction n rule: show_nat.induct)
  case (1 n)
  have "digit_char d = CHR ''0'' \<longleftrightarrow> d = 0" if "d < 10" for d
  proof
    assume "digit_char d = CHR ''0''"
    then have "byte_of (digit_char d) = (48 :: nat)" by simp
    with digit_char_props(3) [OF that] show "d = 0" by simp
  qed (simp add: digit_char_def char_of_sum)
  note digit = this
  show ?case
  proof (cases "n < 10")
    case True
    with digit show ?thesis by (simp add: show_nat.simps [of n])
  next
    case False
    then have "hd (show_nat n) = hd (show_nat (n div 10))"
      using show_nat_digits [of "n div 10"] by (simp add: show_nat.simps [of n])
    moreover have "n div 10 \<noteq> 0" using False by (simp add: div_eq_0_iff)
    ultimately show ?thesis using 1 False by simp
  qed
qed

lemma lex_int_show_nat:
  assumes "number_end t"
  shows "lex_int (show_nat n @ t) = Some (show_nat n, t)"
proof -
  obtain c u where cu: "show_nat n = c # u" "is_digit c"
    using show_nat_digits [of n] by (cases "show_nat n") auto
  have "span_digits (show_nat n @ t) = (show_nat n, t)"
    using show_nat_digits assms by (intro span_digits_append) (auto simp: number_end_def)
  moreover have "n = 0 \<Longrightarrow> u = []"
    using cu by (simp add: show_nat.simps)
  ultimately show ?thesis
    using cu show_nat_first [of n] by (auto simp: lex_int_def)
qed

lemma lex_number_show_int:
  assumes "number_end t"
  shows "lex_number (show_int i @ t) = Some (TNumber (show_int i), t)"
proof -
  have f: "lex_frac t = Some ([], t)" "lex_exp t = Some ([], t)"
    using assms by (cases t; simp add: lex_frac_def lex_exp_def number_end_def)+
  obtain c u where cu: "show_nat (nat i) = c # u" "is_digit c"
    using show_nat_digits [of "nat i"] by (cases "show_nat (nat i)") auto
  then have "c \<noteq> CHR ''-''" by (auto simp: is_digit_def)
  then show ?thesis
    using lex_int_show_nat [OF assms, of "nat i"] lex_int_show_nat [OF assms, of "nat (- i)"] f cu
    by (simp add: lex_number_def show_int_def)
qed

lemma show_int_start: "\<exists>c u. show_int i = c # u \<and> (is_digit c \<or> c = CHR ''-'')"
  using show_nat_digits [of "nat i"] by (cases "show_nat (nat i)") (auto simp: show_int_def)

lemma lex_token_show_int:
  assumes "number_end t"
  shows "lex_token (show_int i @ t) = Some (TNumber (show_int i), t)"
proof -
  obtain c u where cu: "show_int i = c # u" "is_digit c \<or> c = CHR ''-''"
    using show_int_start by blast
  have "byte_of c \<in> insert 45 {48..57}"
    using cu(2) by (auto simp: is_digit_def)
  then have "c \<notin> {CHR ''{'', CHR ''}'', CHR ''['', CHR '']'', CHR '':'', CHR '','', CHR 0x22, CHR ''n'', CHR ''t'', CHR ''f''}"
    by auto
  then have "lex_token (show_int i @ t) = lex_number (show_int i @ t)"
    by (simp add: lex_token_def cu(1))
  with lex_number_show_int [OF assms] show ?thesis by simp
qed

text \<open>What the reader does after a token.\<close>

fun resume :: "reading \<Rightarrow> string \<Rightarrow> (json \<times> string) option" where
  "resume Failed t = None"
| "resume (Complete v) t = Some (v, t)"
| "resume (Continue st e) t = json_run e st t"

lemma json_run_token:
  "lex_token (c # s) = Some (tok, t) \<Longrightarrow> \<not> json_space c \<Longrightarrow>
   json_run e st (c # s) = resume (feed e tok st) t"
  by (subst json_run.simps) (simp split: reading.split)

text \<open>The values the writer is used on (strings, integers, arrays and objects up to a depth), and
  how they come back: strings and keys as valid UTF-8.\<close>

fun json_ok :: "nat \<Rightarrow> json \<Rightarrow> bool" where
  "json_ok d (JNumber s) \<longleftrightarrow> (\<exists>i. s = show_int i)"
| "json_ok d (JArray vs) \<longleftrightarrow> 0 < d \<and> (\<forall>v \<in> set vs. json_ok (d - 1) v)"
| "json_ok d (JObject ms) \<longleftrightarrow> 0 < d \<and> (\<forall>(k, v) \<in> set ms. json_ok (d - 1) v)"
| "json_ok d _ \<longleftrightarrow> True"

fun json_view :: "json \<Rightarrow> json" where
  "json_view (JString s) = JString (coerce_utf8 s)"
| "json_view (JArray vs) = JArray (map json_view vs)"
| "json_view (JObject ms) = JObject (map (\<lambda>(k, v). (coerce_utf8 k, json_view v)) ms)"
| "json_view v = v"

lemma lex_token_quote: "lex_token (quote s @ t) = Some (TString (coerce_utf8 s), t)"
  using unquote_quote_body by (simp add: quote_def lex_token_def)

lemma json_run_quote:
  "json_run e st (quote s @ t) = resume (feed e (TString (coerce_utf8 s)) st) t"
  using lex_token_quote [of s t] unfolding quote_def append.simps
  by (intro json_run_token) (simp_all add: json_space_def)

lemma json_run_punct:
  "json_run e st (CHR ''{'' # t) = resume (feed e TLBrace st) t"
  "json_run e st (CHR ''}'' # t) = resume (feed e TRBrace st) t"
  "json_run e st (CHR ''['' # t) = resume (feed e TLBrack st) t"
  "json_run e st (CHR '']'' # t) = resume (feed e TRBrack st) t"
  "json_run e st (CHR '':'' # t) = resume (feed e TColon st) t"
  "json_run e st (CHR '','' # t) = resume (feed e TComma st) t"
  by (intro json_run_token; simp add: lex_token_def json_space_def)+

lemma json_run_scalar:
  "json_run e st (''null'' @ t) = resume (feed e TNull st) t"
  "json_run e st ((if b then ''true'' else ''false'') @ t) = resume (feed e (TBool b) st) t"
  "number_end t \<Longrightarrow> json_run e st (show_int i @ t) = resume (feed e (TNumber (show_int i)) st) t"
proof -
  show "json_run e st (''null'' @ t) = resume (feed e TNull st) t"
    unfolding append.simps
    by (intro json_run_token) (simp_all add: lex_token_def lex_word_def json_space_def)
  show "json_run e st ((if b then ''true'' else ''false'') @ t) = resume (feed e (TBool b) st) t"
    unfolding if_distrib [of "\<lambda>w. w @ t"] append.simps
    by (cases b; simp only: if_True if_False; intro json_run_token)
      (simp_all add: lex_token_def lex_word_def json_space_def)
  assume "number_end t"
  then have l: "lex_token (show_int i @ t) = Some (TNumber (show_int i), t)"
    by (rule lex_token_show_int)
  obtain c u where cu: "show_int i = c # u" "is_digit c \<or> c = CHR ''-''"
    using show_int_start by blast
  then have "\<not> json_space c" by (auto simp: is_digit_def json_space_def)
  with l cu show "json_run e st (show_int i @ t) = resume (feed e (TNumber (show_int i)) st) t"
    using json_run_token by simp
qed

lemma number_end_punct [simp]:
  "number_end (CHR '','' # t)" "number_end (CHR '']'' # t)" "number_end (CHR ''}'' # t)" "number_end []"
  by (simp_all add: number_end_def is_digit_def)

lemma commas_Cons: "commas (x # xs) = x @ (if xs = [] then [] else CHR '','' # commas xs)"
  by (cases xs) simp_all

text \<open>The elements of an array and the members of an object, given that each value is read back.\<close>

lemma json_run_elements:
  assumes "\<And>v us e t. v \<in> set vs \<Longrightarrow> e = ExpValue \<or> e = ExpFirst \<Longrightarrow> number_end t \<Longrightarrow>
      json_run e (InArray us # st) (json_text v @ t) = resume (complete (json_view v) (InArray us # st)) t"
    and "vs \<noteq> []" "e = ExpValue \<or> e = ExpFirst"
  shows "json_run e (InArray us # st) (commas (map json_text vs) @ CHR '']'' # t) =
    resume (complete (JArray (us @ map json_view vs)) st) t"
  using assms
proof (induction vs arbitrary: us e)
  case (Cons v vs)
  show ?case
  proof (cases "vs = []")
    case True
    with Cons.prems show ?thesis by (simp add: json_run_punct)
  next
    case False
    have "json_run ExpValue (InArray (us @ [json_view v]) # st) (commas (map json_text vs) @ CHR '']'' # t) =
        resume (complete (JArray ((us @ [json_view v]) @ map json_view vs)) st) t"
      using False Cons.prems(1) by (intro Cons.IH) auto
    with False Cons.prems show ?thesis
      by (simp add: commas_Cons json_run_punct)
  qed
qed simp

lemma json_run_members:
  assumes "\<And>k v us k' t. (k, v) \<in> set ms \<Longrightarrow> number_end t \<Longrightarrow>
      json_run ExpValue (InObject us k' # st) (json_text v @ t) =
      resume (complete (json_view v) (InObject us k' # st)) t"
    and "ms \<noteq> []" "e = ExpKey \<or> e = ExpFirstKey"
  shows "json_run e (InObject us k' # st)
      (commas (map (\<lambda>(k, v). quote k @ CHR '':'' # json_text v) ms) @ CHR ''}'' # t) =
    resume (complete (JObject (us @ map (\<lambda>(k, v). (coerce_utf8 k, json_view v)) ms)) st) t"
  using assms
proof (induction ms arbitrary: us k' e)
  case (Cons m ms)
  obtain k v where m: "m = (k, v)" by fastforce
  have key: "feed e (TString k) (InObject us k' # st) = Continue (InObject us k # st) ExpColon" for k
    using Cons.prems(3) by auto
  have head: "number_end t \<Longrightarrow> json_run ExpValue (InObject us k' # st) (json_text v @ t) =
      resume (complete (json_view v) (InObject us k' # st)) t" for us k' t
    using Cons.prems(1) [of k v] m by simp
  show ?case
  proof (cases "ms = []")
    case True
    with m key head show ?thesis
      by (simp add: json_run_quote json_run_punct)
  next
    case False
    let ?k = "coerce_utf8 k"
    have "json_run ExpKey (InObject (us @ [(?k, json_view v)]) ?k # st)
        (commas (map (\<lambda>(k, v). quote k @ CHR '':'' # json_text v) ms) @ CHR ''}'' # t) =
      resume (complete (JObject ((us @ [(?k, json_view v)]) @ map (\<lambda>(k, v). (coerce_utf8 k, json_view v)) ms)) st) t"
      using False by (intro Cons.IH Cons.prems(1)) auto
    with False m key head show ?thesis
      by (simp add: commas_Cons json_run_quote json_run_punct)
  qed
qed simp

lemma feed_value:
  "e = ExpValue \<or> e = ExpFirst \<Longrightarrow> tok \<noteq> TRBrack \<Longrightarrow> feed e tok st = read_value tok st"
  by auto

lemma json_run_text:
  assumes "json_ok d v" "length st + d \<le> max_nesting" "\<forall>s. v = JNumber s \<longrightarrow> number_end t"
    "e = ExpValue \<or> e = ExpFirst"
  shows "json_run e st (json_text v @ t) = resume (complete (json_view v) st) t"
  using assms
proof (induction v arbitrary: d st t e)
  case JNull
  then show ?case by (simp add: json_run_scalar(1) [unfolded append.simps] feed_value)
next
  case (JBool b)
  then show ?case by (auto simp only: json_text.simps json_run_scalar feed.simps read_value.simps json_view.simps token.distinct if_False)
next
  case (JNumber s)
  then show ?case by (auto simp: json_run_scalar(3))
next
  case (JString s)
  then show ?case by (simp add: json_run_quote feed_value)
next
  case (JArray vs)
  have len: "length st < max_nesting" and d: "length (f # st) + (d - 1) \<le> max_nesting" for f
    using JArray.prems(1,2) by auto
  have "json_run e' (InArray us # st) (json_text v @ t') = resume (complete (json_view v) (InArray us # st)) t'"
    if "v \<in> set vs" "e' = ExpValue \<or> e' = ExpFirst" "number_end t'" for v us e' t'
    using JArray.IH [OF that(1) _ d _ that(2)] JArray.prems(1) that(1,3) by simp
  note elems = json_run_elements [OF this]
  show ?case
    using JArray.prems(4) len elems [where e = ExpFirst and us = "[]" and t = t]
    by (cases "vs = []") (simp_all add: json_run_punct feed_value open_frame_def)
next
  case (JObject ms)
  have len: "length st < max_nesting" and d: "length (f # st) + (d - 1) \<le> max_nesting" for f
    using JObject.prems(1,2) by auto
  have "json_run ExpValue (InObject us k' # st) (json_text v @ t') =
      resume (complete (json_view v) (InObject us k' # st)) t'"
    if "(k, v) \<in> set ms" "number_end t'" for k v us k' t'
    using JObject.IH [OF that(1) _ _ d, of v] JObject.prems(1) that by (auto simp: snds.simps)
  note mems = json_run_members [OF this]
  show ?case
    using JObject.prems(4) len mems [where e = ExpFirstKey and us = "[]" and k' = "[]" and t = t]
    by (cases "ms = []") (simp_all add: json_run_punct feed_value open_frame_def)
qed

theorem json_parse_text:
  assumes "json_ok max_nesting v" "\<forall>s. v = JNumber s \<longrightarrow> number_end t"
  shows "json_parse (json_text v @ t) = Some (json_view v, t)"
  using json_run_text [OF assms(1) _ assms(2), of "[]" ExpValue] by (simp add: json_parse_def)

section \<open>How long a text can be\<close>

fun text_bound :: "json \<Rightarrow> nat" where
  "text_bound (JString s) = 6 * length s + 2"
| "text_bound (JArray vs) = 2 + (\<Sum>v \<leftarrow> vs. text_bound v + 1)"
| "text_bound (JObject ms) = 2 + (\<Sum>(k, v) \<leftarrow> ms. 6 * length k + 4 + text_bound v)"
| "text_bound (JNumber s) = length s"
| "text_bound _ = 5"

lemma length_quote: "length s + 2 \<le> length (quote s) \<and> length (quote s) \<le> 6 * length s + 2"
  using length_quote_body [of s] by (simp add: quote_def)

lemma length_commas_le: "length (commas (map f xs)) \<le> (\<Sum>x \<leftarrow> xs. length (f x) + 1)"
  by (induction xs) (auto simp: commas_Cons)

lemma length_commas_member: "x \<in> set xs \<Longrightarrow> length x \<le> length (commas xs)"
  by (induction xs) (auto simp: commas_Cons)

lemma length_json_text: "length (json_text v) \<le> text_bound v"
proof (induction v)
  case (JString s)
  then show ?case using length_quote [of s] by simp
next
  case (JArray vs)
  have "(\<Sum>v \<leftarrow> vs. length (json_text v) + 1) \<le> (\<Sum>v \<leftarrow> vs. text_bound v + 1)"
    by (intro sum_list_mono) (simp add: JArray.IH)
  with length_commas_le [of json_text vs] show ?case by simp
next
  case (JObject ms)
  let ?f = "\<lambda>(k, v). quote k @ CHR '':'' # json_text v"
  have "(\<Sum>m \<leftarrow> ms. length (?f m) + 1) \<le> (\<Sum>(k, v) \<leftarrow> ms. 6 * length k + 4 + text_bound v)"
  proof (intro sum_list_mono)
    fix m assume m: "m \<in> set ms"
    obtain k v where kv: "m = (k, v)" by fastforce
    have "length (json_text v) \<le> text_bound v"
      using JObject.IH [OF m, of v] kv by (simp add: snds.simps)
    with length_quote [of k] show "length (?f m) + 1 \<le> (case m of (k, v) \<Rightarrow> 6 * length k + 4 + text_bound v)"
      using kv by simp
  qed
  with length_commas_le [of ?f ms] show ?case by simp
qed simp_all

end
