(* ===== verification/Message_Json.thy ===== *)
theory Message_Json
  imports Message_Codec Go_Json
begin

text \<open>
  The JSON form of a message: the struct \<open>messageJSON\<close> with its field tags and the methods
  \<open>MarshalJSON\<close> and \<open>UnmarshalJSON\<close> of message/json\_helpers.go, and the serializer of
  message/json.go.  Text is a string; the serializer exchanges byte slices with its callers.
\<close>

section \<open>Writing the struct\<close>

text \<open>A map is written with its keys sorted, a nil map as null.\<close>

definition map_json :: "('v \<Rightarrow> json) \<Rightarrow> (string, 'v) gomap option \<Rightarrow> json" where
  "map_json f m = (case m of
       None \<Rightarrow> JNull
     | Some d \<Rightarrow> JObject (map (\<lambda>(k, v). (k, f v)) (sort_key fst d)))"

definition bytes_json :: "bytes \<Rightarrow> json" where
  "bytes_json b = (case b of None \<Rightarrow> JNull | Some bs \<Rightarrow> JString (base64_encode bs))"

text \<open>The fields in the order of the struct, under the names of its tags; the last two have the
  option \<open>omitempty\<close>.\<close>

definition helper_json :: "messageJSON \<Rightarrow> json" where
  "helper_json h = JObject (
     [(''version'', JNumber (show_int (uint (hVersion h)))),
      (''sender_id'', JString (hSenderID h)),
      (''clock'', map_json (\<lambda>x. JNumber (show_int (sint x))) (hClockData h)),
      (''payload'', bytes_json (hPayload h))] @
     (if hTimestamp h = 0 then [] else [(''timestamp'', JNumber (show_int (sint (hTimestamp h))))]) @
     (if entries (hMetadata h) = [] then [] else [(''metadata'', map_json JString (hMetadata h))]))"

definition MarshalJSON :: "Message option \<Rightarrow> codec_error + string" where
  "MarshalJSON m = (case m of
       None \<Rightarrow> Inl CannotMarshalNil
     | Some msg \<Rightarrow> Inr (json_text (helper_json (to_helper msg))))"

section \<open>Reading the struct\<close>

text \<open>\<open>strconv.ParseInt\<close> and \<open>strconv.ParseUint\<close> on a literal, with the range of the field.\<close>

definition ParseInt64 :: "string \<Rightarrow> int64 option" where
  "ParseInt64 s =
     (let neg = (s \<noteq> [] \<and> hd s = CHR ''-'');
          ds = (if neg then tl s else s);
          i = (if neg then - int (digits_val 0 ds) else int (digits_val 0 ds))
      in if ds = [] \<or> \<not> list_all is_digit ds \<or> i < - (2 ^ 63) \<or> 2 ^ 63 \<le> i then None
         else Some (word_of_int i))"

definition ParseUint8 :: "string \<Rightarrow> uint8 option" where
  "ParseUint8 s =
     (if s = [] \<or> \<not> list_all is_digit s \<or> 256 \<le> digits_val 0 s then None
      else Some (of_nat (digits_val 0 s)))"

text \<open>
  Storing a value in a variable of each type; \<open>None\<close> is an error.  The value null leaves a number
  or a string as it was and makes a map or a slice nil.
\<close>

definition decode_uint8 :: "json \<Rightarrow> uint8 \<Rightarrow> uint8 option" where
  "decode_uint8 v old = (case v of JNull \<Rightarrow> Some old | JNumber s \<Rightarrow> ParseUint8 s | _ \<Rightarrow> None)"

definition decode_int64 :: "json \<Rightarrow> int64 \<Rightarrow> int64 option" where
  "decode_int64 v old = (case v of JNull \<Rightarrow> Some old | JNumber s \<Rightarrow> ParseInt64 s | _ \<Rightarrow> None)"

definition decode_string :: "json \<Rightarrow> string \<Rightarrow> string option" where
  "decode_string v old = (case v of JNull \<Rightarrow> Some old | JString s \<Rightarrow> Some s | _ \<Rightarrow> None)"

text \<open>An object is stored into the map the field already has, each value decoded from zero.\<close>

fun put_members :: "(json \<Rightarrow> 'v \<Rightarrow> 'v option) \<Rightarrow> 'v \<Rightarrow> (string \<times> json) list \<Rightarrow> (string, 'v) gomap \<Rightarrow>
    (string, 'v) gomap option" where
  "put_members dec zero [] m = Some m"
| "put_members dec zero ((k, v) # ms) m =
     (case dec v zero of
        None \<Rightarrow> None
      | Some x \<Rightarrow> put_members dec zero ms (mput k x m))"

definition decode_map :: "(json \<Rightarrow> 'v \<Rightarrow> 'v option) \<Rightarrow> 'v \<Rightarrow> json \<Rightarrow> (string, 'v) gomap option \<Rightarrow>
    (string, 'v) gomap option option" where
  "decode_map dec zero v old = (case v of
       JNull \<Rightarrow> Some None
     | JObject ms \<Rightarrow> map_option Some (put_members dec zero ms (entries old))
     | _ \<Rightarrow> None)"

text \<open>
  A byte slice is read from base64, or from an array of numbers.  An array is stored into the
  memory of the slice the field already has, so that a null element keeps the byte that is
  there; the second component is the memory behind the end of the slice.
\<close>

fun decode_elems :: "json list \<Rightarrow> byte list \<Rightarrow> (byte list \<times> byte list) option" where
  "decode_elems [] mem = Some ([], mem)"
| "decode_elems (v # vs) mem =
     (case decode_uint8 v (case mem of [] \<Rightarrow> 0 | b # _ \<Rightarrow> b) of
        None \<Rightarrow> None
      | Some b \<Rightarrow> map_option (\<lambda>(bs, r). (b # bs, r)) (decode_elems vs (tl mem)))"

definition decode_bytes :: "json \<Rightarrow> bytes \<times> byte list \<Rightarrow> (bytes \<times> byte list) option" where
  "decode_bytes v old = (case v of
       JNull \<Rightarrow> Some (None, [])
     | JString s \<Rightarrow> map_option (\<lambda>bs. (Some bs, [])) (base64_decode s)
     | JArray vs \<Rightarrow>
         if vs = [] then Some (Some [], [])
         else map_option (\<lambda>(bs, r). (Some bs, r)) (decode_elems vs (the_bytes (fst old) @ snd old))
     | _ \<Rightarrow> None)"

text \<open>
  A key names a field by its tag, or by its tag up to case; the folding is that of Unicode, where
  the long s and the Kelvin sign go with the letters S and K.
\<close>

datatype field = FVersion | FSenderID | FClockData | FPayload | FTimestamp | FMetadata

definition json_fields :: "(string \<times> field) list" where
  "json_fields = [(''version'', FVersion), (''sender_id'', FSenderID), (''clock'', FClockData),
     (''payload'', FPayload), (''timestamp'', FTimestamp), (''metadata'', FMetadata)]"

definition fold_rune :: "nat \<Rightarrow> nat" where
  "fold_rune r = (if 97 \<le> r \<and> r \<le> 122 then r - 32 else if r = 383 then 83 else if r = 8490 then 75 else r)"

definition fold_name :: "string \<Rightarrow> nat list" where
  "fold_name s = map fold_rune (range_runes s)"

definition find_field :: "string \<Rightarrow> field option" where
  "find_field key = (case map_of json_fields key of
       Some f \<Rightarrow> Some f
     | None \<Rightarrow> map_of (map (\<lambda>(n, f). (fold_name n, f)) json_fields) (fold_name key))"

text \<open>The members are stored in the order of the text; an unknown key is an error.\<close>

type_synonym decoding = "messageJSON \<times> byte list"

definition decode_field :: "field \<Rightarrow> json \<Rightarrow> decoding \<Rightarrow> decoding option" where
  "decode_field f v st = (case st of (h, mem) \<Rightarrow> (case f of
       FVersion \<Rightarrow> map_option (\<lambda>x. (h\<lparr>hVersion := x\<rparr>, mem)) (decode_uint8 v (hVersion h))
     | FSenderID \<Rightarrow> map_option (\<lambda>x. (h\<lparr>hSenderID := x\<rparr>, mem)) (decode_string v (hSenderID h))
     | FClockData \<Rightarrow>
         map_option (\<lambda>x. (h\<lparr>hClockData := x\<rparr>, mem)) (decode_map decode_int64 0 v (hClockData h))
     | FPayload \<Rightarrow>
         map_option (\<lambda>(x, r). (h\<lparr>hPayload := x\<rparr>, r)) (decode_bytes v (hPayload h, mem))
     | FTimestamp \<Rightarrow> map_option (\<lambda>x. (h\<lparr>hTimestamp := x\<rparr>, mem)) (decode_int64 v (hTimestamp h))
     | FMetadata \<Rightarrow>
         map_option (\<lambda>x. (h\<lparr>hMetadata := x\<rparr>, mem)) (decode_map decode_string [] v (hMetadata h))))"

fun decode_members :: "(string \<times> json) list \<Rightarrow> decoding \<Rightarrow> decoding option" where
  "decode_members [] st = Some st"
| "decode_members ((k, v) # ms) st =
     (case find_field k of
        None \<Rightarrow> None
      | Some f \<Rightarrow> (case decode_field f v st of None \<Rightarrow> None | Some st' \<Rightarrow> decode_members ms st'))"

definition zero_helper :: messageJSON where
  "zero_helper = \<lparr>hVersion = 0, hSenderID = [], hClockData = None, hPayload = None, hTimestamp = 0,
     hMetadata = None\<rparr>"

definition decode_helper :: "json \<Rightarrow> messageJSON option" where
  "decode_helper v = (case v of
       JNull \<Rightarrow> Some zero_helper
     | JObject ms \<Rightarrow> map_option fst (decode_members ms (zero_helper, []))
     | _ \<Rightarrow> None)"

text \<open>The fields of the receiver after a successful \<open>UnmarshalJSON\<close>; its time stamp changes only
  when the text has one after the epoch.\<close>

definition assign_helper :: "Message \<Rightarrow> messageJSON \<Rightarrow> Clock \<Rightarrow> Message" where
  "assign_helper m h clk =
     (let m' = m\<lparr>Version := hVersion h, SenderID := hSenderID h, MClock := Some clk,
               Payload := hPayload h, Metadata := hMetadata h\<rparr>
      in if 0 < sint (hTimestamp h) then m'\<lparr>Timestamp := Time_Unix (hTimestamp h)\<rparr> else m')"

definition UnmarshalJSON :: "Message option \<Rightarrow> string \<Rightarrow> (codec_error + Message) go" where
  "UnmarshalJSON m data = (case json_parse data of
       None \<Rightarrow> Return (Inl DecodingFailed)
     | Some (v, rest) \<Rightarrow> (case decode_helper v of
           None \<Rightarrow> Return (Inl DecodingFailed)
         | Some helper \<Rightarrow> (case hClockData helper of
               None \<Rightarrow> Return (Inl ClockDataNull)
             | Some d \<Rightarrow> go_bind (rebuild_range d (NewClock [])) (\<lambda>r. case r of
                   Inl err \<Rightarrow> Return (Inl err)
                 | Inr clk \<Rightarrow> (case m of
                       None \<Rightarrow> Panic NilDereference
                     | Some msg \<Rightarrow> Return (Inr (assign_helper msg helper clk)))))))"

section \<open>The serializer\<close>

text \<open>
  The encoder writes what \<open>MarshalJSON\<close> returned, which is compact and escaped already, and a
  newline.
\<close>

definition JSON_Marshal :: "Message option \<Rightarrow> codec_error + byte list" where
  "JSON_Marshal msg = (case msg of
       None \<Rightarrow> Inl CannotMarshalNil
     | Some m \<Rightarrow> (case Validate msg of
           Some err \<Rightarrow> Inl (ValidationFailed err)
         | None \<Rightarrow> (case MarshalJSON msg of
               Inl _ \<Rightarrow> Inl EncodingFailed
             | Inr text \<Rightarrow>
                 (let data = string_bytes (text @ [CHR 0x0A])
                  in if length data > MaxMessageSize then Inl TooLarge else Inr data))))"

definition zero_message :: Message where
  "zero_message = \<lparr>Version = 0, SenderID = [], MClock = None, Payload = None, Timestamp = zero_time,
     Metadata = None\<rparr>"

text \<open>
  The decoder finds the first value of the data and calls \<open>UnmarshalJSON\<close> on its text; it does not
  look at what follows.
\<close>

definition JSON_Unmarshal :: "byte list \<Rightarrow> (codec_error + Message) go" where
  "JSON_Unmarshal data =
     (if length data = 0 then Return (Inl InvalidEncodingEmpty)
      else if length data > MaxMessageSize then Return (Inl TooLarge)
      else let text = dropWhile json_space (bytes_string data) in
        (case json_parse text of
           None \<Rightarrow> Return (Inl InvalidEncoding)
         | Some (v, rest) \<Rightarrow>
             go_bind (UnmarshalJSON (Some zero_message) (take (length text - length rest) text)) (\<lambda>r.
               case r of
                 Inl _ \<Rightarrow> Return (Inl InvalidEncoding)
               | Inr msg \<Rightarrow> (case Validate (Some msg) of
                     Some err \<Rightarrow> Return (Inl (ValidationFailed err))
                   | None \<Rightarrow> Return (Inr msg)))))"

definition Serializer_Marshal :: "Serializer \<Rightarrow> Message option \<Rightarrow> codec_error + byte list" where
  "Serializer_Marshal s = (case s of JSON \<Rightarrow> JSON_Marshal | CBOR c \<Rightarrow> CBOR_Marshal c)"

definition Serializer_Unmarshal :: "Serializer \<Rightarrow> byte list \<Rightarrow> (codec_error + Message) go" where
  "Serializer_Unmarshal s = (case s of JSON \<Rightarrow> JSON_Unmarshal | CBOR c \<Rightarrow> CBOR_Unmarshal c)"

section \<open>Facts\<close>

text \<open>Numbers are read back from their decimal form.\<close>

lemma show_nat_props [simp]: "show_nat n \<noteq> []" "list_all is_digit (show_nat n)"
  using show_nat_digits [of n] by simp_all

lemma show_nat_not_minus: "hd (show_nat n) \<noteq> CHR ''-''"
  using show_nat_digits [of n] by (cases "show_nat n") (auto simp: is_digit_def)

lemma ParseInt64_show [simp]: "ParseInt64 (show_int (sint v)) = Some v"
  using sint64_range [of v] show_nat_not_minus
  by (auto simp: ParseInt64_def show_int_def Let_def nat_less_iff le_nat_iff not_le)

lemma ParseUint8_show [simp]: "ParseUint8 (show_int (uint v)) = Some v"
  using unat_byte_less [of v] by (simp add: ParseUint8_def show_int_def not_le)

text \<open>Storing members with keys that are all new appends them in order.\<close>

lemma mput_new: "k \<notin> fst ` set m \<Longrightarrow> mput k v m = m @ [(k, v)]"
  by (induction m) auto

lemma put_members_new:
  assumes "mwf (m @ d)" and "\<And>k v. (k, v) \<in> set d \<Longrightarrow> dec (f v) zero = Some v"
  shows "put_members dec zero (map (\<lambda>(k, v). (k, f v)) d) m = Some (m @ d)"
  using assms
proof (induction d arbitrary: m)
  case (Cons p d)
  obtain k v where p: "p = (k, v)" by fastforce
  have "mput k v m = m @ [(k, v)]"
    using Cons.prems(1) p by (intro mput_new) (auto simp: mwf_def)
  moreover have "mwf ((m @ [(k, v)]) @ d)"
    using Cons.prems(1) p by simp
  ultimately show ?case
    using Cons.IH [of "m @ [(k, v)]"] Cons.prems(2) [of k v] Cons.prems(2) p by auto
qed simp

lemma mwf_sort_key: "mwf (sort_key fst d) \<longleftrightarrow> mwf d"
  by (simp add: mwf_def distinct_map)

lemma map_of_sort_key: "mwf d \<Longrightarrow> map_of (sort_key fst d) = map_of d"
  by (intro map_of_inject_set [THEN iffD2]) (use mwf_sort_key [of d] in \<open>auto simp: mwf_def\<close>)

lemma decode_map_json:
  assumes "mwf d" and "\<And>v. dec (f v) zero = Some v"
  shows "decode_map dec zero (map_json f (Some d)) None = Some (Some (sort_key fst d))"
  using assms put_members_new [of "[]" "sort_key fst d" dec f zero]
  by (simp add: decode_map_def map_json_def mwf_sort_key)

text \<open>How the text of the struct is read back as a tree: the sender may change, keys and values that
  are valid UTF-8 do not.\<close>

definition valid_map :: "('v \<Rightarrow> bool) \<Rightarrow> (string, 'v) gomap option \<Rightarrow> bool" where
  "valid_map ok m \<longleftrightarrow> (\<forall>(k, v) \<in> set (entries m). valid_utf8 k \<and> ok v)"

lemma valid_map_keys: "valid_map (\<lambda>_. True) m \<longleftrightarrow> (\<forall>k \<in> dom (map_of (entries m)). valid_utf8 k)"
  by (auto simp: valid_map_def dom_map_of_conv_image_fst)

lemma json_view_map:
  assumes "valid_map ok m" and "\<And>v. ok v \<Longrightarrow> json_view (f v) = f v"
  shows "json_view (map_json f m) = map_json f m"
proof (cases m)
  case (Some d)
  then have "coerce_utf8 k = k \<and> json_view (f v) = f v" if "(k, v) \<in> set d" for k v
    using that assms by (auto simp: valid_map_def coerce_valid_utf8)
  with Some show ?thesis
    by (auto simp: map_json_def)
qed (simp add: map_json_def)

lemma coerce_base64 [simp]: "coerce_utf8 (base64_encode bs) = base64_encode bs"
  by (rule coerce_ascii [OF base64_encode_ascii])

lemma json_view_bytes [simp]: "json_view (bytes_json b) = bytes_json b"
  by (simp add: bytes_json_def split: option.split)

lemma json_view_helper:
  assumes "valid_map (\<lambda>_. True) (hClockData h)" and "valid_map valid_utf8 (hMetadata h)"
  shows "json_view (helper_json h) = helper_json (h\<lparr>hSenderID := coerce_utf8 (hSenderID h)\<rparr>)"
proof -
  have "json_view (map_json (\<lambda>x. JNumber (show_int (sint x))) (hClockData h)) =
      map_json (\<lambda>x. JNumber (show_int (sint x))) (hClockData h)"
    using json_view_map [OF assms(1), of "\<lambda>x. JNumber (show_int (sint x))"] by simp
  moreover have "json_view (map_json JString (hMetadata h)) = map_json JString (hMetadata h)"
    by (rule json_view_map [OF assms(2)]) (simp add: coerce_valid_utf8)
  ultimately show ?thesis
    by (simp add: helper_json_def coerce_ascii)
qed

lemma json_ok_map: "0 < d \<Longrightarrow> (\<And>v. json_ok (d - 1) (f v)) \<Longrightarrow> json_ok d (map_json f m)"
  by (auto simp: map_json_def split: option.split)

lemma json_ok_helper: "json_ok max_nesting (helper_json h)"
proof -
  have "json_ok 9999 (map_json (\<lambda>x. JNumber (show_int (sint x))) (hClockData h))"
    "json_ok 9999 (map_json JString (hMetadata h))"
    by (rule json_ok_map; auto)+
  moreover have "json_ok 9999 (bytes_json (hPayload h))"
    by (simp add: bytes_json_def split: option.split)
  ultimately show ?thesis
    by (auto simp: helper_json_def max_nesting_def)
qed

lemma json_parse_helper:
  assumes "valid_map (\<lambda>_. True) (hClockData h)" and "valid_map valid_utf8 (hMetadata h)"
  shows "json_parse (json_text (helper_json h) @ t) =
    Some (helper_json (h\<lparr>hSenderID := coerce_utf8 (hSenderID h)\<rparr>), t)"
  using json_parse_text [OF json_ok_helper, of h t] json_view_helper [OF assms]
  by (simp add: helper_json_def)

text \<open>The struct that is decoded from the tree of another one.\<close>

definition read_back :: "messageJSON \<Rightarrow> messageJSON" where
  "read_back h = h\<lparr>hClockData := map_option (sort_key fst) (hClockData h),
     hMetadata := (if entries (hMetadata h) = [] then None else map_option (sort_key fst) (hMetadata h))\<rparr>"

lemma find_field_names [simp]:
  "find_field ''version'' = Some FVersion" "find_field ''sender_id'' = Some FSenderID"
  "find_field ''clock'' = Some FClockData" "find_field ''payload'' = Some FPayload"
  "find_field ''timestamp'' = Some FTimestamp" "find_field ''metadata'' = Some FMetadata"
  by (simp_all add: find_field_def json_fields_def)

lemma decode_bytes_json: "decode_bytes (bytes_json b) old = Some (b, [])"
  by (simp add: decode_bytes_def bytes_json_def base64_roundtrip split: option.split)

lemma decode_helper_json:
  assumes "hClockData h = Some d" and "mwf d" and "mwf (entries (hMetadata h))"
  shows "decode_helper (helper_json h) = Some (read_back h)"
proof -
  have clk: "decode_map decode_int64 0 (map_json (\<lambda>x. JNumber (show_int (sint x))) (Some d)) None =
      Some (Some (sort_key fst d))"
    by (rule decode_map_json [OF assms(2)]) (simp add: decode_int64_def)
  have md: "decode_map decode_string [] (map_json JString (hMetadata h)) None =
      Some (map_option (sort_key fst) (hMetadata h))" if "entries (hMetadata h) \<noteq> []"
    using that assms(3) decode_map_json [of _ decode_string JString "[]"]
    by (cases "hMetadata h") (simp_all add: decode_string_def)
  show ?thesis
    using clk md assms(1)
    by (cases "hTimestamp h = 0"; cases "entries (hMetadata h) = []")
      (simp_all add: decode_helper_def helper_json_def decode_field_def zero_helper_def read_back_def
        decode_bytes_json decode_uint8_def decode_int64_def decode_string_def)
qed

lemma assign_zero_message: "assign_helper zero_message h clk = from_helper h clk"
  by (simp add: assign_helper_def from_helper_def zero_message_def Let_def)

text \<open>Decoding the text of a message with a well-formed clock, whatever its sender.\<close>

lemma UnmarshalJSON_text:
  assumes "clock_ok (MClock m)" and "mwf (entries (Metadata m))"
    and "\<forall>n \<in> set (Clock_Nodes (MClock m)). valid_utf8 n" and "valid_map valid_utf8 (Metadata m)"
  obtains k where
    "\<And>t. json_parse (json_text (helper_json (to_helper m)) @ t) =
       Some (helper_json ((to_helper m)\<lparr>hSenderID := coerce_utf8 (SenderID m)\<rparr>), t)"
    "\<And>m0. UnmarshalJSON (Some m0) (json_text (helper_json (to_helper m))) =
       Return (Inr (assign_helper m0 (read_back ((to_helper m)\<lparr>hSenderID := coerce_utf8 (SenderID m)\<rparr>)) k))"
    "clock_ok (Some k)" "\<forall>n. Clock_Get (Some k) n = Clock_Get (MClock m) n"
    "set (Clock_Nodes (Some k)) = {n. Clock_Get (MClock m) n \<noteq> 0}"
proof -
  let ?h = "to_helper m"
  let ?h' = "?h\<lparr>hSenderID := coerce_utf8 (SenderID m)\<rparr>"
  obtain d where d: "hClockData ?h = Some d" by (simp add: to_helper_def)
  have wf: "mwf d" and map: "map_of d = map_of (entries (clock_map (MClock m)))"
    using to_helper_clock [OF clock_ok_rep [OF assms(1)] refl] d by simp_all
  have "valid_map (\<lambda>_. True) (hClockData ?h)"
    using assms(1,3) map d by (simp add: valid_map_keys Clock_Nodes_dom clock_ok_rep finite_dom_map_of)
  then have parse: "json_parse (json_text (helper_json ?h) @ t) = Some (helper_json ?h', t)" for t
    using assms(4) json_parse_helper [of ?h t] by (simp add: to_helper_def)
  have h': "decode_helper (helper_json ?h') = Some (read_back ?h')"
    using d wf assms(2) by (intro decode_helper_json [of _ d]) (simp_all add: to_helper_def)
  have "map_of (entries (Some (sort_key fst d))) = map_of (entries (hClockData ?h))"
    using d wf by (simp add: map_of_sort_key)
  then obtain k where k: "rebuild_range (sort_key fst d) (NewClock []) = Return (Inr k)" "clock_ok (Some k)"
      "\<forall>n. Clock_Get (Some k) n = Clock_Get (MClock m) n"
      "set (Clock_Nodes (Some k)) = {n. Clock_Get (MClock m) n \<noteq> 0}"
    using rebuild_to_helper [OF assms(1) refl, of "Some (sort_key fst d)"] wf by (auto simp: mwf_sort_key)
  have "hClockData (read_back ?h') = Some (sort_key fst d)"
    using d by (simp add: read_back_def)
  then have "UnmarshalJSON (Some m0) (json_text (helper_json ?h)) = Return (Inr (assign_helper m0 (read_back ?h') k))"
    for m0
    using parse [of "[]"] h' k(1) by (simp add: UnmarshalJSON_def)
  with parse k(2-4) show thesis by (intro that [of k])
qed

text \<open>Decoding any tree gives maps without duplicate keys.\<close>

lemma put_members_mwf: "put_members dec zero ms m = Some m' \<Longrightarrow> mwf m \<Longrightarrow> mwf m'"
  by (induction ms arbitrary: m) (auto split: option.splits)

lemma decode_map_mwf: "decode_map dec zero v old = Some m \<Longrightarrow> mwf (entries old) \<Longrightarrow> mwf (entries m)"
  by (auto simp: decode_map_def split: json.splits dest: put_members_mwf)

lemma decode_field_mwf:
  assumes "decode_field f v (h, mem) = Some (h', mem')"
    and "mwf (entries (hClockData h)) \<and> mwf (entries (hMetadata h))"
  shows "mwf (entries (hClockData h')) \<and> mwf (entries (hMetadata h'))"
  using assms by (cases f) (auto simp: decode_field_def dest: decode_map_mwf)

lemma decode_members_mwf:
  "decode_members ms (h, mem) = Some (h', mem') \<Longrightarrow> mwf (entries (hClockData h)) \<and> mwf (entries (hMetadata h)) \<Longrightarrow>
   mwf (entries (hClockData h')) \<and> mwf (entries (hMetadata h'))"
proof (induction ms arbitrary: h mem)
  case (Cons p ms)
  obtain k v where p: "p = (k, v)" by fastforce
  with Cons.prems(1) obtain f h2 mem2 where "decode_field f v (h, mem) = Some (h2, mem2)"
    "decode_members ms (h2, mem2) = Some (h', mem')"
    by (auto split: option.splits)
  with Cons.IH Cons.prems(2) decode_field_mwf show ?case by blast
qed simp

lemma decode_helper_mwf:
  "decode_helper v = Some h \<Longrightarrow> mwf (entries (hClockData h)) \<and> mwf (entries (hMetadata h))"
  by (auto simp: decode_helper_def zero_helper_def split: json.splits dest!: decode_members_mwf)

lemma UnmarshalJSON_result:
  "(\<exists>e. UnmarshalJSON (Some m0) text = Return (Inl e)) \<or>
   (\<exists>h k. UnmarshalJSON (Some m0) text = Return (Inr (assign_helper m0 h k)) \<and> clock_ok (Some k) \<and>
      mwf (entries (hMetadata h)))"
proof (cases "\<exists>v rest h d. json_parse text = Some (v, rest) \<and> decode_helper v = Some h \<and> hClockData h = Some d")
  case True
  then obtain v rest h d where h: "json_parse text = Some (v, rest)" "decode_helper v = Some h"
      "hClockData h = Some d"
    by blast
  have wf: "mwf d" "mwf (entries (hMetadata h))"
    using decode_helper_mwf [OF h(2)] h(3) by simp_all
  from rebuild_total [OF wf(1)] h wf(2) show ?thesis
    by (fastforce simp: UnmarshalJSON_def)
qed (auto simp: UnmarshalJSON_def split: option.split)

section \<open>The interface of a serializer\<close>

text \<open>
  What message/serializer.go asks of every implementation: what \<open>Marshal\<close> returns respects the size
  limit and comes from a valid message, and \<open>Unmarshal\<close> validates what it returns.
\<close>

locale serializer =
  fixes marshal :: "Message option \<Rightarrow> codec_error + byte list"
    and unmarshal :: "byte list \<Rightarrow> (codec_error + Message) go"
  assumes marshal_bound: "marshal msg = Inr data \<Longrightarrow> length data \<le> MaxMessageSize"
    and marshal_valid: "Validate msg = Some e \<Longrightarrow> \<exists>e'. marshal msg = Inl e'"
    and unmarshal_valid: "unmarshal data = Return (Inr m) \<Longrightarrow> Validate (Some m) = None"
    and unmarshal_bound: "length data = 0 \<or> length data > MaxMessageSize \<Longrightarrow> \<exists>e. unmarshal data = Return (Inl e)"
begin

text \<open>A message that was received is never refused for its contents when it is forwarded, and
  nothing is accepted that the limits exclude.\<close>

lemma forwards:
  assumes "unmarshal data = Return (Inr m)"
  shows "0 < length data" "length data \<le> MaxMessageSize" "Validate (Some m) = None"
  using assms unmarshal_bound [of data] unmarshal_valid by fastforce+

end

lemma validated_result:
  "go_bind x (\<lambda>r. case r of
       Inl e \<Rightarrow> Return (Inl (f e))
     | Inr y \<Rightarrow> (case Validate (Some (g y)) of
           Some err \<Rightarrow> Return (Inl (ValidationFailed err))
         | None \<Rightarrow> Return (Inr (g y)))) = Return (Inr m) \<Longrightarrow>
   Validate (Some m) = None \<and> (\<exists>y. x = Return (Inr y) \<and> m = g y)"
  by (cases x) (auto split: sum.splits option.splits)

interpretation json: serializer JSON_Marshal JSON_Unmarshal
proof
  fix msg data e m
  show "JSON_Marshal msg = Inr data \<Longrightarrow> length data \<le> MaxMessageSize"
    by (auto simp: JSON_Marshal_def Let_def split: option.splits sum.splits if_splits)
  show "Validate msg = Some e \<Longrightarrow> \<exists>e'. JSON_Marshal msg = Inl e'"
    by (cases msg) (simp_all add: JSON_Marshal_def)
  show "JSON_Unmarshal data = Return (Inr m) \<Longrightarrow> Validate (Some m) = None"
    unfolding JSON_Unmarshal_def Let_def
    by (auto simp del: go_bind_Return_iff split: option.splits sum.splits if_splits prod.splits dest: validated_result)
  show "length data = 0 \<or> length data > MaxMessageSize \<Longrightarrow> \<exists>e. JSON_Unmarshal data = Return (Inl e)"
    by (auto simp: JSON_Unmarshal_def)
qed

interpretation cbor: serializer "CBOR_Marshal s" "CBOR_Unmarshal s" for s
proof
  fix msg data e m
  show "CBOR_Marshal s msg = Inr data \<Longrightarrow> length data \<le> MaxMessageSize"
    by (auto simp: CBOR_Marshal_def split: option.splits sum.splits if_splits)
  show "Validate msg = Some e \<Longrightarrow> \<exists>e'. CBOR_Marshal s msg = Inl e'"
    by (cases msg) (simp_all add: CBOR_Marshal_def)
  show "CBOR_Unmarshal s data = Return (Inr m) \<Longrightarrow> Validate (Some m) = None"
    unfolding CBOR_Unmarshal_def Let_def
    by (auto simp del: go_bind_Return_iff split: option.splits sum.splits if_splits prod.splits dest: validated_result)
  show "length data = 0 \<or> length data > MaxMessageSize \<Longrightarrow> \<exists>e. CBOR_Unmarshal s data = Return (Inl e)"
    by (auto simp: CBOR_Unmarshal_def)
qed

section \<open>From the serializer's bytes to the text\<close>

lemma bytes_string_append: "bytes_string (a @ b) = bytes_string a @ bytes_string b"
  by (simp add: bytes_string_def)

lemma helper_json_start: "\<exists>t. json_text (helper_json h) = CHR ''{'' # t"
  by (simp add: helper_json_def)

lemma JSON_Marshal_text:
  assumes "Validate (Some m) = None" and "length (json_text (helper_json (to_helper m))) < MaxMessageSize"
  shows "JSON_Marshal (Some m) = Inr (string_bytes (json_text (helper_json (to_helper m)) @ [CHR 0x0A]))"
  using assms by (simp add: JSON_Marshal_def MarshalJSON_def Let_def)

text \<open>The bytes of a message, with anything behind them, decode like its text.\<close>

lemma JSON_Unmarshal_text:
  assumes "json_parse (json_text (helper_json h) @ CHR 0x0A # bytes_string extra) = Some (v, CHR 0x0A # bytes_string extra)"
    and "UnmarshalJSON (Some zero_message) (json_text (helper_json h)) = Return (Inr m')"
    and "length (json_text (helper_json h)) + 1 + length extra \<le> MaxMessageSize"
  shows "JSON_Unmarshal (string_bytes (json_text (helper_json h) @ [CHR 0x0A]) @ extra) =
    (case Validate (Some m') of
       Some err \<Rightarrow> Return (Inl (ValidationFailed err))
     | None \<Rightarrow> Return (Inr m'))"
proof -
  let ?t = "json_text (helper_json h)"
  have b: "bytes_string (string_bytes (?t @ [CHR 0x0A]) @ extra) = ?t @ CHR 0x0A # bytes_string extra"
    by (simp add: bytes_string_append)
  obtain u where "?t = CHR ''{'' # u" using helper_json_start by blast
  then have "dropWhile json_space (?t @ CHR 0x0A # bytes_string extra) = ?t @ CHR 0x0A # bytes_string extra"
    by (simp add: json_space_def)
  with assms show ?thesis
    unfolding JSON_Unmarshal_def b by simp
qed

lemma decode_members_unknown:
  "(k, x) \<in> set ms \<Longrightarrow> find_field k = None \<Longrightarrow> decode_members ms st = None"
  by (induction ms st rule: decode_members.induct) (auto split: option.splits)

lemma decode_members_no_clock:
  "decode_members ms st = Some st' \<Longrightarrow> hClockData (fst st) = None \<Longrightarrow>
   \<forall>(k, x) \<in> set ms. find_field k = Some FClockData \<longrightarrow> x = JNull \<Longrightarrow> hClockData (fst st') = None"
proof (induction ms st rule: decode_members.induct)
  case (2 k v ms st)
  then obtain f st1 where f: "find_field k = Some f" "decode_field f v st = Some st1"
      "decode_members ms st1 = Some st'"
    by (auto split: option.splits)
  have "hClockData (fst st1) = None"
    using f(1,2) "2.prems"(2,3)
    by (cases f; cases st) (auto simp: decode_field_def decode_map_def)
  with 2 f show ?case by auto
qed simp

text \<open>A string of bytes none of which is UTF-8.\<close>

lemma invalid_bytes_step:
  assumes "245 \<le> byte_of c"
  shows "decode_rune (c # s) = (rune_error, 1)"
  using assms by (simp add: Let_def)

lemma length_invalid_bytes:
  assumes "245 \<le> byte_of c"
  shows "length (quote_body (replicate n c)) = 6 * n" and "length (coerce_utf8 (replicate n c)) = 3 * n"
proof (induction n)
  case (Suc n)
  {
    case 1
    show ?case
      using Suc quote_body_step [OF _ invalid_bytes_step [OF assms], of "replicate n c"]
      by (simp add: rune_error_def)
  next
    case 2
    show ?case
      using Suc coerce_utf8_step [of "c # replicate n c"]
      by (simp add: invalid_bytes_step [OF assms] encode_rune_def rune_error_def del: decode_rune.simps)
  }
qed simp_all

section \<open>Properties\<close>

text \<open>C7. Round trip through the JSON text.  For a valid message whose names and metadata are valid
  UTF-8 and whose text fits the size limit, \<open>Marshal\<close> returns bytes from which \<open>Unmarshal\<close> gets a
  valid message with the same version, sender, payload and metadata, a clock that compares equal
  and reads the same at every node, and the time stamp to the second if it is after the epoch.
  Whatever bytes follow the text make no difference.\<close>

theorem JSON_roundtrip:
  assumes "Validate (Some m) = None" and "clock_ok (MClock m)" and "mwf (entries (Metadata m))"
    and "valid_utf8 (SenderID m)" and "\<forall>n \<in> set (Clock_Nodes (MClock m)). valid_utf8 n"
    and "\<forall>(k, v) \<in> set (entries (Metadata m)). valid_utf8 k \<and> valid_utf8 v"
    and "MarshalJSON (Some m) = Inr text" and "length text + 1 + length extra \<le> MaxMessageSize"
  shows "\<exists>data m'. JSON_Marshal (Some m) = Inr data \<and>
     JSON_Unmarshal (data @ extra) = Return (Inr m') \<and> Validate (Some m') = None \<and>
     Version m' = Version m \<and> SenderID m' = SenderID m \<and> Payload m' = Payload m \<and>
     map_of (entries (Metadata m')) = map_of (entries (Metadata m)) \<and>
     Clock_Equal (MClock m') (MClock m) \<and>
     (\<forall>n. Clock_Get (MClock m') n = Clock_Get (MClock m) n) \<and>
     set (Clock_Nodes (MClock m')) = {n. Clock_Get (MClock m) n \<noteq> 0} \<and>
     (0 < sint (unix_sec (Timestamp m)) \<longrightarrow> unix_sec (Timestamp m') = unix_sec (Timestamp m))"
proof -
  let ?h = "(to_helper m)\<lparr>hSenderID := coerce_utf8 (SenderID m)\<rparr>"
  have doc: "text = json_text (helper_json (to_helper m))"
    using assms(7) by (simp add: MarshalJSON_def)
  have "valid_map valid_utf8 (Metadata m)"
    using assms(6) by (simp add: valid_map_def)
  with UnmarshalJSON_text [OF assms(2,3,5)] obtain k where
    k: "\<And>t. json_parse (text @ t) = Some (helper_json ?h, t)"
      "\<And>m0. UnmarshalJSON (Some m0) text = Return (Inr (assign_helper m0 (read_back ?h) k))"
      "clock_ok (Some k)" "\<forall>n. Clock_Get (Some k) n = Clock_Get (MClock m) n"
      "set (Clock_Nodes (Some k)) = {n. Clock_Get (MClock m) n \<noteq> 0}"
    unfolding doc by blast
  let ?m = "from_helper (read_back ?h) k"
  have md: "map_of (entries (Metadata ?m)) = map_of (entries (Metadata m))"
      "set (entries (Metadata ?m)) = set (entries (Metadata m))"
    using assms(3) by (cases "Metadata m"; simp add: from_helper_def read_back_def to_helper_def map_of_sort_key)+
  have fields: "Version ?m = Version m" "SenderID ?m = SenderID m" "Payload ?m = Payload m" "MClock ?m = Some k"
    using assms(4) by (simp_all add: from_helper_def read_back_def to_helper_def coerce_valid_utf8)
  have valid: "Validate (Some ?m) = None"
    using assms(1) md(2) fields by (simp add: Validate_ok message_ok_def)
  have "JSON_Unmarshal (string_bytes (text @ [CHR 0x0A]) @ extra) = Return (Inr ?m)"
    using JSON_Unmarshal_text [where h = "to_helper m" and extra = extra] k(1,2) assms(8) valid
    by (simp add: assign_zero_message flip: doc)
  moreover have "JSON_Marshal (Some m) = Inr (string_bytes (text @ [CHR 0x0A]))"
    using JSON_Marshal_text [OF assms(1)] assms(8) unfolding doc by simp
  moreover have "Clock_Equal (Some k) (MClock m)"
    using k(3,4) assms(2)
    by (simp add: Clock_Equal_def Clock_Compare_spec cmp_spec_def fun_eq_iff clock_val_def)
  moreover have "unix_sec (Timestamp ?m) = unix_sec (Timestamp m)" if "0 < sint (unix_sec (Timestamp m))"
    using that by (simp add: from_helper_def read_back_def to_helper_def Time_IsZero_def Time_Unix_def)
  ultimately show ?thesis
    using valid md fields k(4,5) by metis
qed

definition demo_json :: Message where
  "demo_json = \<lparr>Version = 1, SenderID = ''n<1>'', MClock = Some \<lparr>clock = Some [(''b'', 2), (''a'', 0)]\<rparr>,
     Payload = Some [1, 2], Timestamp = Time_Unix 5, Metadata = Some [(''k'', ''v'')]\<rparr>"

theorem JSON_roundtrip_witness:
  "\<exists>data m'. JSON_Marshal (Some demo_json) = Inr data \<and> JSON_Unmarshal (data @ [1, 2]) = Return (Inr m') \<and>
     Payload m' = Some [1, 2] \<and> Clock_Get (MClock m') ''b'' = 2"
proof -
  have valid: "Validate (Some demo_json) = None"
    by (simp add: demo_json_def Validate_ok message_ok_def sender_ok_def)
  have ok: "clock_ok (MClock demo_json)" "mwf (entries (Metadata demo_json))"
    by (simp_all add: demo_json_def clock_ok_def vwf_def mwf_def)
  have utf8: "valid_utf8 (SenderID demo_json)" "\<forall>n \<in> set (Clock_Nodes (MClock demo_json)). valid_utf8 n"
      "\<forall>(k, v) \<in> set (entries (Metadata demo_json)). valid_utf8 k \<and> valid_utf8 v"
    by (simp_all add: demo_json_def valid_utf8_ascii Clock_Nodes_def mkeys_def)
  have "text_bound (helper_json (to_helper demo_json)) \<le> 1000"
    by (simp add: demo_json_def helper_json_def to_helper_def map_json_def bytes_json_def show_int_def
        show_nat.simps Clock_Nodes_def mkeys_def Time_Unix_def Time_IsZero_def Clock_Get_def mget_def
        length_base64_encode)
  then have len: "length (json_text (helper_json (to_helper demo_json))) + 1 + length [1 :: byte, 2] \<le> MaxMessageSize"
    using length_json_text [of "helper_json (to_helper demo_json)"] by (simp add: MaxMessageSize_def)
  have "MarshalJSON (Some demo_json) = Inr (json_text (helper_json (to_helper demo_json)))"
    by (simp add: MarshalJSON_def)
  from JSON_roundtrip [OF valid ok utf8 this len] show ?thesis
    by (auto simp: demo_json_def Clock_Get_def mget_def)
qed

text \<open>C21. Whatever bytes arrive, \<open>Unmarshal\<close> returns and does not panic: an error, or a message that
  passes \<open>Validate\<close> and whose clock and metadata are well-formed maps, without a negative counter.
  Empty and oversized input is always an error.\<close>

theorem JSON_Unmarshal_safe:
  "(\<exists>e. JSON_Unmarshal data = Return (Inl e)) \<or>
   (\<exists>m. JSON_Unmarshal data = Return (Inr m) \<and> Validate (Some m) = None \<and> MClock m \<noteq> None \<and>
      clock_ok (MClock m) \<and> mwf (entries (Metadata m)) \<and>
      0 < length data \<and> length data \<le> MaxMessageSize)"
proof (cases "\<exists>m. JSON_Unmarshal data = Return (Inr m)")
  case True
  then obtain m where m: "JSON_Unmarshal data = Return (Inr m)" by blast
  note f = json.forwards [OF m]
  obtain src where "UnmarshalJSON (Some zero_message) src = Return (Inr m)"
    using m unfolding JSON_Unmarshal_def Let_def
    by (auto simp del: go_bind_Return_iff split: option.splits if_splits prod.splits dest: validated_result)
  with UnmarshalJSON_result [of zero_message src] obtain h k where
    "m = assign_helper zero_message h k" "clock_ok (Some k)" "mwf (entries (hMetadata h))"
    by auto
  with m f show ?thesis
    by (auto simp: assign_zero_message from_helper_def)
next
  case False
  let ?t = "dropWhile json_space (bytes_string data)"
  show ?thesis
  proof (cases "length data = 0 \<or> length data > MaxMessageSize \<or> json_parse ?t = None")
    case True
    then show ?thesis by (auto simp: JSON_Unmarshal_def)
  next
    case False
    then obtain v rest where "json_parse ?t = Some (v, rest)" by auto
    with False UnmarshalJSON_result [of zero_message "take (length ?t - length rest) ?t"] show ?thesis
      using \<open>\<nexists>m. JSON_Unmarshal data = Return (Inr m)\<close>
      by (auto simp: JSON_Unmarshal_def Let_def split: option.splits)
  qed
qed

text \<open>C35. Strictness of \<open>UnmarshalJSON\<close> on a text that is valid JSON: anything but an object or null is
  an error, an object with a key that names no field is an error, null is an error because it has
  no clock, and so is an object in which no member sets the clock to something else than null.\<close>

theorem UnmarshalJSON_strict:
  assumes "json_parse src = Some (v, rest)"
  shows "(v = JNull \<longrightarrow> UnmarshalJSON m src = Return (Inl ClockDataNull)) \<and>
     (v \<noteq> JNull \<and> (\<forall>ms. v \<noteq> JObject ms) \<longrightarrow> UnmarshalJSON m src = Return (Inl DecodingFailed)) \<and>
     (\<forall>ms k x. v = JObject ms \<and> (k, x) \<in> set ms \<and> find_field k = None \<longrightarrow>
        UnmarshalJSON m src = Return (Inl DecodingFailed)) \<and>
     (\<forall>ms. v = JObject ms \<and> (\<forall>(k, x) \<in> set ms. find_field k = Some FClockData \<longrightarrow> x = JNull) \<longrightarrow>
        UnmarshalJSON m src \<in> {Return (Inl DecodingFailed), Return (Inl ClockDataNull)})"
proof -
  have "UnmarshalJSON m src \<in> {Return (Inl DecodingFailed), Return (Inl ClockDataNull)}"
    if "v = JObject ms" "\<forall>(k, x) \<in> set ms. find_field k = Some FClockData \<longrightarrow> x = JNull" for ms
  proof (cases "decode_members ms (zero_helper, [])")
    case None
    then show ?thesis using assms that(1) by (simp add: UnmarshalJSON_def decode_helper_def)
  next
    case (Some st)
    then have "hClockData (fst st) = None"
      using decode_members_no_clock [OF Some _ that(2)] by (simp add: zero_helper_def)
    with Some show ?thesis using assms that(1) by (simp add: UnmarshalJSON_def decode_helper_def)
  qed
  moreover have "UnmarshalJSON m src = Return (Inl DecodingFailed)"
    if "v = JObject ms" "(k, x) \<in> set ms" "find_field k = None" for ms k x
    using assms that decode_members_unknown [OF that(2,3)] by (simp add: UnmarshalJSON_def decode_helper_def)
  moreover have "UnmarshalJSON m src = Return (Inl DecodingFailed)" if "v \<noteq> JNull" "\<forall>ms. v \<noteq> JObject ms"
    using assms that by (cases v) (simp_all add: UnmarshalJSON_def decode_helper_def)
  moreover have "UnmarshalJSON m src = Return (Inl ClockDataNull)" if "v = JNull"
    using assms that by (simp add: UnmarshalJSON_def decode_helper_def zero_helper_def)
  ultimately show ?thesis by blast
qed

theorem UnmarshalJSON_strict_witness:
  "UnmarshalJSON None (json_text (JObject [(''Clock'', JObject []), (''extra'', JNull)])) =
     Return (Inl DecodingFailed)"
proof -
  let ?v = "JObject [(''Clock'', JObject []), (''extra'', JNull)]"
  have "json_view ?v = ?v"
    by (simp add: coerce_ascii)
  then have parse: "json_parse (json_text ?v) = Some (?v, [])"
    using json_parse_text [of ?v "[]"] by (simp add: max_nesting_def)
  have "find_field ''extra'' = None"
    by (simp add: find_field_def json_fields_def fold_name_def fold_rune_def range_runes_ascii_Cons)
  moreover have "(''extra'', JNull) \<in> set [(''Clock'', JObject []), (''extra'', JNull)]"
    by simp
  ultimately show ?thesis
    using UnmarshalJSON_strict [OF parse, of None] by blast
qed

text \<open>C37. A message that is not readable.  A sender identifier of 256 bytes that are not UTF-8 passes
  \<open>Validate\<close> and \<open>Marshal\<close>, but the encoder replaces every byte by a three-byte code point, and
  \<open>Unmarshal\<close> refuses the bytes that \<open>Marshal\<close> returned because the identifier is too long.\<close>

theorem JSON_Marshal_not_readable:
  "\<exists>m data. Validate (Some m) = None \<and> JSON_Marshal (Some m) = Inr data \<and>
     JSON_Unmarshal data = Return (Inl (ValidationFailed (ErrInvalidSenderID (SenderIDTooLong 768))))"
proof -
  let ?c = "CHR 0xFF"
  let ?m = "\<lparr>Version = 1, SenderID = replicate 256 ?c, MClock = Some (NewClock []), Payload = None,
    Timestamp = zero_time, Metadata = None\<rparr>"
  let ?h = "(to_helper ?m)\<lparr>hSenderID := coerce_utf8 (SenderID ?m)\<rparr>"
  let ?t = "json_text (helper_json (to_helper ?m))"
  have c: "245 \<le> byte_of ?c" by simp
  have valid: "Validate (Some ?m) = None"
    by (simp add: Validate_ok message_ok_def sender_ok_def)
  have nodes: "Clock_Nodes (Some (NewClock [])) = []"
    by (simp add: Clock_Nodes_def NewClock_def)
  obtain k where k: "\<And>t. json_parse (?t @ t) = Some (helper_json ?h, t)"
      "\<And>m0. UnmarshalJSON (Some m0) ?t = Return (Inr (assign_helper m0 (read_back ?h) k))"
    by (rule UnmarshalJSON_text [of ?m]) (use nodes in \<open>auto simp: valid_map_def\<close>)
  have "text_bound (helper_json (to_helper ?m)) \<le> 5000"
    by (simp add: helper_json_def to_helper_def map_json_def bytes_json_def show_int_def show_nat.simps nodes
        zero_time_def Time_IsZero_def)
  then have len: "length ?t \<le> 5000"
    using length_json_text le_trans by blast
  have "Validate (Some (assign_helper zero_message (read_back ?h) k)) =
      Some (ErrInvalidSenderID (SenderIDTooLong 768))"
    using length_invalid_bytes(2) [OF c, of 256]
    by (auto simp: Validate_def assign_zero_message from_helper_def read_back_def to_helper_def
        validateSenderID_def MaxSenderIDLength_def CurrentVersion_def)
  then have "JSON_Unmarshal (string_bytes (?t @ [CHR 0x0A])) =
      Return (Inl (ValidationFailed (ErrInvalidSenderID (SenderIDTooLong 768))))"
    using JSON_Unmarshal_text [where h = "to_helper ?m" and extra = "[]"] k len
    by (simp add: MaxMessageSize_def bytes_string_def)
  moreover have "JSON_Marshal (Some ?m) = Inr (string_bytes (?t @ [CHR 0x0A]))"
    using JSON_Marshal_text [OF valid] len by (simp add: MaxMessageSize_def)
  ultimately show ?thesis using valid by blast
qed

text \<open>C36. The payload limit of \<open>Validate\<close> is 15 MiB, but the JSON text writes the payload in base64: a
  valid message with a payload of 12 MiB or more is always refused as too large.\<close>

theorem JSON_payload_too_large:
  assumes "Validate (Some m) = None" and "12 * 1024 * 1024 \<le> blen (Payload m)"
  shows "JSON_Marshal (Some m) = Inl TooLarge"
proof -
  let ?t = "json_text (helper_json (to_helper m))"
  from assms(2) obtain bs where bs: "Payload m = Some bs" "12582912 \<le> length bs"
    by (cases "Payload m") auto
  have "16777216 \<le> length (base64_encode bs)"
    unfolding length_base64_encode using bs(2) div_le_mono [of 12582912 "length bs + 2" 3] by simp
  also have "\<dots> < length (quote ''payload'' @ CHR '':'' # quote (base64_encode bs))"
    using length_quote [of "base64_encode bs"] by simp
  also have "\<dots> \<le> length ?t"
    using bs(1) by (auto simp: helper_json_def to_helper_def bytes_json_def
        intro!: length_commas_member le_SucI trans_le_add1)
  finally have "MaxMessageSize < length (string_bytes (?t @ [CHR 0x0A]))"
    by (simp add: MaxMessageSize_def)
  with assms(1) show ?thesis
    by (simp add: JSON_Marshal_def MarshalJSON_def Let_def)
qed

theorem JSON_payload_too_large_witness:
  "Validate (Some (demo_json\<lparr>Payload := Some (replicate 12582912 0)\<rparr>)) = None \<and>
   JSON_Marshal (Some (demo_json\<lparr>Payload := Some (replicate 12582912 0)\<rparr>)) = Inl TooLarge"
proof -
  have valid: "Validate (Some (demo_json\<lparr>Payload := Some (replicate 12582912 0)\<rparr>)) = None"
    by (simp add: demo_json_def Validate_ok message_ok_def sender_ok_def)
  have "12 * 1024 * 1024 \<le> blen (Payload (demo_json\<lparr>Payload := Some (replicate 12582912 0)\<rparr>))"
    by simp
  with valid JSON_payload_too_large show ?thesis by blast
qed

text \<open>C34. Every serializer of the default registry keeps the contract of the interface: \<open>Marshal\<close>
  refuses an invalid message and never returns more than the size limit, and \<open>Unmarshal\<close> refuses
  empty and oversized input and returns valid messages only.\<close>

theorem Serializer_contract:
  assumes "Registry_Get (DefaultRegistry newCBOR) n = Some s"
  shows "(\<forall>msg. Validate msg \<noteq> None \<longrightarrow> (\<exists>e. Serializer_Marshal s msg = Inl e)) \<and>
    (\<forall>msg data. Serializer_Marshal s msg = Inr data \<longrightarrow> length data \<le> MaxMessageSize) \<and>
    (\<forall>data m. Serializer_Unmarshal s data = Return (Inr m) \<longrightarrow>
       Validate (Some m) = None \<and> 0 < length data \<and> length data \<le> MaxMessageSize) \<and>
    Serializer_Name s = n"
proof -
  have "Serializer_Name s = n"
    using assms by (cases newCBOR) (auto simp: Registry_Get_def DefaultRegistry_def Registry_Register_def
        NewRegistry_def Serializer_Name_def Let_def split: if_splits)
  moreover have "serializer (Serializer_Marshal s) (Serializer_Unmarshal s)"
    by (cases s) (simp_all add: Serializer_Marshal_def Serializer_Unmarshal_def
        json.serializer_axioms cbor.serializer_axioms)
  ultimately show ?thesis
    by (auto dest: serializer.forwards serializer.marshal_bound intro: serializer.marshal_valid)
qed

theorem Serializer_contract_witness:
  "Serializer_Name JSON = ''json'' \<and>
   (\<exists>e. Serializer_Marshal JSON None = Inl e)"
proof -
  have "Registry_Get (DefaultRegistry (Inl ())) ''json'' = Some JSON"
    by (simp add: Registry_Get_def DefaultRegistry_def Registry_Register_def Serializer_Name_def)
  from Serializer_contract [OF this] show ?thesis
    by (simp add: Validate_def)
qed

end
