(* ===== verification/Transport_Core.thy ===== *)
theory Transport_Core
  imports Go_Prelude "HOL-Library.Sublist"
begin

text \<open>
  What the transports share: the transport-level message, the common errors and the
  configuration of transport/transport.go.
\<close>

record TMessage =
  From :: string
  To :: string
  Seq :: uint64
  Body :: bytes
  TTimestamp :: Time
  VectorClockData :: bytes
  TMetadata :: "(string, string) gomap option"

text \<open>The exported errors, and those the implementations build in place.\<close>

datatype transport_error =
    ErrConnectionClosed
  | ErrListenerClosed
  | ErrDialFailed
  | ErrContextCancelled
  | ErrTransportMessageTooLarge
  | ErrInvalidAddress
  | ErrNotImplemented
  | ListenerExists string
  | NoListener string
  | ListenerQueueFull
  | CannotSendNil

text \<open>Durations are in nanoseconds.\<close>

record TransportConfig =
  MaxMsgSize :: int
  DialTimeout :: int
  ConnectRetries :: int
  ReadTimeout :: int
  WriteTimeout :: int
  NodeName :: string

definition DefaultConfig :: TransportConfig where
  "DefaultConfig =
     \<lparr>MaxMsgSize = 16 * 1024 * 1024, DialTimeout = 10 * 1000000000, ConnectRetries = 3,
      ReadTimeout = 30 * 1000000000, WriteTimeout = 30 * 1000000000, NodeName = []\<rparr>"

section \<open>Contexts\<close>

text \<open>How a \<open>select\<close> sees the caller's context: not done, done, or done and chosen before the other
  ready branches.\<close>

datatype ctx = Live | Done | DoneFirst

section \<open>Ordered channels\<close>

text \<open>
  What a transport promises about the messages between two ends, whatever mixture of operations
  runs: no operation panics, and what was received followed by what is still in transit is what
  was in transit before followed by what was sent.  A step reports an event; \<open>sent_in\<close> and
  \<open>received_in\<close> read the messages sent and received off it.
\<close>

fun run_steps :: "('op \<Rightarrow> 's \<Rightarrow> ('ev \<times> 's) go) \<Rightarrow> 'op list \<Rightarrow> 's \<Rightarrow> ('ev list \<times> 's) go" where
  "run_steps step [] s = Return ([], s)"
| "run_steps step (op # ops) s =
     go_bind (step op s) (\<lambda>(ev, s').
       go_map (\<lambda>(evs, s''). (ev # evs, s'')) (run_steps step ops s'))"

locale ordered_channel =
  fixes step :: "'op \<Rightarrow> 's \<Rightarrow> ('ev \<times> 's) go"
    and inv :: "'s \<Rightarrow> bool"
    and allowed :: "'op \<Rightarrow> bool"
    and in_transit :: "'s \<Rightarrow> 'm list"
    and sent_in :: "'ev \<Rightarrow> 'm list"
    and received_in :: "'ev \<Rightarrow> 'm list"
  assumes step_order: "inv s \<Longrightarrow> allowed op \<Longrightarrow> \<exists>ev s'. step op s = Return (ev, s') \<and> inv s' \<and>
    received_in ev @ in_transit s' = in_transit s @ sent_in ev"
begin

lemma run_order:
  assumes "inv s" and "\<And>op. op \<in> set ops \<Longrightarrow> allowed op"
  shows "\<exists>evs s'. run_steps step ops s = Return (evs, s') \<and> inv s' \<and>
    concat (map received_in evs) @ in_transit s' = in_transit s @ concat (map sent_in evs)"
  using assms
proof (induction ops arbitrary: s)
  case (Cons op ops)
  obtain ev s1 where 1: "step op s = Return (ev, s1)" "inv s1"
      "received_in ev @ in_transit s1 = in_transit s @ sent_in ev"
    using step_order [OF Cons.prems(1), of op] Cons.prems(2) by auto
  obtain evs s2 where 2: "run_steps step ops s1 = Return (evs, s2)" "inv s2"
      "concat (map received_in evs) @ in_transit s2 = in_transit s1 @ concat (map sent_in evs)"
    using Cons.IH [OF 1(2)] Cons.prems(2) by auto
  have "(received_in ev @ concat (map received_in evs)) @ in_transit s2 =
      in_transit s @ sent_in ev @ concat (map sent_in evs)"
    using 1(3) 2(3) by (metis append.assoc)
  with 1 2 show ?case
    by simp
qed simp

lemma run_prefix:
  assumes "inv s" and "\<And>op. op \<in> set ops \<Longrightarrow> allowed op" and "in_transit s = []"
    and "run_steps step ops s = Return (evs, s')"
  shows "prefix (concat (map received_in evs)) (concat (map sent_in evs))"
  using run_order [of s ops] assms by (auto intro: prefixI dest: sym)

end

end
