(* ===== verification/Memory_Transport.thy ===== *)
theory Memory_Transport
  imports Transport_Core
begin

text \<open>
  The in-memory transport of transport/memory.go.  Queues, connections and listeners are objects
  in a store, referred to by their position, because the two ends of a connection share their
  queues.  Messages are pointers and stay abstract (the type variable): the transport hands
  over the pointer it was given.  Each operation is modelled as it runs when no other goroutine
  interferes; a call that would wait forever has no result (\<open>None\<close>).  Whether the context is
  done and which ready branch a \<open>select\<close> takes are arguments.
\<close>

section \<open>Objects\<close>

text \<open>The notifier is a channel with room for one element.\<close>

record 'm memQueue =
  messages :: "'m list"
  token :: bool
  notifier_closed :: bool
  qclosed :: bool

record memoryConnection =
  localAddr :: string
  remoteAddr :: string
  inbound :: nat
  outbound :: nat
  mclosed :: bool

text \<open>The channel of pending connections holds up to 128 of them.\<close>

record memoryListener =
  laddr :: string
  pending :: "nat list"
  chan_closed :: bool
  mlclosed :: bool

record 'm mem_store =
  queues :: "'m memQueue list"
  conns :: "memoryConnection list"
  lstns :: "memoryListener list"

record MemoryTransport =
  listeners :: "(string, nat) gomap"
  routes :: "(string, (string, nat) gomap) gomap"
  mconfig :: TransportConfig
  mtclosed :: bool

definition NewMemoryTransport :: "TransportConfig \<Rightarrow> MemoryTransport" where
  "NewMemoryTransport config =
     \<lparr>listeners = [], routes = [],
      mconfig = (if NodeName config = [] then config\<lparr>NodeName := ''memory-node''\<rparr> else config),
      mtclosed = False\<rparr>"

section \<open>The transport\<close>

definition MemoryTransport_Listen ::
    "string \<Rightarrow> MemoryTransport \<Rightarrow> 'm mem_store
     \<Rightarrow> (transport_error + nat) \<times> MemoryTransport \<times> 'm mem_store" where
  "MemoryTransport_Listen addr t w =
     (if mtclosed t then (Inl ErrListenerClosed, t, w)
      else if map_of (listeners t) addr \<noteq> None then (Inl (ListenerExists addr), t, w)
      else let l = length (lstns w) in
        (Inr l,
         t\<lparr>listeners := mput addr l (listeners t), routes := mput addr [] (routes t)\<rparr>,
         w\<lparr>lstns := lstns w @ [\<lparr>laddr = addr, pending = [], chan_closed = False, mlclosed = False\<rparr>]\<rparr>))"

definition new_memQueue :: "'m memQueue" where
  "new_memQueue = \<lparr>messages = [], token = False, notifier_closed = False, qclosed = False\<rparr>"

definition listener_backlog :: nat where
  "listener_backlog = 128"

text \<open>
  A dial creates two queues and the two ends; the server's end is put into the listener's
  channel.  A send on a closed channel panics, a full channel or a done context is an error.
\<close>

definition MemoryTransport_Dial ::
    "ctx \<Rightarrow> string \<Rightarrow> MemoryTransport \<Rightarrow> 'm mem_store
     \<Rightarrow> ((transport_error + nat) \<times> 'm mem_store) go" where
  "MemoryTransport_Dial ctx addr t w =
     (case map_of (listeners t) addr of
        None \<Rightarrow> Return (Inl (NoListener addr), w)
      | Some l \<Rightarrow>
          if mtclosed t then Return (Inl ErrConnectionClosed, w)
          else
            let listener = lstns w ! l;
                clientOutbound = length (queues w);
                clientInbound = Suc (length (queues w));
                client = length (conns w);
                server = Suc (length (conns w));
                clientConn = \<lparr>localAddr = NodeName (mconfig t), remoteAddr = addr,
                  inbound = clientInbound, outbound = clientOutbound, mclosed = False\<rparr>;
                serverConn = \<lparr>localAddr = addr, remoteAddr = NodeName (mconfig t),
                  inbound = clientOutbound, outbound = clientInbound, mclosed = False\<rparr>;
                w' = w\<lparr>queues := queues w @ [new_memQueue, new_memQueue],
                       conns := conns w @ [clientConn, serverConn]\<rparr>
            in
            if ctx = DoneFirst then Return (Inl ErrContextCancelled, w')
            else if chan_closed listener then Panic SendOnClosedChannel
            else if length (pending listener) < listener_backlog then
              Return (Inr client,
                w'\<lparr>lstns := (lstns w)[l := listener\<lparr>pending := pending listener @ [server]\<rparr>]\<rparr>)
            else if ctx = Done then Return (Inl ErrContextCancelled, w')
            else Return (Inl ListenerQueueFull, w'))"

text \<open>Closing the transport closes the listeners that are still open.\<close>

definition close_listener :: "memoryListener \<Rightarrow> memoryListener go" where
  "close_listener l =
     (if mlclosed l then Return l
      else if chan_closed l then Panic CloseOfClosedChannel
      else Return (l\<lparr>mlclosed := True, chan_closed := True\<rparr>))"

fun close_listeners :: "(string, nat) gomap \<Rightarrow> memoryListener list \<Rightarrow> memoryListener list go" where
  "close_listeners [] ls = Return ls"
| "close_listeners ((addr, l) # m) ls =
     go_bind (close_listener (ls ! l)) (\<lambda>l'. close_listeners m (ls[l := l']))"

definition MemoryTransport_Close ::
    "MemoryTransport \<Rightarrow> 'm mem_store \<Rightarrow> (MemoryTransport \<times> 'm mem_store) go" where
  "MemoryTransport_Close t w =
     (if mtclosed t then Return (t, w)
      else go_map (\<lambda>ls. (t\<lparr>mtclosed := True\<rparr>, w\<lparr>lstns := ls\<rparr>))
        (close_listeners (listeners t) (lstns w)))"

section \<open>Listeners\<close>

text \<open>
  An accept takes the oldest pending connection; it has no result while there is none.  On a
  closed empty channel the receive yields nil, and the call returns a nil connection without an
  error.  The \<open>select\<close> is a definition of its own because a waiting call goes on from there.
\<close>

definition accept_select ::
    "ctx \<Rightarrow> nat \<Rightarrow> 'm mem_store \<Rightarrow> ((transport_error + nat option) \<times> 'm mem_store) option" where
  "accept_select ctx l w =
     (let listener = lstns w ! l in
      if ctx = DoneFirst then Some (Inl ErrContextCancelled, w)
      else case pending listener of
        c # cs \<Rightarrow> Some (Inr (Some c), w\<lparr>lstns := (lstns w)[l := listener\<lparr>pending := cs\<rparr>]\<rparr>)
      | [] \<Rightarrow>
          if chan_closed listener then Some (Inr None, w)
          else if ctx = Done then Some (Inl ErrContextCancelled, w)
          else None)"

definition memoryListener_Accept ::
    "ctx \<Rightarrow> nat \<Rightarrow> 'm mem_store \<Rightarrow> ((transport_error + nat option) \<times> 'm mem_store) option" where
  "memoryListener_Accept ctx l w =
     (if mlclosed (lstns w ! l) then Some (Inl ErrListenerClosed, w) else accept_select ctx l w)"

definition memoryListener_Close :: "nat \<Rightarrow> 'm mem_store \<Rightarrow> 'm mem_store go" where
  "memoryListener_Close l w =
     (let listener = lstns w ! l in
      if chan_closed listener then Panic CloseOfClosedChannel
      else Return (w\<lparr>lstns := (lstns w)[l := listener\<lparr>mlclosed := True, chan_closed := True\<rparr>]\<rparr>))"

section \<open>Connections\<close>

definition upd_queue :: "nat \<Rightarrow> ('m memQueue \<Rightarrow> 'm memQueue) \<Rightarrow> 'm mem_store \<Rightarrow> 'm mem_store" where
  "upd_queue q f w = w\<lparr>queues := (queues w)[q := f (queues w ! q)]\<rparr>"

text \<open>Putting an element into the notifier without waiting; a full notifier drops it.\<close>

definition notify :: "nat \<Rightarrow> 'm mem_store \<Rightarrow> 'm mem_store go" where
  "notify q w =
     (if notifier_closed (queues w ! q) then Panic SendOnClosedChannel
      else Return (upd_queue q (\<lambda>Q. Q\<lparr>token := True\<rparr>) w))"

definition memoryConnection_Send ::
    "ctx \<Rightarrow> 'm option \<Rightarrow> nat \<Rightarrow> 'm mem_store \<Rightarrow> (transport_error option \<times> 'm mem_store) go" where
  "memoryConnection_Send ctx msg c w =
     (let C = conns w ! c in
      if mclosed C then Return (Some ErrConnectionClosed, w)
      else case msg of
        None \<Rightarrow> Return (Some CannotSendNil, w)
      | Some m \<Rightarrow>
          if ctx = DoneFirst then Return (Some ErrContextCancelled, w)
          else if qclosed (queues w ! outbound C) then Return (Some ErrConnectionClosed, w)
          else go_map (\<lambda>w. (None, w))
            (notify (outbound C) (upd_queue (outbound C) (\<lambda>Q. Q\<lparr>messages := messages Q @ [m]\<rparr>) w)))"

text \<open>
  The loop of \<open>Recv\<close>.  Each round that goes on takes the notifier's element, so there are at
  most two rounds.  The result \<open>None\<close> is a call that waits in the \<open>select\<close>.
\<close>

function recv_loop ::
    "ctx \<Rightarrow> memoryConnection \<Rightarrow> 'm memQueue \<Rightarrow> (transport_error + 'm) option \<times> 'm memQueue" where
  "recv_loop ctx C Q =
     (if mclosed C then (Some (Inl ErrConnectionClosed), Q)
      else case messages Q of
        m # ms \<Rightarrow> (Some (Inr m), Q\<lparr>messages := ms\<rparr>)
      | [] \<Rightarrow>
          if qclosed Q then (Some (Inl ErrConnectionClosed), Q)
          else if ctx = DoneFirst then (Some (Inl ErrContextCancelled), Q)
          else if token Q then recv_loop ctx C (Q\<lparr>token := False\<rparr>)
          else if notifier_closed Q then (Some (Inl ErrConnectionClosed), Q)
          else if ctx = Done then (Some (Inl ErrContextCancelled), Q)
          else (None, Q))"
  by pat_completeness auto

termination
  by (relation "measure (\<lambda>(ctx, C, Q). if token Q then 1 else 0)") auto

definition memoryConnection_Recv ::
    "ctx \<Rightarrow> nat \<Rightarrow> 'm mem_store \<Rightarrow> (transport_error + 'm) option \<times> 'm mem_store" where
  "memoryConnection_Recv ctx c w =
     (let C = conns w ! c in
      case recv_loop ctx C (queues w ! inbound C) of
        (r, Q) \<Rightarrow> (r, upd_queue (inbound C) (\<lambda>_. Q) w))"

definition close_queue :: "nat \<Rightarrow> 'm mem_store \<Rightarrow> 'm mem_store go" where
  "close_queue q w =
     (if qclosed (queues w ! q) then Return w
      else if notifier_closed (queues w ! q) then Panic CloseOfClosedChannel
      else Return (upd_queue q (\<lambda>Q. Q\<lparr>qclosed := True, notifier_closed := True\<rparr>) w))"

definition memoryConnection_Close :: "nat \<Rightarrow> 'm mem_store \<Rightarrow> 'm mem_store go" where
  "memoryConnection_Close c w =
     (let C = conns w ! c in
      if mclosed C then Return w
      else go_bind (close_queue (inbound C) (w\<lparr>conns := (conns w)[c := C\<lparr>mclosed := True\<rparr>]\<rparr>))
        (close_queue (outbound C)))"

definition GetAllMessages :: "nat \<Rightarrow> 'm mem_store \<Rightarrow> 'm list" where
  "GetAllMessages c w = messages (queues w ! outbound (conns w ! c))"

definition ClearMessages :: "nat \<Rightarrow> 'm mem_store \<Rightarrow> 'm mem_store" where
  "ClearMessages c w = upd_queue (outbound (conns w ! c)) (\<lambda>Q. Q\<lparr>messages := []\<rparr>) w"

definition memoryListener_Addr :: "nat \<Rightarrow> 'm mem_store \<Rightarrow> string" where
  "memoryListener_Addr l w = laddr (lstns w ! l)"

definition memoryConnection_LocalAddr :: "nat \<Rightarrow> 'm mem_store \<Rightarrow> string" where
  "memoryConnection_LocalAddr c w = localAddr (conns w ! c)"

definition memoryConnection_RemoteAddr :: "nat \<Rightarrow> 'm mem_store \<Rightarrow> string" where
  "memoryConnection_RemoteAddr c w = remoteAddr (conns w ! c)"

declare recv_loop.simps [simp del]

section \<open>Invariant\<close>

text \<open>
  A queue is closed together with its notifier and a listener together with its channel;
  references point into the store; the two queues of an end are different.
\<close>

definition queue_ok :: "'m memQueue \<Rightarrow> bool" where
  "queue_ok Q \<longleftrightarrow> (qclosed Q \<longleftrightarrow> notifier_closed Q)"

definition conn_ok :: "nat \<Rightarrow> memoryConnection \<Rightarrow> bool" where
  "conn_ok n C \<longleftrightarrow> inbound C < n \<and> outbound C < n \<and> inbound C \<noteq> outbound C"

definition lstn_ok :: "nat \<Rightarrow> memoryListener \<Rightarrow> bool" where
  "lstn_ok n l \<longleftrightarrow> (mlclosed l \<longleftrightarrow> chan_closed l) \<and> length (pending l) \<le> listener_backlog \<and>
     (\<forall>c \<in> set (pending l). c < n)"

definition mem_ok :: "'m mem_store \<Rightarrow> bool" where
  "mem_ok w \<longleftrightarrow> list_all queue_ok (queues w) \<and> list_all (conn_ok (length (queues w))) (conns w) \<and>
     list_all (lstn_ok (length (conns w))) (lstns w)"

definition tables_ok :: "MemoryTransport \<Rightarrow> 'm mem_store \<Rightarrow> bool" where
  "tables_ok t w \<longleftrightarrow> mwf (listeners t) \<and> (\<forall>l \<in> ran (map_of (listeners t)). l < length (lstns w))"

text \<open>The queues of each end never change.\<close>

definition ends :: "'m mem_store \<Rightarrow> (nat \<times> nat) list" where
  "ends w = map (\<lambda>C. (inbound C, outbound C)) (conns w)"

lemma mem_okD:
  assumes "mem_ok w"
  shows "q < length (queues w) \<Longrightarrow> qclosed (queues w ! q) \<longleftrightarrow> notifier_closed (queues w ! q)"
    and "c < length (conns w) \<Longrightarrow> inbound (conns w ! c) < length (queues w)"
    and "c < length (conns w) \<Longrightarrow> outbound (conns w ! c) < length (queues w)"
    and "c < length (conns w) \<Longrightarrow> inbound (conns w ! c) \<noteq> outbound (conns w ! c)"
    and "l < length (lstns w) \<Longrightarrow> lstn_ok (length (conns w)) (lstns w ! l)"
  using assms by (simp_all add: mem_ok_def list_all_length queue_ok_def conn_ok_def)

lemma list_all_update: "list_all P xs \<Longrightarrow> P x \<Longrightarrow> list_all P (xs[i := x])"
  using set_update_subset_insert [of xs i x] by (auto simp: list_all_iff)

lemma upd_queue_simps [simp]:
  "conns (upd_queue q f w) = conns w"
  "lstns (upd_queue q f w) = lstns w"
  "length (queues (upd_queue q f w)) = length (queues w)"
  by (simp_all add: upd_queue_def)

lemma upd_queue_nth:
  "q < length (queues w) \<Longrightarrow>
     queues (upd_queue q f w) ! p = (if p = q then f (queues w ! q) else queues w ! p)"
  by (simp add: upd_queue_def nth_list_update)

lemma mem_ok_upd_queue:
  "mem_ok w \<Longrightarrow> queue_ok (f (queues w ! q)) \<Longrightarrow> mem_ok (upd_queue q f w)"
  by (simp add: mem_ok_def upd_queue_def list_all_update)

section \<open>Connection operations as steps\<close>

datatype 'm mem_op =
    OpSend ctx "'m option" nat
  | OpRecv ctx nat
  | OpClose nat

text \<open>What the caller sees: a message accepted, a message delivered, an error, a call that
  waits, a closed end.\<close>

datatype 'm mem_event =
    Sent nat 'm
  | Received nat 'm
  | Failed transport_error
  | Waits
  | Closed

fun op_conn :: "'m mem_op \<Rightarrow> nat" where
  "op_conn (OpSend ctx msg c) = c"
| "op_conn (OpRecv ctx c) = c"
| "op_conn (OpClose c) = c"

fun mem_step :: "'m mem_op \<Rightarrow> 'm mem_store \<Rightarrow> ('m mem_event \<times> 'm mem_store) go" where
  "mem_step (OpSend ctx msg c) w =
     go_map (\<lambda>(r, w'). (case r of None \<Rightarrow> Sent c (the msg) | Some e \<Rightarrow> Failed e, w'))
       (memoryConnection_Send ctx msg c w)"
| "mem_step (OpRecv ctx c) w =
     (case memoryConnection_Recv ctx c w of
        (None, w') \<Rightarrow> Return (Waits, w')
      | (Some (Inl e), w') \<Rightarrow> Return (Failed e, w')
      | (Some (Inr m), w') \<Rightarrow> Return (Received c m, w'))"
| "mem_step (OpClose c) w = go_map (\<lambda>w'. (Closed, w')) (memoryConnection_Close c w)"

fun sent_on :: "(nat \<times> nat) list \<Rightarrow> nat \<Rightarrow> 'm mem_event \<Rightarrow> 'm list" where
  "sent_on K q (Sent c m) = (if snd (K ! c) = q then [m] else [])"
| "sent_on K q ev = []"

fun received_on :: "(nat \<times> nat) list \<Rightarrow> nat \<Rightarrow> 'm mem_event \<Rightarrow> 'm list" where
  "received_on K q (Received c m) = (if fst (K ! c) = q then [m] else [])"
| "received_on K q ev = []"

text \<open>Each operation of a valid end: what it returns and what it does to the queues.\<close>

lemma Send_effect:
  assumes "mem_ok w" and "c < length (conns w)"
  shows "memoryConnection_Send ctx msg c w =
    (let q = outbound (conns w ! c) in
     Return
      (if mclosed (conns w ! c) then (Some ErrConnectionClosed, w)
       else if msg = None then (Some CannotSendNil, w)
       else if ctx = DoneFirst then (Some ErrContextCancelled, w)
       else if qclosed (queues w ! q) then (Some ErrConnectionClosed, w)
       else (None, upd_queue q (\<lambda>Q. Q\<lparr>messages := messages Q @ [the msg], token := True\<rparr>) w)))"
  using mem_okD(1,3) [OF assms(1)] assms(2)
  by (auto simp: memoryConnection_Send_def Let_def notify_def upd_queue_nth upd_queue_def
      split: option.splits)

lemma recv_loop_effect:
  assumes "queue_ok Q"
  shows "recv_loop ctx C Q =
    (if mclosed C then (Some (Inl ErrConnectionClosed), Q)
     else case messages Q of
       m # ms \<Rightarrow> (Some (Inr m), Q\<lparr>messages := ms\<rparr>)
     | [] \<Rightarrow>
         if qclosed Q then (Some (Inl ErrConnectionClosed), Q)
         else if ctx = DoneFirst then (Some (Inl ErrContextCancelled), Q)
         else (if ctx = Done then Some (Inl ErrContextCancelled) else None, Q\<lparr>token := False\<rparr>))"
proof -
  have "recv_loop ctx C Q = (if mclosed C then (Some (Inl ErrConnectionClosed), Q)
     else case messages Q of
       m # ms \<Rightarrow> (Some (Inr m), Q\<lparr>messages := ms\<rparr>)
     | [] \<Rightarrow>
         if qclosed Q then (Some (Inl ErrConnectionClosed), Q)
         else if ctx = DoneFirst then (Some (Inl ErrContextCancelled), Q)
         else (if ctx = Done then Some (Inl ErrContextCancelled) else None, Q))"
    if "\<not> token Q" "queue_ok Q" for Q :: "'a memQueue"
    using that by (subst recv_loop.simps) (auto simp: queue_ok_def split: list.splits)
  from this [of Q] this [of "Q\<lparr>token := False\<rparr>"] assms show ?thesis
    by (cases "token Q", subst recv_loop.simps) (auto simp: queue_ok_def split: list.splits)
qed

lemma recv_loop_order:
  assumes "queue_ok Q" and "recv_loop ctx C Q = (r, Q')"
  shows "queue_ok Q' \<and> (case r of Some (Inr m) \<Rightarrow> messages Q = m # messages Q' | _ \<Rightarrow> messages Q' = messages Q)"
  using assms recv_loop_effect [OF assms(1), of ctx C]
  by (auto simp: queue_ok_def split: list.splits if_splits)

lemma upd_queue_closed:
  assumes "qclosed (queues w ! q)" and "notifier_closed (queues w ! q)"
  shows "upd_queue q (\<lambda>Q. Q\<lparr>qclosed := True, notifier_closed := True\<rparr>) w = w"
proof -
  have "(queues w ! q)\<lparr>qclosed := True, notifier_closed := True\<rparr> = queues w ! q"
    using assms by (cases "queues w ! q") simp
  then show ?thesis
    by (simp add: upd_queue_def)
qed

lemma Close_effect:
  assumes "mem_ok w" and "c < length (conns w)"
  shows "memoryConnection_Close c w = Return
    (if mclosed (conns w ! c) then w
     else upd_queue (outbound (conns w ! c)) (\<lambda>Q. Q\<lparr>qclosed := True, notifier_closed := True\<rparr>)
       (upd_queue (inbound (conns w ! c)) (\<lambda>Q. Q\<lparr>qclosed := True, notifier_closed := True\<rparr>)
         (w\<lparr>conns := (conns w)[c := (conns w ! c)\<lparr>mclosed := True\<rparr>]\<rparr>)))"
proof -
  let ?i = "inbound (conns w ! c)" and ?o = "outbound (conns w ! c)"
  have "?i < length (queues w)" "?o < length (queues w)" "?i \<noteq> ?o"
    using assms by (auto dest: mem_okD)
  moreover have "upd_queue q (\<lambda>Q. Q\<lparr>qclosed := True, notifier_closed := True\<rparr>) v = v"
    if "qclosed (queues v ! q)" "notifier_closed (queues v ! q)" for q and v :: "'a mem_store"
    using that by (rule upd_queue_closed)
  ultimately show ?thesis
    using mem_okD(1) [OF assms(1), of ?i] mem_okD(1) [OF assms(1), of ?o]
    by (auto simp: memoryConnection_Close_def close_queue_def Let_def upd_queue_nth)
qed

definition peers :: "'m mem_store \<Rightarrow> nat \<Rightarrow> nat \<Rightarrow> bool" where
  "peers w c d \<longleftrightarrow> c < length (conns w) \<and> d < length (conns w) \<and> c \<noteq> d \<and>
     inbound (conns w ! d) = outbound (conns w ! c) \<and> outbound (conns w ! d) = inbound (conns w ! c)"

text \<open>The invariant and the order of one queue, for each kind of step.\<close>

definition queue_inv :: "(nat \<times> nat) list \<Rightarrow> nat \<Rightarrow> 'm mem_store \<Rightarrow> bool" where
  "queue_inv K q w \<longleftrightarrow> mem_ok w \<and> ends w = K \<and> q < length (queues w)"

lemma ends_nth:
  "ends w = K \<Longrightarrow> c < length K \<Longrightarrow>
     c < length (conns w) \<and> fst (K ! c) = inbound (conns w ! c) \<and> snd (K ! c) = outbound (conns w ! c)"
  by (auto simp: ends_def)

lemma ends_upd_queue [simp]: "ends (upd_queue q f w) = ends w"
  by (simp add: ends_def)

lemma ends_close [simp]:
  "ends (w\<lparr>conns := (conns w)[c := (conns w ! c)\<lparr>mclosed := b\<rparr>]\<rparr>) = ends w"
  by (cases "c < length (conns w)") (auto simp: ends_def nth_list_update intro!: nth_equalityI)

lemma mem_ok_close:
  "mem_ok w \<Longrightarrow> c < length (conns w) \<Longrightarrow> mem_ok (w\<lparr>conns := (conns w)[c := (conns w ! c)\<lparr>mclosed := b\<rparr>]\<rparr>)"
  by (auto simp: mem_ok_def conn_ok_def list_all_length nth_list_update)

lemma Send_step_order:
  assumes "queue_inv K q w" and "c < length K"
  shows "\<exists>ev w'. mem_step (OpSend ctx msg c) w = Return (ev, w') \<and> queue_inv K q w' \<and>
    received_on K q ev @ messages (queues w' ! q) = messages (queues w ! q) @ sent_on K q ev"
proof -
  have w: "mem_ok w" "ends w = K" "q < length (queues w)"
    and c: "c < length (conns w)" "snd (K ! c) = outbound (conns w ! c)"
    using assms ends_nth [of w K c] by (auto simp: queue_inv_def)
  then show ?thesis
    using mem_okD(1,3) [OF w(1)]
    by (auto simp: Send_effect Let_def queue_inv_def upd_queue_nth queue_ok_def
        intro!: mem_ok_upd_queue split: option.splits)
qed

lemma Recv_step_order:
  assumes "queue_inv K q w" and "c < length K"
  shows "\<exists>ev w'. mem_step (OpRecv ctx c) w = Return (ev, w') \<and> queue_inv K q w' \<and>
    received_on K q ev @ messages (queues w' ! q) = messages (queues w ! q) @ sent_on K q ev"
proof -
  have w: "mem_ok w" "ends w = K" "q < length (queues w)"
    and c: "c < length (conns w)" "fst (K ! c) = inbound (conns w ! c)"
    using assms ends_nth [of w K c] by (auto simp: queue_inv_def)
  let ?i = "inbound (conns w ! c)"
  have i: "?i < length (queues w)" "queue_ok (queues w ! ?i)"
    using w(1) c(1) by (auto simp: mem_okD queue_ok_def)
  obtain r Q where rQ: "recv_loop ctx (conns w ! c) (queues w ! ?i) = (r, Q)"
    by fastforce
  then have "queue_inv K q (upd_queue ?i (\<lambda>_. Q) w)"
    using recv_loop_order [OF i(2) rQ] w by (simp add: queue_inv_def mem_ok_upd_queue)
  then show ?thesis
    using recv_loop_order [OF i(2) rQ] rQ i(1) c(2)
    by (auto simp: memoryConnection_Recv_def Let_def upd_queue_nth split: option.splits sum.splits)
qed

lemma Close_step_order:
  assumes "queue_inv K q w" and "c < length K"
  shows "\<exists>ev w'. mem_step (OpClose c) w = Return (ev, w') \<and> queue_inv K q w' \<and>
    received_on K q ev @ messages (queues w' ! q) = messages (queues w ! q) @ sent_on K q ev"
proof -
  have w: "mem_ok w" "ends w = K" "q < length (queues w)" and c: "c < length (conns w)"
    using assms ends_nth [of w K c] by (auto simp: queue_inv_def)
  then show ?thesis
    using mem_okD(2,3) [OF w(1) c]
    by (auto simp: Close_effect queue_inv_def upd_queue_nth queue_ok_def
        intro!: mem_ok_upd_queue mem_ok_close)
qed

interpretation mem: ordered_channel mem_step "queue_inv K q" "\<lambda>op. op_conn op < length K"
  "\<lambda>w. messages (queues w ! q)" "sent_on K q" "received_on K q" for K q
proof
  fix w :: "'m mem_store" and op :: "'m mem_op"
  assume "queue_inv K q w" "op_conn op < length K"
  then show "\<exists>ev w'. mem_step op w = Return (ev, w') \<and> queue_inv K q w' \<and>
      received_on K q ev @ messages (queues w' ! q) = messages (queues w ! q) @ sent_on K q ev"
    by (cases op) (simp_all del: mem_step.simps add: Send_step_order Recv_step_order Close_step_order)
qed

section \<open>Properties\<close>

text \<open>A store with one open connection, for the witnesses.\<close>

definition demo_store :: "nat mem_store" where
  "demo_store =
     \<lparr>queues = [new_memQueue, new_memQueue],
      conns = [\<lparr>localAddr = ''m'', remoteAddr = ''s'', inbound = 1, outbound = 0, mclosed = False\<rparr>,
               \<lparr>localAddr = ''s'', remoteAddr = ''m'', inbound = 0, outbound = 1, mclosed = False\<rparr>],
      lstns = [\<lparr>laddr = ''s'', pending = [1], chan_closed = False, mlclosed = False\<rparr>]\<rparr>"

lemma demo_store_ok: "mem_ok demo_store" "peers demo_store 0 1"
  "ends demo_store = [(1, 0), (0, 1)]" "length (conns demo_store) = 2"
  "length (queues demo_store) = 2" "messages (queues demo_store ! 0) = []"
  "\<not> mclosed (conns demo_store ! 0)" "\<not> mclosed (conns demo_store ! 1)"
  by (simp_all add: demo_store_def mem_ok_def queue_ok_def conn_ok_def lstn_ok_def new_memQueue_def
      listener_backlog_def peers_def ends_def)

text \<open>C5. Messages are neither lost, invented, duplicated nor reordered, and no call panics: in
  every sequence of sends, receives and closes by any of the ends, with contexts done or not, the
  messages received from a queue followed by those left in it are those that were in it before
  followed by those that sends have accepted for it.\<close>

theorem memory_fifo:
  assumes "mem_ok w" and "q < length (queues w)"
    and "list_all (\<lambda>op. op_conn op < length (conns w)) ops"
  shows "\<exists>evs w'. run_steps mem_step ops w = Return (evs, w') \<and> mem_ok w' \<and>
    concat (map (received_on (ends w) q) evs) @ messages (queues w' ! q) =
    messages (queues w ! q) @ concat (map (sent_on (ends w) q) evs)"
  using mem.run_order [of "ends w" q w ops] assms by (auto simp: queue_inv_def ends_def list_all_iff)

theorem memory_fifo_witness:
  "\<exists>evs w'. run_steps mem_step
      [OpSend Live (Some 5) 0, OpRecv Live 1, OpSend Done (Some 6) 0, OpClose 0] demo_store =
        Return (evs, w') \<and> mem_ok w' \<and>
    concat (map (received_on [(1, 0), (0, 1)] 0) evs) @ messages (queues w' ! 0) =
    concat (map (sent_on [(1, 0), (0, 1)] 0) evs)"
  using memory_fifo [of demo_store 0
      "[OpSend Live (Some 5) 0, OpRecv Live 1, OpSend Done (Some 6) 0, OpClose 0]"] demo_store_ok
  by (auto simp del: run_steps.simps)

lemma Recv_drains:
  assumes "mem_ok w" and "c < length (conns w)" and "\<not> mclosed (conns w ! c)"
    and "qclosed (queues w ! inbound (conns w ! c))"
  shows "messages (queues w ! inbound (conns w ! c)) = ms \<Longrightarrow>
    \<exists>w'. run_steps mem_step (replicate (Suc (length ms)) (OpRecv ctx c)) w =
      Return (map (Received c) ms @ [Failed ErrConnectionClosed], w')"
  using assms
proof (induction ms arbitrary: w)
  case Nil
  then show ?case
    using mem_okD(1,2) [OF Nil(2)]
    by (simp add: memoryConnection_Recv_def Let_def recv_loop_effect queue_ok_def)
next
  case (Cons m ms)
  let ?i = "inbound (conns w ! c)"
  let ?w = "upd_queue ?i (\<lambda>_. (queues w ! ?i)\<lparr>messages := ms\<rparr>) w"
  have i: "?i < length (queues w)" "queue_ok (queues w ! ?i)"
    using mem_okD(1,2) [OF Cons.prems(2)] Cons.prems(3) by (simp_all add: queue_ok_def)
  have "mem_step (OpRecv ctx c) w = Return (Received c m, ?w)"
    using i Cons.prems by (simp add: memoryConnection_Recv_def Let_def recv_loop_effect)
  moreover have "\<exists>w'. run_steps mem_step (replicate (Suc (length ms)) (OpRecv ctx c)) ?w =
      Return (map (Received c) ms @ [Failed ErrConnectionClosed], w')"
    by (rule Cons.IH)
      (use i Cons.prems in \<open>simp_all add: upd_queue_nth mem_ok_upd_queue queue_ok_def\<close>)
  ultimately show ?case
    by (auto simp del: mem_step.simps)
qed

text \<open>C24. A peer's close loses nothing that was sent: after one end closes, the other end, still
  open, receives every message left in its queue, in order, and then the closed-connection error;
  no receive waits.  Both ends refuse further sends, closing again changes nothing, and
  the closing end receives nothing more.\<close>

theorem memory_close_drains:
  assumes "mem_ok w" and "peers w c d" and "\<not> mclosed (conns w ! c)" and "\<not> mclosed (conns w ! d)"
    and "memoryConnection_Close d w = Return w'"
  shows "(\<exists>w''. run_steps mem_step
      (replicate (Suc (length (messages (queues w ! inbound (conns w ! c))))) (OpRecv ctx c)) w' =
      Return (map (Received c) (messages (queues w ! inbound (conns w ! c))) @
        [Failed ErrConnectionClosed], w'')) \<and>
    memoryConnection_Send Live (Some m) c w' = Return (Some ErrConnectionClosed, w') \<and>
    memoryConnection_Send Live (Some m) d w' = Return (Some ErrConnectionClosed, w') \<and>
    memoryConnection_Close d w' = Return w' \<and>
    fst (memoryConnection_Recv ctx d w') = Some (Inl ErrConnectionClosed)"
proof -
  let ?i = "inbound (conns w ! c)" and ?o = "outbound (conns w ! c)"
  have d: "c < length (conns w)" "d < length (conns w)" "c \<noteq> d"
      "inbound (conns w ! d) = ?o" "outbound (conns w ! d) = ?i"
    using assms(2) by (simp_all add: peers_def)
  have q: "?i < length (queues w)" "?o < length (queues w)" "?i \<noteq> ?o"
    using mem_okD(2-4) [OF assms(1) d(1)] by simp_all
  have w': "w' = upd_queue ?i (\<lambda>Q. Q\<lparr>qclosed := True, notifier_closed := True\<rparr>)
      (upd_queue ?o (\<lambda>Q. Q\<lparr>qclosed := True, notifier_closed := True\<rparr>)
        (w\<lparr>conns := (conns w)[d := (conns w ! d)\<lparr>mclosed := True\<rparr>]\<rparr>))"
    using Close_effect [OF assms(1) d(2)] assms(4,5) d by simp
  have ok: "mem_ok w'"
    unfolding w' using assms(1) d q
    by (intro mem_ok_upd_queue mem_ok_close) (simp_all add: queue_ok_def upd_queue_nth)
  have c': "conns w' ! c = conns w ! c" "mclosed (conns w' ! d)" "length (conns w') = length (conns w)"
    using d by (simp_all add: w')
  have q': "qclosed (queues w' ! ?i)" "qclosed (queues w' ! ?o)"
      "messages (queues w' ! ?i) = messages (queues w ! ?i)"
    using q by (simp_all add: w' upd_queue_nth)
  have "\<exists>w''. run_steps mem_step (replicate (Suc (length (messages (queues w ! ?i)))) (OpRecv ctx c)) w' =
      Return (map (Received c) (messages (queues w ! ?i)) @ [Failed ErrConnectionClosed], w'')"
    using Recv_drains [of w' c "messages (queues w ! ?i)" ctx] ok c' q' d assms(3) by simp
  then show ?thesis
    using Send_effect [OF ok] Close_effect [OF ok] c' q' d assms(3)
    by (simp add: Let_def memoryConnection_Recv_def recv_loop.simps)
qed

theorem memory_close_drains_witness:
  "\<exists>w w' w''. mem_step (OpSend Live (Some 5) 0) demo_store = Return (Sent 0 5, w) \<and>
     memoryConnection_Close 0 w = Return w' \<and>
     run_steps mem_step [OpRecv Live 1, OpRecv Live 1] w' =
       Return ([Received 1 5, Failed ErrConnectionClosed], w'')"
proof -
  let ?w = "upd_queue 0 (\<lambda>Q. Q\<lparr>messages := messages Q @ [5], token := True\<rparr>) demo_store"
  have "mem_step (OpSend Live (Some 5) 0) demo_store = Return (Sent 0 5, ?w)"
    by (simp add: Send_effect demo_store_ok Let_def) (simp add: demo_store_def new_memQueue_def)
  moreover have w: "mem_ok ?w" "peers ?w 1 0" "\<not> mclosed (conns ?w ! 1)" "\<not> mclosed (conns ?w ! 0)"
      "messages (queues ?w ! inbound (conns ?w ! 1)) = [5]"
    by (simp_all add: demo_store_def mem_ok_def queue_ok_def conn_ok_def lstn_ok_def new_memQueue_def
        listener_backlog_def peers_def upd_queue_def)
  moreover obtain w' where "memoryConnection_Close 0 ?w = Return w'"
    using Close_effect [OF w(1), of 0] demo_store_ok by simp
  ultimately show ?thesis
    using memory_close_drains [of ?w 1 0 w' Live] 
    by (auto simp del: run_steps.simps mem_step.simps simp: numeral_2_eq_2)
qed

section \<open>Connecting\<close>

lemma conn_ok_mono: "conn_ok n C \<Longrightarrow> n \<le> n' \<Longrightarrow> conn_ok n' C"
  by (auto simp: conn_ok_def)

lemma lstn_ok_mono: "lstn_ok n l \<Longrightarrow> n \<le> n' \<Longrightarrow> lstn_ok n' l"
  by (auto simp: lstn_ok_def)

lemma queue_ok_new [simp]: "queue_ok new_memQueue"
  by (simp add: queue_ok_def new_memQueue_def)

text \<open>Adding two queues and two ends keeps the invariant.\<close>

lemma mem_ok_extend:
  assumes "mem_ok w" and "list_all queue_ok Qs" and "list_all (conn_ok (length (queues w @ Qs))) Cs"
    and "list_all (lstn_ok (length (conns w @ Cs))) ls"
  shows "mem_ok (w\<lparr>queues := queues w @ Qs, conns := conns w @ Cs, lstns := ls\<rparr>)"
  using assms unfolding mem_ok_def
  by (auto simp: list_all_iff intro: conn_ok_mono)

lemma Dial_effect:
  assumes "mem_ok w" and "tables_ok t w" and "map_of (listeners t) addr = Some l"
    and "\<not> mtclosed t" and "\<not> chan_closed (lstns w ! l)"
    and "length (pending (lstns w ! l)) < listener_backlog" and "ctx \<noteq> DoneFirst"
  shows "\<exists>w'. MemoryTransport_Dial ctx addr t w = Return (Inr (length (conns w)), w') \<and>
    mem_ok w' \<and> tables_ok t w' \<and> peers w' (length (conns w)) (Suc (length (conns w))) \<and>
    queues w' = queues w @ [new_memQueue, new_memQueue] \<and> take (length (conns w)) (conns w') = conns w \<and>
    length (conns w') = length (conns w) + 2 \<and>
    outbound (conns w' ! length (conns w)) = length (queues w) \<and>
    inbound (conns w' ! length (conns w)) = Suc (length (queues w)) \<and>
    pending (lstns w' ! l) = pending (lstns w ! l) @ [Suc (length (conns w))] \<and>
    memoryConnection_LocalAddr (length (conns w)) w' = NodeName (mconfig t) \<and> memoryConnection_RemoteAddr (length (conns w)) w' = addr \<and>
    memoryConnection_LocalAddr (Suc (length (conns w))) w' = addr \<and> memoryConnection_RemoteAddr (Suc (length (conns w))) w' = NodeName (mconfig t)"
proof -
  let ?n = "length (conns w)" and ?q = "length (queues w)"
  let ?L = "(lstns w ! l)\<lparr>pending := pending (lstns w ! l) @ [Suc ?n]\<rparr>"
  let ?C = "\<lparr>localAddr = NodeName (mconfig t), remoteAddr = addr,
    inbound = Suc ?q, outbound = ?q, mclosed = False\<rparr>"
  let ?S = "\<lparr>localAddr = addr, remoteAddr = NodeName (mconfig t),
    inbound = ?q, outbound = Suc ?q, mclosed = False\<rparr>"
  let ?w = "w\<lparr>queues := queues w @ [new_memQueue, new_memQueue], conns := conns w @ [?C, ?S],
    lstns := (lstns w)[l := ?L]\<rparr>"
  have l: "l < length (lstns w)"
    using assms(2,3) by (auto simp: tables_ok_def ran_def)
  then have "lstn_ok (?n + 2) ?L"
    using mem_okD(5) [OF assms(1), of l] assms(6) by (auto simp: lstn_ok_def)
  moreover have "list_all (lstn_ok (?n + 2)) (lstns w)"
    using assms(1) by (auto simp: mem_ok_def list_all_iff intro: lstn_ok_mono)
  ultimately have ok: "mem_ok ?w"
    using assms(1) by (intro mem_ok_extend) (simp_all add: list_all_update conn_ok_def)
  have "MemoryTransport_Dial ctx addr t w = Return (Inr ?n, ?w)"
    using assms(3-7) by (simp add: MemoryTransport_Dial_def Let_def)
  with ok l assms(2) show ?thesis
    by (simp add: tables_ok_def peers_def nth_append memoryConnection_LocalAddr_def
        memoryConnection_RemoteAddr_def)
qed

text \<open>C25. Dialling a listening address connects: with room in the listener's channel, a dial
  returns a client end and puts a server end last into the channel; the two are peers over two new
  empty queues that no earlier end uses, each end's remote address is the other's local one, and the
  invariant is kept.\<close>

theorem memory_dial_connects:
  assumes "mem_ok w" and "tables_ok t w" and "map_of (listeners t) addr = Some l"
    and "\<not> mtclosed t" and "\<not> chan_closed (lstns w ! l)"
    and "length (pending (lstns w ! l)) < listener_backlog" and "ctx \<noteq> DoneFirst"
  shows "\<exists>c d w'. MemoryTransport_Dial ctx addr t w = Return (Inr c, w') \<and>
    mem_ok w' \<and> tables_ok t w' \<and> peers w' c d \<and>
    pending (lstns w' ! l) = pending (lstns w ! l) @ [d] \<and>
    messages (queues w' ! inbound (conns w' ! c)) = [] \<and>
    messages (queues w' ! outbound (conns w' ! c)) = [] \<and>
    memoryConnection_LocalAddr c w' = NodeName (mconfig t) \<and> memoryConnection_RemoteAddr c w' = addr \<and>
    memoryConnection_LocalAddr d w' = addr \<and> memoryConnection_RemoteAddr d w' = NodeName (mconfig t) \<and>
    (\<forall>e < length (conns w'). e \<noteq> c \<longrightarrow> e \<noteq> d \<longrightarrow>
       {inbound (conns w' ! e), outbound (conns w' ! e)} \<inter>
       {inbound (conns w' ! c), outbound (conns w' ! c)} = {})"
proof -
  let ?n = "length (conns w)" and ?q = "length (queues w)"
  obtain w' where dial: "MemoryTransport_Dial ctx addr t w = Return (Inr ?n, w')"
    and w': "mem_ok w'" "tables_ok t w'" "peers w' ?n (Suc ?n)" "take ?n (conns w') = conns w"
      "pending (lstns w' ! l) = pending (lstns w ! l) @ [Suc ?n]"
    and q: "queues w' = queues w @ [new_memQueue, new_memQueue]" "length (conns w') = ?n + 2"
      "outbound (conns w' ! ?n) = ?q" "inbound (conns w' ! ?n) = Suc ?q"
    and names: "memoryConnection_LocalAddr ?n w' = NodeName (mconfig t)" "memoryConnection_RemoteAddr ?n w' = addr"
      "memoryConnection_LocalAddr (Suc ?n) w' = addr" "memoryConnection_RemoteAddr (Suc ?n) w' = NodeName (mconfig t)"
    using Dial_effect [OF assms] by blast
  have "inbound (conns w' ! e) < ?q \<and> outbound (conns w' ! e) < ?q"
    if "e < length (conns w')" "e \<noteq> ?n" "e \<noteq> Suc ?n" for e
  proof -
    have "e < ?n"
      using that q(2) by simp
    then have "conns w' ! e = conns w ! e"
      using w'(4) by (metis nth_take)
    with mem_okD(2,3) [OF assms(1) \<open>e < ?n\<close>] show ?thesis
      by simp
  qed
  then have "\<forall>e < length (conns w'). e \<noteq> ?n \<longrightarrow> e \<noteq> Suc ?n \<longrightarrow>
      {inbound (conns w' ! e), outbound (conns w' ! e)} \<inter>
      {inbound (conns w' ! ?n), outbound (conns w' ! ?n)} = {}"
    using q(3,4) by fastforce
  moreover have "messages (queues w' ! Suc ?q) = []" "messages (queues w' ! ?q) = []"
    by (simp_all add: q(1) nth_append new_memQueue_def)
  ultimately show ?thesis
    using dial w' q(3,4) names by metis
qed

definition demo_mem :: MemoryTransport where
  "demo_mem = (NewMemoryTransport DefaultConfig)\<lparr>listeners := [(''s'', 0)], routes := [(''s'', [])]\<rparr>"

theorem memory_dial_connects_witness:
  "\<exists>c d w'. MemoryTransport_Dial Live ''s'' demo_mem demo_store = Return (Inr c, w') \<and>
     peers w' c d \<and> pending (lstns w' ! 0) = [1, d]"
  using memory_dial_connects [of demo_store demo_mem "''s''" 0 Live] demo_store_ok(1)
  by (simp add: tables_ok_def demo_mem_def NewMemoryTransport_def mwf_def) 
    (auto simp: demo_store_def listener_backlog_def)

section \<open>Closing listeners\<close>

lemma close_listeners_ok:
  assumes "list_all (lstn_ok n) ls" and "\<forall>(a, l) \<in> set m. l < length ls"
  shows "\<exists>ls'. close_listeners m ls = Return ls' \<and> list_all (lstn_ok n) ls' \<and> length ls' = length ls \<and>
    (\<forall>i < length ls. pending (ls' ! i) = pending (ls ! i) \<and>
       (chan_closed (ls' ! i) \<longleftrightarrow> chan_closed (ls ! i) \<or> i \<in> snd ` set m))"
  using assms
proof (induction m arbitrary: ls)
  case (Cons p m)
  obtain a l where p: "p = (a, l)"
    by fastforce
  let ?L = "(ls ! l)\<lparr>mlclosed := True, chan_closed := True\<rparr>"
  have l: "l < length ls" "lstn_ok n (ls ! l)"
    using Cons.prems p by (auto simp: list_all_length)
  have "close_listener (ls ! l) = Return ?L"
    using l(2) by (cases "ls ! l") (auto simp: close_listener_def lstn_ok_def)
  moreover have "list_all (lstn_ok n) (ls[l := ?L])"
    using Cons.prems(1) l(2) by (auto intro!: list_all_update simp: lstn_ok_def [of n ?L] lstn_ok_def [of n "ls ! l"])
  then obtain ls' where "close_listeners m (ls[l := ?L]) = Return ls'" "list_all (lstn_ok n) ls'"
      "length ls' = length ls"
      "\<forall>i < length ls. pending (ls' ! i) = pending (ls[l := ?L] ! i) \<and>
         (chan_closed (ls' ! i) \<longleftrightarrow> chan_closed (ls[l := ?L] ! i) \<or> i \<in> snd ` set m)"
    using Cons.IH [of "ls[l := ?L]"] Cons.prems(2) p by auto
  ultimately show ?case
    using l(1) p by (auto simp: nth_list_update)
qed simp

text \<open>C32. The life of a listener.  Closing the transport never panics and closes every listener;
  after that, and after closing a listener, closing it (again) panics, and so does dialling its
  address while the transport is open.  Exactly these panic.  An accept that waits while the
  listener is closed returns a nil connection and no error.\<close>

theorem memory_listener_lifecycle:
  assumes "mem_ok w" and "tables_ok t w"
  shows "(\<exists>t' w'. MemoryTransport_Close t w = Return (t', w') \<and> mem_ok w' \<and> tables_ok t' w' \<and>
      mtclosed t' \<and> (\<not> mtclosed t \<longrightarrow> (\<forall>l \<in> ran (map_of (listeners t)).
        memoryListener_Close l w' = Panic CloseOfClosedChannel))) \<and>
    (\<forall>l p. memoryListener_Close l w = Panic p \<longleftrightarrow> p = CloseOfClosedChannel \<and> chan_closed (lstns w ! l)) \<and>
    (\<forall>ctx addr p. MemoryTransport_Dial ctx addr t w = Panic p \<longleftrightarrow>
      p = SendOnClosedChannel \<and> ctx \<noteq> DoneFirst \<and> \<not> mtclosed t \<and>
      (\<exists>l. map_of (listeners t) addr = Some l \<and> chan_closed (lstns w ! l))) \<and>
    (\<forall>l w'. l < length (lstns w) \<longrightarrow> memoryListener_Accept Live l w = None \<longrightarrow>
      memoryListener_Close l w = Return w' \<longrightarrow> accept_select Live l w' = Some (Inr None, w'))"
proof (intro conjI allI impI)
  have refs: "\<forall>(a, l) \<in> set (listeners t). l < length (lstns w)"
    and ran: "ran (map_of (listeners t)) = snd ` set (listeners t)"
    using assms(2) by (force simp: tables_ok_def mwf_def ran_distinct)+
  obtain ls where ls: "close_listeners (listeners t) (lstns w) = Return ls"
      "list_all (lstn_ok (length (conns w))) ls" "length ls = length (lstns w)"
      "\<forall>i < length (lstns w). pending (ls ! i) = pending (lstns w ! i) \<and>
        (chan_closed (ls ! i) \<longleftrightarrow> chan_closed (lstns w ! i) \<or> i \<in> snd ` set (listeners t))"
    using close_listeners_ok [of "length (conns w)", OF _ refs] assms(1) unfolding mem_ok_def by blast
  show "\<exists>t' w'. MemoryTransport_Close t w = Return (t', w') \<and> mem_ok w' \<and> tables_ok t' w' \<and>
      mtclosed t' \<and> (\<not> mtclosed t \<longrightarrow> (\<forall>l \<in> ran (map_of (listeners t)).
        memoryListener_Close l w' = Panic CloseOfClosedChannel))"
  proof (cases "mtclosed t")
    case False
    with ls refs ran assms show ?thesis
      by (auto simp: MemoryTransport_Close_def mem_ok_def tables_ok_def memoryListener_Close_def Let_def)
  qed (use assms in \<open>simp add: MemoryTransport_Close_def\<close>)
next
  fix ctx addr p
  show "MemoryTransport_Dial ctx addr t w = Panic p \<longleftrightarrow>
      p = SendOnClosedChannel \<and> ctx \<noteq> DoneFirst \<and> \<not> mtclosed t \<and>
      (\<exists>l. map_of (listeners t) addr = Some l \<and> chan_closed (lstns w ! l))"
    by (auto simp: MemoryTransport_Dial_def Let_def split: option.splits)
next
  fix l w'
  assume "l < length (lstns w)" "memoryListener_Accept Live l w = None"
    "memoryListener_Close l w = Return w'"
  then show "accept_select Live l w' = Some (Inr None, w')"
    by (auto simp: memoryListener_Accept_def accept_select_def memoryListener_Close_def Let_def
        split: if_splits list.splits)
qed (auto simp: memoryListener_Close_def Let_def)

theorem memory_listener_lifecycle_witness:
  "\<exists>t' w'. MemoryTransport_Close demo_mem demo_store = Return (t', w') \<and> mtclosed t' \<and>
     memoryListener_Close 0 w' = Panic CloseOfClosedChannel"
proof -
  have "tables_ok demo_mem demo_store" "\<not> mtclosed demo_mem" "0 \<in> ran (map_of (listeners demo_mem))"
    by (simp_all add: tables_ok_def demo_mem_def NewMemoryTransport_def mwf_def demo_store_def)
  with memory_listener_lifecycle [OF demo_store_ok(1), of demo_mem, THEN conjunct1] show ?thesis
    by auto
qed

end
