(* ===== verification/Memory_Concurrency.thy ===== *)
theory Memory_Concurrency
  imports Memory_Transport
begin

text \<open>
  Concurrent calls on the in-memory transport of transport/memory.go.  Each goroutine works off a
  list of calls of \<open>Send\<close>, \<open>Recv\<close> and \<open>Close\<close>; a step of a call is what it does between two
  points where another goroutine can come in: a section under a mutex, or an operation on a
  channel.  \<open>Close\<close> holds the mutex of the connection from its first step to its last, and keeps
  the others out of the sections that take the same mutex.
\<close>

section \<open>Calls and their steps\<close>

text \<open>The flag of a call says whether its context can be cancelled.\<close>

datatype 'm mem_call =
    CallSend bool "'m option" nat
  | CallRecv bool nat
  | CallClose nat

datatype 'm outcome = Done_ok | Got 'm | Error transport_error

text \<open>Where a goroutine stands.\<close>

datatype 'm pc =
    Idle
  | Returned "'m outcome"
  | SendStart bool "'m option" nat
  | SendSelect bool 'm nat
  | SendAppend 'm nat
  | SendNotify nat
  | RecvStart bool nat
  | RecvTake bool nat
  | RecvWait bool nat
  | CloseStart nat
  | CloseInbound nat
  | CloseOutbound nat

fun start_pc :: "'m mem_call \<Rightarrow> 'm pc" where
  "start_pc (CallSend k msg c) = SendStart k msg c"
| "start_pc (CallRecv k c) = RecvStart k c"
| "start_pc (CallClose c) = CloseStart c"

text \<open>What a step does to the queues, for the observer: a message goes in or comes out.\<close>

datatype 'm label = Tau | Enq nat 'm | Deq nat 'm

text \<open>
  One step.  The first argument is the branch a \<open>select\<close> with a context takes: with \<open>True\<close>, that of
  the cancelled context.  \<open>None\<close> is a step that is not possible now.
\<close>

fun pc_step :: "bool \<Rightarrow> 'm pc \<Rightarrow> 'm mem_store \<Rightarrow> ('m label \<times> 'm pc \<times> 'm mem_store) go option" where
  "pc_step b Idle w = None"
| "pc_step b (Returned r) w = None"
| "pc_step b (SendStart k msg c) w =
     (if mclosed (conns w ! c) then Some (Return (Tau, Returned (Error ErrConnectionClosed), w))
      else case msg of
        None \<Rightarrow> Some (Return (Tau, Returned (Error CannotSendNil), w))
      | Some m \<Rightarrow> Some (Return (Tau, SendSelect k m c, w)))"
| "pc_step b (SendSelect k m c) w =
     (if b then (if k then Some (Return (Tau, Returned (Error ErrContextCancelled), w)) else None)
      else Some (Return (Tau, SendAppend m c, w)))"
| "pc_step b (SendAppend m c) w =
     (let q = outbound (conns w ! c) in
      if qclosed (queues w ! q) then Some (Return (Tau, Returned (Error ErrConnectionClosed), w))
      else Some (Return (Enq q m, SendNotify c, upd_queue q (\<lambda>Q. Q\<lparr>messages := messages Q @ [m]\<rparr>) w)))"
| "pc_step b (SendNotify c) w =
     Some (go_map (\<lambda>w'. (Tau, Returned Done_ok, w')) (notify (outbound (conns w ! c)) w))"
| "pc_step b (RecvStart k c) w =
     (if mclosed (conns w ! c) then Some (Return (Tau, Returned (Error ErrConnectionClosed), w))
      else Some (Return (Tau, RecvTake k c, w)))"
| "pc_step b (RecvTake k c) w =
     (let q = inbound (conns w ! c) in
      case messages (queues w ! q) of
        m # ms \<Rightarrow> Some (Return (Deq q m, Returned (Got m), upd_queue q (\<lambda>Q. Q\<lparr>messages := ms\<rparr>) w))
      | [] \<Rightarrow>
          if qclosed (queues w ! q) then Some (Return (Tau, Returned (Error ErrConnectionClosed), w))
          else Some (Return (Tau, RecvWait k c, w)))"
| "pc_step b (RecvWait k c) w =
     (let q = inbound (conns w ! c) in
      if b then (if k then Some (Return (Tau, Returned (Error ErrContextCancelled), w)) else None)
      else if token (queues w ! q) then
        Some (Return (Tau, RecvStart k c, upd_queue q (\<lambda>Q. Q\<lparr>token := False\<rparr>) w))
      else if notifier_closed (queues w ! q) then
        Some (Return (Tau, Returned (Error ErrConnectionClosed), w))
      else None)"
| "pc_step b (CloseStart c) w =
     (if mclosed (conns w ! c) then Some (Return (Tau, Returned Done_ok, w))
      else Some (Return (Tau, CloseInbound c, w\<lparr>conns := (conns w)[c := (conns w ! c)\<lparr>mclosed := True\<rparr>]\<rparr>)))"
| "pc_step b (CloseInbound c) w =
     Some (go_map (\<lambda>w'. (Tau, CloseOutbound c, w')) (close_queue (inbound (conns w ! c)) w))"
| "pc_step b (CloseOutbound c) w =
     Some (go_map (\<lambda>w'. (Tau, Returned Done_ok, w')) (close_queue (outbound (conns w ! c)) w))"

section \<open>Goroutines and their interleaving\<close>

record 'm goroutine =
  pc :: "'m pc"
  todo :: "'m mem_call list"

record 'm world =
  store :: "'m mem_store"
  gos :: "'m goroutine list"
  crashed :: "go_panic option"

text \<open>The connection whose mutex a step takes, and the one whose mutex a goroutine holds.\<close>

fun takes_mu :: "'m pc \<Rightarrow> nat option" where
  "takes_mu (SendStart k msg c) = Some c"
| "takes_mu (RecvStart k c) = Some c"
| "takes_mu (CloseStart c) = Some c"
| "takes_mu _ = None"

fun holds_mu :: "'m pc \<Rightarrow> nat option" where
  "holds_mu (CloseInbound c) = Some c"
| "holds_mu (CloseOutbound c) = Some c"
| "holds_mu _ = None"

definition mu_free :: "'m goroutine list \<Rightarrow> 'm pc \<Rightarrow> bool" where
  "mu_free gs p = (case takes_mu p of
       None \<Rightarrow> True
     | Some c \<Rightarrow> list_all (\<lambda>g. holds_mu (pc g) \<noteq> Some c) gs)"

definition quiet :: "'m pc \<Rightarrow> bool" where
  "quiet p = (case p of Idle \<Rightarrow> True | Returned r \<Rightarrow> True | _ \<Rightarrow> False)"

text \<open>A step of the goroutine with the given number; a panic ends the program.\<close>

definition go_step :: "nat \<Rightarrow> bool \<Rightarrow> 'm world \<Rightarrow> ('m label \<times> 'm world) option" where
  "go_step i b w =
     (if crashed w \<noteq> None \<or> length (gos w) \<le> i then None
      else let g = gos w ! i in
        if quiet (pc g) then
          (case todo g of
             [] \<Rightarrow> None
           | c # cs \<Rightarrow> Some (Tau, w\<lparr>gos := (gos w)[i := \<lparr>pc = start_pc c, todo = cs\<rparr>]\<rparr>))
        else if \<not> mu_free (gos w) (pc g) then None
        else
          (case pc_step b (pc g) (store w) of
             None \<Rightarrow> None
           | Some (Panic x) \<Rightarrow> Some (Tau, w\<lparr>crashed := Some x\<rparr>)
           | Some (Return (l, p, s)) \<Rightarrow> Some (l, w\<lparr>store := s, gos := (gos w)[i := g\<lparr>pc := p\<rparr>]\<rparr>)))"

text \<open>The executions from a state, with the labels of their steps.\<close>

inductive runs :: "'m world \<Rightarrow> 'm label list \<Rightarrow> 'm world \<Rightarrow> bool" for w0 where
  runs_refl: "runs w0 [] w0"
| runs_step: "runs w0 ls w \<Longrightarrow> go_step i b w = Some (l, w') \<Longrightarrow> runs w0 (ls @ [l]) w'"

definition stuck :: "'m world \<Rightarrow> bool" where
  "stuck w \<longleftrightarrow> crashed w = None \<and> (\<forall>i < length (gos w). \<forall>b. go_step i b w = None)"

text \<open>An execution by its schedule.\<close>

fun run_schedule :: "(nat \<times> bool) list \<Rightarrow> 'm world \<Rightarrow> ('m label list \<times> 'm world) option" where
  "run_schedule [] w = Some ([], w)"
| "run_schedule ((i, b) # sched) w =
     (case go_step i b w of
        None \<Rightarrow> None
      | Some (l, w') \<Rightarrow> map_option (\<lambda>(ls, w''). (l # ls, w'')) (run_schedule sched w'))"

section \<open>Well-formed states\<close>

fun pc_conn :: "'m pc \<Rightarrow> nat option" where
  "pc_conn Idle = None"
| "pc_conn (Returned r) = None"
| "pc_conn (SendStart k msg c) = Some c"
| "pc_conn (SendSelect k m c) = Some c"
| "pc_conn (SendAppend m c) = Some c"
| "pc_conn (SendNotify c) = Some c"
| "pc_conn (RecvStart k c) = Some c"
| "pc_conn (RecvTake k c) = Some c"
| "pc_conn (RecvWait k c) = Some c"
| "pc_conn (CloseStart c) = Some c"
| "pc_conn (CloseInbound c) = Some c"
| "pc_conn (CloseOutbound c) = Some c"

fun call_conn :: "'m mem_call \<Rightarrow> nat" where
  "call_conn (CallSend k msg c) = c"
| "call_conn (CallRecv k c) = c"
| "call_conn (CallClose c) = c"

definition pc_ok :: "nat \<Rightarrow> 'm pc \<Rightarrow> bool" where
  "pc_ok n p = (case pc_conn p of None \<Rightarrow> True | Some c \<Rightarrow> c < n)"

definition go_ok :: "nat \<Rightarrow> 'm goroutine \<Rightarrow> bool" where
  "go_ok n g \<longleftrightarrow> pc_ok n (pc g) \<and> list_all (\<lambda>c. call_conn c < n) (todo g)"

definition world_ok :: "'m world \<Rightarrow> bool" where
  "world_ok w \<longleftrightarrow> mem_ok (store w) \<and> list_all (go_ok (length (conns (store w)))) (gos w)"

text \<open>A program before its first step.\<close>

definition start_world :: "'m mem_store \<Rightarrow> 'm mem_call list list \<Rightarrow> 'm world" where
  "start_world s prog = \<lparr>store = s, gos = map (\<lambda>cs. \<lparr>pc = Idle, todo = cs\<rparr>) prog, crashed = None\<rparr>"

definition prog_ok :: "'m mem_store \<Rightarrow> 'm mem_call list list \<Rightarrow> bool" where
  "prog_ok s prog \<longleftrightarrow> mem_ok s \<and> list_all (list_all (\<lambda>c. call_conn c < length (conns s))) prog"

section \<open>What a step changes\<close>

fun enq_on :: "nat \<Rightarrow> 'm label \<Rightarrow> 'm list" where
  "enq_on q (Enq r m) = (if r = q then [m] else [])"
| "enq_on q _ = []"

fun deq_on :: "nat \<Rightarrow> 'm label \<Rightarrow> 'm list" where
  "deq_on q (Deq r m) = (if r = q then [m] else [])"
| "deq_on q _ = []"

lemma close_queue_result:
  "close_queue q w = Return w' \<longleftrightarrow>
     (qclosed (queues w ! q) \<and> w' = w) \<or>
     (\<not> qclosed (queues w ! q) \<and> \<not> notifier_closed (queues w ! q) \<and>
      w' = upd_queue q (\<lambda>Q. Q\<lparr>qclosed := True, notifier_closed := True\<rparr>) w)"
  by (auto simp: close_queue_def)

lemma notify_result:
  "notify q w = Return w' \<longleftrightarrow>
     \<not> notifier_closed (queues w ! q) \<and> w' = upd_queue q (\<lambda>Q. Q\<lparr>token := True\<rparr>) w"
  by (auto simp: notify_def)

lemma queue_ok_simps [simp]:
  "queue_ok (Q\<lparr>messages := ms\<rparr>) = queue_ok Q" "queue_ok (Q\<lparr>token := b\<rparr>) = queue_ok Q"
  "queue_ok (Q\<lparr>qclosed := True, notifier_closed := True\<rparr>)"
  by (simp_all add: queue_ok_def)

lemma mem_ok_queue: "mem_ok w \<Longrightarrow> q < length (queues w) \<Longrightarrow> queue_ok (queues w ! q)"
  by (simp add: mem_okD queue_ok_def)

text \<open>The steps as a relation: a call returns and leaves the store alone, or it goes on.\<close>

inductive pc_effect :: "'m mem_store \<Rightarrow> 'm pc \<Rightarrow> 'm label \<Rightarrow> 'm pc \<Rightarrow> 'm mem_store \<Rightarrow> bool" where
  eff_return: "pc_conn p \<noteq> None \<Longrightarrow> (\<And>c. p \<noteq> SendNotify c) \<Longrightarrow> pc_effect w p Tau (Returned r) w"
| eff_select: "pc_effect w (SendStart k (Some m) c) Tau (SendSelect k m c) w"
| eff_ready: "pc_effect w (SendSelect k m c) Tau (SendAppend m c) w"
| eff_checked: "pc_effect w (RecvStart k c) Tau (RecvTake k c) w"
| eff_empty: "messages (queues w ! inbound (conns w ! c)) = [] \<Longrightarrow>
    pc_effect w (RecvTake k c) Tau (RecvWait k c) w"
| eff_append: "q = outbound (conns w ! c) \<Longrightarrow> \<not> qclosed (queues w ! q) \<Longrightarrow>
    pc_effect w (SendAppend m c) (Enq q m) (SendNotify c) (upd_queue q (\<lambda>Q. Q\<lparr>messages := messages Q @ [m]\<rparr>) w)"
| eff_notify: "q = outbound (conns w ! c) \<Longrightarrow>
    pc_effect w (SendNotify c) Tau (Returned Done_ok) (upd_queue q (\<lambda>Q. Q\<lparr>token := True\<rparr>) w)"
| eff_take: "q = inbound (conns w ! c) \<Longrightarrow> messages (queues w ! q) = m # ms \<Longrightarrow>
    pc_effect w (RecvTake k c) (Deq q m) (Returned (Got m)) (upd_queue q (\<lambda>Q. Q\<lparr>messages := ms\<rparr>) w)"
| eff_wake: "q = inbound (conns w ! c) \<Longrightarrow> token (queues w ! q) \<Longrightarrow>
    pc_effect w (RecvWait k c) Tau (RecvStart k c) (upd_queue q (\<lambda>Q. Q\<lparr>token := False\<rparr>) w)"
| eff_mark: "pc_effect w (CloseStart c) Tau (CloseInbound c)
    (w\<lparr>conns := (conns w)[c := (conns w ! c)\<lparr>mclosed := True\<rparr>]\<rparr>)"
| eff_skip: "pc_effect w (CloseInbound c) Tau (CloseOutbound c) w"
| eff_close_in: "q = inbound (conns w ! c) \<Longrightarrow> pc_effect w (CloseInbound c) Tau (CloseOutbound c)
    (upd_queue q (\<lambda>Q. Q\<lparr>qclosed := True, notifier_closed := True\<rparr>) w)"
| eff_close_out: "q = outbound (conns w ! c) \<Longrightarrow> pc_effect w (CloseOutbound c) Tau (Returned Done_ok)
    (upd_queue q (\<lambda>Q. Q\<lparr>qclosed := True, notifier_closed := True\<rparr>) w)"

lemma pc_step_effect: "pc_step b p w = Some (Return (l, p', w')) \<Longrightarrow> pc_effect w p l p' w'"
  by (cases p)
    (auto simp: Let_def close_queue_result notify_result split: if_splits option.splits list.splits
      intro: pc_effect.intros)

lemma pc_ok_simps [simp]:
  "pc_ok n Idle" "pc_ok n (Returned r)" "pc_ok n (SendStart k msg c) \<longleftrightarrow> c < n"
  "pc_ok n (SendSelect k m c) \<longleftrightarrow> c < n" "pc_ok n (SendAppend m c) \<longleftrightarrow> c < n"
  "pc_ok n (SendNotify c) \<longleftrightarrow> c < n" "pc_ok n (RecvStart k c) \<longleftrightarrow> c < n"
  "pc_ok n (RecvTake k c) \<longleftrightarrow> c < n" "pc_ok n (RecvWait k c) \<longleftrightarrow> c < n"
  "pc_ok n (CloseStart c) \<longleftrightarrow> c < n" "pc_ok n (CloseInbound c) \<longleftrightarrow> c < n"
  "pc_ok n (CloseOutbound c) \<longleftrightarrow> c < n"
  by (simp_all add: pc_ok_def)

lemma pc_step_ok:
  assumes "pc_step b p w = Some (Return (l, p', w'))" and "mem_ok w" and "pc_ok (length (conns w)) p"
  shows "mem_ok w'" "ends w' = ends w" "length (queues w') = length (queues w)"
    "pc_ok (length (conns w)) p'"
  using pc_step_effect [OF assms(1)]
  by (cases rule: pc_effect.cases;
      use assms(2,3) mem_ok_queue [OF assms(2)] mem_okD(2,3) [OF assms(2)] in
      \<open>auto intro!: mem_ok_upd_queue mem_ok_close\<close>)+

text \<open>Messages leave a queue in the order in which they came.\<close>

lemma pc_step_order:
  assumes "pc_step b p w = Some (Return (l, p', w'))" and "mem_ok w" and "pc_ok (length (conns w)) p"
  shows "deq_on q l @ messages (queues w' ! q) = messages (queues w ! q) @ enq_on q l"
  using pc_step_effect [OF assms(1)]
  by (cases rule: pc_effect.cases;
      use assms(2,3) mem_okD(2,3) [OF assms(2)] in \<open>auto simp: upd_queue_nth\<close>)

section \<open>Steps of the program\<close>

lemma go_step_cases:
  assumes "go_step i b w = Some (l, w')"
  obtains (call) c cs where "i < length (gos w)" "crashed w = None" "quiet (pc (gos w ! i))"
      "todo (gos w ! i) = c # cs" "l = Tau"
      "w' = w\<lparr>gos := (gos w)[i := \<lparr>pc = start_pc c, todo = cs\<rparr>]\<rparr>"
    | (run) p s where "i < length (gos w)" "crashed w = None"
      "pc_step b (pc (gos w ! i)) (store w) = Some (Return (l, p, s))"
      "w' = w\<lparr>store := s, gos := (gos w)[i := (gos w ! i)\<lparr>pc := p\<rparr>]\<rparr>"
    | (crash) x where "i < length (gos w)" "crashed w = None"
      "pc_step b (pc (gos w ! i)) (store w) = Some (Panic x)" "l = Tau" "w' = w\<lparr>crashed := Some x\<rparr>"
proof -
  have w: "crashed w = None" "i < length (gos w)"
    using assms by (auto simp: go_step_def split: if_splits)
  show thesis
  proof (cases "quiet (pc (gos w ! i))")
    case True
    with assms w call show thesis
      by (auto simp: go_step_def Let_def split: list.splits)
  next
    case False
    with assms w obtain y where y: "pc_step b (pc (gos w ! i)) (store w) = Some y"
      by (auto simp: go_step_def Let_def split: if_splits option.splits)
    with assms w False run crash show thesis
      by (cases y) (auto simp: go_step_def Let_def split: if_splits prod.splits)
  qed
qed

lemma world_ok_nth: "world_ok w \<Longrightarrow> i < length (gos w) \<Longrightarrow> go_ok (length (conns (store w))) (gos w ! i)"
  by (simp add: world_ok_def list_all_length)

lemma ends_length: "ends s' = ends s \<Longrightarrow> length (conns s') = length (conns s)"
  unfolding ends_def by (metis length_map)

lemma pc_ok_start: "call_conn c < n \<Longrightarrow> pc_ok n (start_pc c)"
  by (cases c) simp_all

lemma go_step_ok:
  assumes "go_step i b w = Some (l, w')" and "world_ok w"
  shows "world_ok w'" "ends (store w') = ends (store w)" "length (gos w') = length (gos w)"
    "deq_on q l @ messages (queues (store w') ! q) = messages (queues (store w) ! q) @ enq_on q l"
proof -
  have "world_ok w' \<and> ends (store w') = ends (store w) \<and> length (gos w') = length (gos w) \<and>
    deq_on q l @ messages (queues (store w') ! q) = messages (queues (store w) ! q) @ enq_on q l"
    using assms(1)
  proof (cases rule: go_step_cases)
    case (call c cs)
    then have "go_ok (length (conns (store w))) \<lparr>pc = start_pc c, todo = cs\<rparr>"
      using world_ok_nth [OF assms(2) call(1)] by (auto simp: go_ok_def pc_ok_start)
    with call assms(2) show ?thesis
      by (simp add: world_ok_def list_all_update)
  next
    case (run p s)
    have g: "pc_ok (length (conns (store w))) (pc (gos w ! i))" "mem_ok (store w)"
      using world_ok_nth [OF assms(2) run(1)] assms(2) by (simp_all add: go_ok_def world_ok_def)
    note ok = pc_step_ok [OF run(3) g(2,1)] and ord = pc_step_order [OF run(3) g(2,1), of q]
    have "go_ok (length (conns (store w))) ((gos w ! i)\<lparr>pc := p\<rparr>)"
      using world_ok_nth [OF assms(2) run(1)] ok(4) by (simp add: go_ok_def)
    with ok ord run(4) assms(2) ends_length [OF ok(2)] show ?thesis
      by (simp add: world_ok_def list_all_update)
  next
    case crash
    with assms(2) show ?thesis by (simp add: world_ok_def)
  qed
  then show "world_ok w'" "ends (store w') = ends (store w)" "length (gos w') = length (gos w)"
    "deq_on q l @ messages (queues (store w') ! q) = messages (queues (store w) ! q) @ enq_on q l"
    by blast+
qed

lemma start_world_ok: "prog_ok s prog \<Longrightarrow> world_ok (start_world s prog)"
  by (simp add: prog_ok_def world_ok_def start_world_def go_ok_def list.pred_map comp_def)

lemma start_world_simps [simp]:
  "store (start_world s prog) = s" "crashed (start_world s prog) = None"
  "length (gos (start_world s prog)) = length prog"
  by (simp_all add: start_world_def)

lemma runs_ok:
  assumes "runs (start_world s prog) ls w" and "prog_ok s prog"
  shows "world_ok w \<and> ends (store w) = ends s \<and>
    concat (map (deq_on q) ls) @ messages (queues (store w) ! q) =
    messages (queues s ! q) @ concat (map (enq_on q) ls)"
  using assms(1)
proof (induction rule: runs.induct)
  case runs_refl
  with start_world_ok [OF assms(2)] show ?case by simp
next
  case (runs_step ls w i b l w')
  note ok = go_step_ok [OF runs_step.hyps(2)]
  have "concat (map (deq_on q) ls) @ deq_on q l @ messages (queues (store w') ! q) =
      (concat (map (deq_on q) ls) @ messages (queues (store w) ! q)) @ enq_on q l"
    using ok(4) [of q] runs_step.IH by simp
  with runs_step.IH ok(1,2) show ?case by simp
qed

section \<open>Every execution ends\<close>

fun pc_weight :: "'m pc \<Rightarrow> nat" where
  "pc_weight Idle = 0"
| "pc_weight (Returned r) = 0"
| "pc_weight (SendStart k msg c) = 7"
| "pc_weight (SendSelect k m c) = 6"
| "pc_weight (SendAppend m c) = 5"
| "pc_weight (SendNotify c) = 4"
| "pc_weight (RecvStart k c) = 3"
| "pc_weight (RecvTake k c) = 2"
| "pc_weight (RecvWait k c) = 1"
| "pc_weight (CloseStart c) = 3"
| "pc_weight (CloseInbound c) = 2"
| "pc_weight (CloseOutbound c) = 1"

definition go_weight :: "'m goroutine \<Rightarrow> nat" where
  "go_weight g = pc_weight (pc g) + (\<Sum>c \<leftarrow> todo g. pc_weight (start_pc c) + 1)"

definition token_weight :: "'m mem_store \<Rightarrow> nat" where
  "token_weight s = (\<Sum>Q \<leftarrow> queues s. if token Q then 3 else 0)"

definition work :: "'m world \<Rightarrow> nat" where
  "work w = (if crashed w = None then 1 else 0) + (\<Sum>g \<leftarrow> gos w. go_weight g) + token_weight (store w)"

lemma sum_list_map_update:
  fixes f :: "'a \<Rightarrow> nat"
  assumes "i < length xs"
  shows "(\<Sum>x \<leftarrow> xs[i := y]. f x) + f (xs ! i) = (\<Sum>x \<leftarrow> xs. f x) + f y"
  using assms by (induction xs arbitrary: i) (auto split: nat.split simp: less_Suc_eq_0_disj)

lemma token_weight_upd:
  assumes "q < length (queues s)"
  shows "token_weight (upd_queue q f s) + (if token (queues s ! q) then 3 else 0) =
    token_weight s + (if token (f (queues s ! q)) then 3 else 0)"
  unfolding token_weight_def upd_queue_def
  using sum_list_map_update [OF assms, where f = "\<lambda>Q. if token Q then 3 else 0"] by simp

lemma token_weight_conns [simp]: "token_weight (s\<lparr>conns := cs\<rparr>) = token_weight s"
  by (simp add: token_weight_def)

lemma token_weight_cases:
  assumes "q < length (queues s)"
  shows "token_weight (upd_queue q (\<lambda>Q. Q\<lparr>messages := g Q\<rparr>) s) = token_weight s"
    "token_weight (upd_queue q (\<lambda>Q. Q\<lparr>qclosed := True, notifier_closed := True\<rparr>) s) = token_weight s"
    "token_weight (upd_queue q (\<lambda>Q. Q\<lparr>token := True\<rparr>) s) < 4 + token_weight s"
    "token (queues s ! q) \<Longrightarrow> 2 + token_weight (upd_queue q (\<lambda>Q. Q\<lparr>token := False\<rparr>) s) < token_weight s"
  using token_weight_upd [OF assms, of "\<lambda>Q. Q\<lparr>messages := g Q\<rparr>"]
    token_weight_upd [OF assms, of "\<lambda>Q. Q\<lparr>qclosed := True, notifier_closed := True\<rparr>"]
    token_weight_upd [OF assms, of "\<lambda>Q. Q\<lparr>token := True\<rparr>"]
    token_weight_upd [OF assms, of "\<lambda>Q. Q\<lparr>token := False\<rparr>"]
  by (auto split: if_splits)

lemma pc_step_weight:
  assumes "pc_step b p w = Some (Return (l, p', w'))" and "mem_ok w" and "pc_ok (length (conns w)) p"
  shows "pc_weight p' + token_weight w' < pc_weight p + token_weight w"
  using pc_step_effect [OF assms(1)]
proof (cases rule: pc_effect.cases)
  case (eff_return r)
  then show ?thesis by (cases p) auto
next
  case (eff_wake q c k)
  then have "2 + token_weight w' < token_weight w"
    using assms(2,3) token_weight_cases(4) [of q w] by (simp add: mem_okD(2))
  with eff_wake show ?thesis by simp
qed (use assms(2,3) in \<open>simp_all add: token_weight_cases mem_okD(2,3)\<close>)

lemma go_step_work:
  assumes "go_step i b w = Some (l, w')" and "world_ok w"
  shows "work w' < work w"
  using assms(1)
proof (cases rule: go_step_cases)
  case (call c cs)
  have "pc_weight (pc (gos w ! i)) = 0"
    using call(3) by (cases "pc (gos w ! i)") (simp_all add: quiet_def)
  then show ?thesis
    using call sum_list_map_update [OF call(1), where f = go_weight and y = "\<lparr>pc = start_pc c, todo = cs\<rparr>"]
    by (simp add: work_def go_weight_def)
next
  case (run p s)
  have g: "pc_ok (length (conns (store w))) (pc (gos w ! i))" "mem_ok (store w)"
    using world_ok_nth [OF assms(2) run(1)] assms(2) by (simp_all add: go_ok_def world_ok_def)
  show ?thesis
    using run(2,4) pc_step_weight [OF run(3) g(2,1)]
      sum_list_map_update [OF run(1), where f = go_weight and y = "(gos w ! i)\<lparr>pc := p\<rparr>"]
    by (simp add: work_def go_weight_def)
next
  case crash
  then show ?thesis by (simp add: work_def)
qed

lemma runs_work:
  assumes "runs (start_world s prog) ls w" and "prog_ok s prog"
  shows "length ls + work w \<le> work (start_world s prog)"
  using assms(1)
proof (induction rule: runs.induct)
  case (runs_step ls w i b l w')
  have "world_ok w" using runs_ok [OF runs_step.hyps(1) assms(2)] by blast
  from go_step_work [OF runs_step.hyps(2) this] runs_step.IH show ?case by simp
qed simp

lemma work_start:
  "work (start_world s prog) \<le> 1 + 8 * (\<Sum>cs \<leftarrow> prog. length cs) + 3 * length (queues s)"
proof -
  have call: "pc_weight (start_pc c) + 1 \<le> 8" for c :: "'a mem_call"
    by (cases c) simp_all
  have "(\<Sum>c \<leftarrow> cs. pc_weight (start_pc c) + 1) \<le> 8 * length cs" for cs :: "'a mem_call list"
    using sum_list_mono [of cs "\<lambda>c. pc_weight (start_pc c) + 1" "\<lambda>_. 8"] call
    by (simp add: sum_list_triv mult.commute)
  then have "(\<Sum>cs \<leftarrow> prog. go_weight \<lparr>pc = Idle, todo = cs\<rparr>) \<le> (\<Sum>cs \<leftarrow> prog. 8 * length cs)"
    by (intro sum_list_mono) (simp add: go_weight_def)
  moreover have "token_weight s \<le> 3 * length (queues s)"
    using sum_list_mono [of "queues s" "\<lambda>Q. if token Q then 3 else 0" "\<lambda>_. 3 :: nat"]
    by (simp add: token_weight_def sum_list_triv mult.commute)
  ultimately show ?thesis
    by (simp add: work_def start_world_def comp_def sum_list_const_mult)
qed

section \<open>Panics\<close>

text \<open>Only one step can panic: the notification of a queue that has been closed meanwhile.\<close>

lemma pc_step_Panic:
  assumes "pc_step b p w = Some (Panic x)" and "mem_ok w" and "pc_ok (length (conns w)) p"
  shows "\<exists>c. p = SendNotify c \<and> notifier_closed (queues w ! outbound (conns w ! c)) \<and> x = SendOnClosedChannel"
  using assms mem_okD(1-3) [OF assms(2)]
  by (cases p) (auto simp: Let_def notify_def close_queue_def split: if_splits option.splits list.splits)

fun closes_call :: "'m mem_call \<Rightarrow> bool" where
  "closes_call (CallClose c) = True"
| "closes_call _ = False"

fun closes_pc :: "'m pc \<Rightarrow> bool" where
  "closes_pc (CloseStart c) = True"
| "closes_pc (CloseInbound c) = True"
| "closes_pc (CloseOutbound c) = True"
| "closes_pc _ = False"

definition never_closes :: "'m goroutine \<Rightarrow> bool" where
  "never_closes g \<longleftrightarrow> \<not> closes_pc (pc g) \<and> \<not> list_ex closes_call (todo g)"

fun notify_open :: "'m mem_store \<Rightarrow> 'm pc \<Rightarrow> bool" where
  "notify_open s (SendNotify c) = (\<not> notifier_closed (queues s ! outbound (conns s ! c)))"
| "notify_open s _ = True"

lemma pc_step_no_close:
  assumes "pc_step b p w = Some (Return (l, p', w'))" and "mem_ok w" and "pc_ok (length (conns w)) p"
    and "\<not> closes_pc p"
  shows "\<not> closes_pc p'" "conns w' = conns w" "notifier_closed (queues w' ! q) = notifier_closed (queues w ! q)"
    "notify_open w' p'"
  using pc_step_effect [OF assms(1)]
  by (cases rule: pc_effect.cases;
      use assms(2-4) mem_okD(1-3) [OF assms(2)] in \<open>auto simp: upd_queue_nth\<close>)+

definition open_inv :: "'m world \<Rightarrow> bool" where
  "open_inv w \<longleftrightarrow> crashed w = None \<and> list_all (\<lambda>g. never_closes g \<and> notify_open (store w) (pc g)) (gos w)"

lemma notify_open_cong:
  assumes "conns s' = conns s" and "\<And>q. notifier_closed (queues s' ! q) = notifier_closed (queues s ! q)"
  shows "notify_open s' p = notify_open s p"
  using assms by (cases p) simp_all

lemma go_step_open:
  assumes "go_step i b w = Some (l, w')" and "world_ok w" and "open_inv w"
  shows "open_inv w'"
  using assms(1)
proof (cases rule: go_step_cases)
  case (call c cs)
  have "never_closes (gos w ! i)"
    using assms(3) call(1) by (simp add: open_inv_def list_all_length)
  then have "never_closes \<lparr>pc = start_pc c, todo = cs\<rparr> \<and> notify_open (store w) (start_pc c)"
    using call(4) by (cases c) (simp_all add: never_closes_def)
  with call assms(3) show ?thesis
    by (simp add: open_inv_def list_all_update)
next
  case (run p s)
  have g: "pc_ok (length (conns (store w))) (pc (gos w ! i))" "mem_ok (store w)" "never_closes (gos w ! i)"
    using world_ok_nth [OF assms(2) run(1)] assms(2,3) run(1)
    by (simp_all add: go_ok_def world_ok_def open_inv_def list_all_length)
  then have nc: "\<not> closes_pc (pc (gos w ! i))" by (simp add: never_closes_def)
  note step = pc_step_no_close [OF run(3) g(2,1) nc]
  have "notify_open s p' = notify_open (store w) p'" for p'
    by (rule notify_open_cong [OF step(2,3)])
  then have "list_all (\<lambda>g. never_closes g \<and> notify_open s (pc g)) (gos w)"
    using assms(3) by (simp add: open_inv_def)
  moreover have "never_closes ((gos w ! i)\<lparr>pc := p\<rparr>) \<and> notify_open s p"
    using step(1,4) g(3) by (simp add: never_closes_def)
  ultimately show ?thesis
    using run(2,4) by (simp add: open_inv_def list_all_update)
next
  case (crash x)
  have g: "pc_ok (length (conns (store w))) (pc (gos w ! i))" "mem_ok (store w)"
      "notify_open (store w) (pc (gos w ! i))"
    using world_ok_nth [OF assms(2) crash(1)] assms(2,3) crash(1)
    by (simp_all add: go_ok_def world_ok_def open_inv_def list_all_length)
  from pc_step_Panic [OF crash(3) g(2,1)] g(3) show ?thesis by auto
qed

lemma runs_open:
  assumes "runs (start_world s prog) ls w" and "prog_ok s prog"
    and "\<not> list_ex (list_ex closes_call) prog"
  shows "open_inv w"
  using assms(1)
proof (induction rule: runs.induct)
  case runs_refl
  show ?case
    using assms(3) by (simp add: open_inv_def start_world_def list.pred_map comp_def never_closes_def
        list_ex_iff list_all_iff)
next
  case (runs_step ls w i b l w')
  have "world_ok w" using runs_ok [OF runs_step.hyps(1) assms(2)] by blast
  from go_step_open [OF runs_step.hyps(2) this runs_step.IH] show ?case .
qed

section \<open>Wakeups\<close>

text \<open>
  Who waits for messages of a queue, who is about to announce one, and who ever receives from it.
  The argument \<open>K\<close> lists the queues of the connections.
\<close>

fun waits_on :: "(nat \<times> nat) list \<Rightarrow> nat \<Rightarrow> 'm pc \<Rightarrow> bool" where
  "waits_on K q (RecvWait k c) = (fst (K ! c) = q)"
| "waits_on K q _ = False"

fun notifies :: "(nat \<times> nat) list \<Rightarrow> nat \<Rightarrow> 'm pc \<Rightarrow> bool" where
  "notifies K q (SendNotify c) = (snd (K ! c) = q)"
| "notifies K q _ = False"

fun receives_call :: "(nat \<times> nat) list \<Rightarrow> nat \<Rightarrow> 'm mem_call \<Rightarrow> bool" where
  "receives_call K q (CallRecv k c) = (fst (K ! c) = q)"
| "receives_call K q _ = False"

fun receives_pc :: "(nat \<times> nat) list \<Rightarrow> nat \<Rightarrow> 'm pc \<Rightarrow> bool" where
  "receives_pc K q (RecvStart k c) = (fst (K ! c) = q)"
| "receives_pc K q (RecvTake k c) = (fst (K ! c) = q)"
| "receives_pc K q (RecvWait k c) = (fst (K ! c) = q)"
| "receives_pc K q _ = False"

definition receives :: "(nat \<times> nat) list \<Rightarrow> nat \<Rightarrow> 'm goroutine \<Rightarrow> bool" where
  "receives K q g \<longleftrightarrow> receives_pc K q (pc g) \<or> list_ex (receives_call K q) (todo g)"

definition one_receiver :: "(nat \<times> nat) list \<Rightarrow> nat \<Rightarrow> 'm goroutine list \<Rightarrow> bool" where
  "one_receiver K q gs \<longleftrightarrow>
     (\<forall>i < length gs. \<forall>j < length gs. receives K q (gs ! i) \<and> receives K q (gs ! j) \<longrightarrow> i = j)"

text \<open>No wakeup is lost: while a receiver waits and there is a message, the notifier has an element or
  is closed, or a sender is about to fill it.\<close>

definition wake_inv :: "(nat \<times> nat) list \<Rightarrow> nat \<Rightarrow> 'm world \<Rightarrow> bool" where
  "wake_inv K q w \<longleftrightarrow>
     (list_ex (\<lambda>g. waits_on K q (pc g)) (gos w) \<and> messages (queues (store w) ! q) \<noteq> [] \<longrightarrow>
      token (queues (store w) ! q) \<or> notifier_closed (queues (store w) ! q) \<or>
      list_ex (\<lambda>g. notifies K q (pc g)) (gos w))"

lemma waits_receives: "waits_on K q p \<Longrightarrow> receives_pc K q p"
  by (cases p) simp_all

lemma pc_step_receives:
  "pc_step b p w = Some (Return (l, p', w')) \<Longrightarrow> receives_pc K q p' \<Longrightarrow> receives_pc K q p"
  by (drule pc_step_effect, erule pc_effect.cases) auto

lemma start_receives: "receives_pc K q (start_pc c) = receives_call K q c"
  by (cases c) simp_all

lemma go_step_receives:
  assumes "go_step i b w = Some (l, w')" and "receives K q (gos w' ! j)" and "j < length (gos w)"
  shows "receives K q (gos w ! j)"
  using assms(1)
  by (cases rule: go_step_cases)
    (use assms(2,3) in \<open>auto simp: receives_def nth_list_update start_receives
      split: if_splits dest: pc_step_receives\<close>)

text \<open>What a step of a call does to a queue, as far as waiting and waking is concerned.\<close>

lemma pc_step_wake:
  assumes "pc_step b p w = Some (Return (l, p', w'))" and "mem_ok w" and "pc_ok (length (conns w)) p"
    and "ends w = K"
  shows "waits_on K q p' \<Longrightarrow> messages (queues w' ! q) = []"
    and "messages (queues w' ! q) \<noteq> [] \<Longrightarrow> messages (queues w ! q) \<noteq> [] \<or> notifies K q p'"
    and "token (queues w ! q) \<Longrightarrow> token (queues w' ! q) \<or> waits_on K q p"
    and "notifier_closed (queues w ! q) \<Longrightarrow> notifier_closed (queues w' ! q)"
    and "notifies K q p \<Longrightarrow> token (queues w' ! q)"
proof -
  have K: "c < length (conns w) \<Longrightarrow> K ! c = (inbound (conns w ! c), outbound (conns w ! c))" for c
    using assms(4) by (auto simp: ends_def)
  have "(waits_on K q p' \<longrightarrow> messages (queues w' ! q) = []) \<and>
    (messages (queues w' ! q) \<noteq> [] \<longrightarrow> messages (queues w ! q) \<noteq> [] \<or> notifies K q p') \<and>
    (token (queues w ! q) \<longrightarrow> token (queues w' ! q) \<or> waits_on K q p) \<and>
    (notifier_closed (queues w ! q) \<longrightarrow> notifier_closed (queues w' ! q)) \<and>
    (notifies K q p \<longrightarrow> token (queues w' ! q))"
    using pc_step_effect [OF assms(1)]
  proof (cases rule: pc_effect.cases)
    case (eff_return r)
    then show ?thesis by (cases p) auto
  qed (use assms(2,3) K mem_okD(2,3) [OF assms(2)] in \<open>auto simp: upd_queue_nth\<close>)
  then show "waits_on K q p' \<Longrightarrow> messages (queues w' ! q) = []"
    "messages (queues w' ! q) \<noteq> [] \<Longrightarrow> messages (queues w ! q) \<noteq> [] \<or> notifies K q p'"
    "token (queues w ! q) \<Longrightarrow> token (queues w' ! q) \<or> waits_on K q p"
    "notifier_closed (queues w ! q) \<Longrightarrow> notifier_closed (queues w' ! q)"
    "notifies K q p \<Longrightarrow> token (queues w' ! q)"
    by blast+
qed

lemma go_step_wake:
  assumes "go_step i b w = Some (l, w')" and "world_ok w" and "ends (store w) = K"
    and "one_receiver K q (gos w)" and "wake_inv K q w"
  shows "wake_inv K q w'"
  using assms(1)
proof (cases rule: go_step_cases)
  case (call c cs)
  have "\<not> notifies K q (pc (gos w ! i))" "\<not> waits_on K q (start_pc c)"
    using call(3) by (cases "pc (gos w ! i)"; simp add: quiet_def) (cases c; simp)
  with call assms(5) show ?thesis
    by (fastforce simp: wake_inv_def list_ex_length nth_list_update)
next
  case (run p s)
  let ?g = "gos w ! i"
  have g: "pc_ok (length (conns (store w))) (pc ?g)" "mem_ok (store w)"
    using world_ok_nth [OF assms(2) run(1)] assms(2) by (simp_all add: go_ok_def world_ok_def)
  note step = pc_step_wake [OF run(3) g(2,1) assms(3), of q]
  have gs: "gos w' = (gos w)[i := ?g\<lparr>pc := p\<rparr>]" "store w' = s"
    using run(4) by simp_all
  show ?thesis
    unfolding wake_inv_def gs
  proof (intro impI; elim conjE)
    assume ex: "list_ex (\<lambda>g. waits_on K q (pc g)) ((gos w)[i := ?g\<lparr>pc := p\<rparr>])"
      and msg: "messages (queues s ! q) \<noteq> []"
    from ex obtain j where j: "j < length (gos w)" "waits_on K q (pc ((gos w)[i := ?g\<lparr>pc := p\<rparr>] ! j))"
      by (auto simp: list_ex_length)
    have "j \<noteq> i" using j run(1) step(1) msg by auto
    with j have wait: "waits_on K q (pc (gos w ! j))" by simp
    then have alone: "\<not> waits_on K q (pc ?g)"
      using assms(4) j(1) run(1) \<open>j \<noteq> i\<close> unfolding one_receiver_def receives_def
      by (blast dest: waits_receives)
    show "token (queues s ! q) \<or> notifier_closed (queues s ! q) \<or>
        list_ex (\<lambda>g. notifies K q (pc g)) ((gos w)[i := ?g\<lparr>pc := p\<rparr>])"
    proof (cases "notifies K q p")
      case True
      then show ?thesis using run(1) by (auto simp: list_ex_length nth_list_update)
    next
      case False
      then consider "token (queues (store w) ! q)" | "notifier_closed (queues (store w) ! q)"
        | k where "k < length (gos w)" "notifies K q (pc (gos w ! k))"
        using assms(5) wait j(1) step(2) [OF msg] by (auto simp: wake_inv_def list_ex_length)
      then show ?thesis
      proof cases
        case 1
        with step(3) alone show ?thesis by blast
      next
        case 2
        with step(4) show ?thesis by blast
      next
        case 3
        with step(5) show ?thesis by (cases "k = i") (auto simp: list_ex_length nth_list_update)
      qed
    qed
  qed
next
  case crash
  with assms(5) show ?thesis by (simp add: wake_inv_def)
qed

lemma runs_wake:
  assumes "runs (start_world s prog) ls w" and "prog_ok s prog"
    and "one_receiver (ends s) q (gos (start_world s prog))"
  shows "one_receiver (ends s) q (gos w) \<and> wake_inv (ends s) q w"
  using assms(1)
proof (induction rule: runs.induct)
  case runs_refl
  have "\<not> list_ex (\<lambda>g. waits_on (ends s) q (pc g)) (gos (start_world s prog))"
    by (simp add: start_world_def list_ex_iff)
  with assms(3) show ?case by (simp add: wake_inv_def)
next
  case (runs_step ls w i b l w')
  have w: "world_ok w" "ends (store w) = ends s"
    using runs_ok [OF runs_step.hyps(1) assms(2)] by simp_all
  have "length (gos w') = length (gos w)"
    by (rule go_step_ok(3) [OF runs_step.hyps(2) w(1)])
  then have "one_receiver (ends s) q (gos w')"
    using runs_step.IH go_step_receives [OF runs_step.hyps(2)] unfolding one_receiver_def by metis
  with go_step_wake [OF runs_step.hyps(2) w] runs_step.IH show ?case by blast
qed

section \<open>Where an execution can stop\<close>

lemma pc_step_None:
  assumes "\<not> quiet p" and "\<And>b. pc_step b p w = None"
  shows "\<exists>c. p = RecvWait False c \<and> \<not> token (queues w ! inbound (conns w ! c)) \<and>
    \<not> notifier_closed (queues w ! inbound (conns w ! c))"
  using assms(1) assms(2) [of True] assms(2) [of False]
  by (cases p) (auto simp: quiet_def Let_def split: if_splits option.splits list.splits)

lemma stuck_step:
  assumes "stuck w" and "i < length (gos w)" and "\<not> quiet (pc (gos w ! i))"
    and "mu_free (gos w) (pc (gos w ! i))"
  shows "pc_step b (pc (gos w ! i)) (store w) = None"
proof (rule ccontr)
  assume "pc_step b (pc (gos w ! i)) (store w) \<noteq> None"
  then obtain y where "pc_step b (pc (gos w ! i)) (store w) = Some y" by blast
  then have "go_step i b w \<noteq> None"
    using assms by (cases y) (auto simp: go_step_def stuck_def Let_def)
  with assms(1,2) show False by (simp add: stuck_def)
qed

lemma holder_steps: "holds_mu p = Some c \<Longrightarrow> \<not> quiet p \<and> takes_mu p = None \<and> pc_step b p s \<noteq> None"
  by (cases p) (simp_all add: quiet_def)

lemma stuck_goroutine:
  assumes "stuck w" and "i < length (gos w)"
  shows "(quiet (pc (gos w ! i)) \<and> todo (gos w ! i) = []) \<or>
    (\<exists>c. pc (gos w ! i) = RecvWait False c \<and> \<not> token (queues (store w) ! inbound (conns (store w) ! c)) \<and>
      \<not> notifier_closed (queues (store w) ! inbound (conns (store w) ! c)))"
proof (cases "quiet (pc (gos w ! i))")
  case True
  then have "todo (gos w ! i) = []"
    using assms by (auto simp: stuck_def go_step_def Let_def split: list.splits)
  with True show ?thesis by simp
next
  case False
  have "mu_free (gos w) (pc (gos w ! i))"
  proof (rule ccontr)
    assume "\<not> mu_free (gos w) (pc (gos w ! i))"
    then obtain c j where "j < length (gos w)" "holds_mu (pc (gos w ! j)) = Some c"
      by (auto simp: mu_free_def list_all_length split: option.splits)
    with holder_steps [of "pc (gos w ! j)" c False "store w"] stuck_step [OF assms(1), of j False] show False
      by (simp add: mu_free_def)
  qed
  with pc_step_None [OF False] stuck_step [OF assms False] show ?thesis by blast
qed

section \<open>A call without interference\<close>

text \<open>The steps of one call after another, until it returns or waits; no call takes more than five.\<close>

fun alone :: "nat \<Rightarrow> 'm pc \<Rightarrow> 'm mem_store \<Rightarrow> ('m pc \<times> 'm mem_store) go" where
  "alone 0 p w = Return (p, w)"
| "alone (Suc n) p w =
     (case pc_step False p w of
        None \<Rightarrow> Return (p, w)
      | Some (Panic x) \<Rightarrow> Panic x
      | Some (Return (l, p', w')) \<Rightarrow> alone n p' w')"

fun send_result :: "'m pc \<Rightarrow> transport_error option" where
  "send_result (Returned (Error e)) = Some e"
| "send_result _ = None"

fun recv_result :: "'m pc \<Rightarrow> (transport_error + 'm) option" where
  "recv_result (Returned (Error e)) = Some (Inl e)"
| "recv_result (Returned (Got m)) = Some (Inr m)"
| "recv_result _ = None"

lemma upd_queue_same: "upd_queue q (\<lambda>Q. queues w ! q) w = w"
  by (simp add: upd_queue_def)

lemma alone_Send:
  assumes "mem_ok w" and "c < length (conns w)"
  shows "go_map (\<lambda>(p, w'). (send_result p, w')) (alone 6 (SendStart k msg c) w) =
    memoryConnection_Send Live msg c w"
  using mem_okD(1,3) [OF assms(1)] assms(2)
  by (cases msg) (auto simp: numeral_eq_Suc memoryConnection_Send_def Let_def notify_def upd_queue_nth)

lemma alone_Close:
  assumes "mem_ok w" and "c < length (conns w)"
  shows "go_map snd (alone 6 (CloseStart c) w) = memoryConnection_Close c w"
  using mem_okD(1-4) [OF assms(1)] assms(2)
  by (auto simp: numeral_eq_Suc memoryConnection_Close_def Let_def close_queue_def upd_queue_nth)

lemma alone_Recv:
  assumes "mem_ok w" and "c < length (conns w)"
  shows "go_map (\<lambda>(p, w'). (recv_result p, w')) (alone 6 (RecvStart k c) w) =
    Return (memoryConnection_Recv Live c w)"
proof -
  let ?q = "inbound (conns w ! c)"
  have q: "?q < length (queues w)" "queue_ok (queues w ! ?q)"
    using mem_okD(2) [OF assms] mem_ok_queue [OF assms(1)] by simp_all
  have fresh: "upd_queue ?q (\<lambda>Q. Q\<lparr>token := False\<rparr>) w = w" if "\<not> token (queues w ! ?q)"
  proof -
    have "(queues w ! ?q)\<lparr>token := False\<rparr> = queues w ! ?q"
      using that by (cases "queues w ! ?q") simp
    then show ?thesis by (simp add: upd_queue_def)
  qed
  have const: "upd_queue ?q (\<lambda>_. f (queues w ! ?q)) w = upd_queue ?q f w" for f
    by (simp add: upd_queue_def)
  show ?thesis
    using q fresh
    by (cases "messages (queues w ! ?q)"; cases "token (queues w ! ?q)")
      (auto simp: numeral_eq_Suc memoryConnection_Recv_def recv_loop_effect Let_def upd_queue_nth queue_ok_def
        upd_queue_same const)
qed

section \<open>Properties\<close>

lemma run_schedule_runs_from:
  "run_schedule sched w = Some (ls, w') \<Longrightarrow> runs w0 ks w \<Longrightarrow> runs w0 (ks @ ls) w'"
proof (induction sched w arbitrary: ks ls rule: run_schedule.induct)
  case (2 i b sched w)
  then obtain l w1 ls1 where l: "go_step i b w = Some (l, w1)" "run_schedule sched w1 = Some (ls1, w')" "ls = l # ls1"
    by (auto split: option.splits prod.splits)
  with "2.IH" [OF l(1) refl l(2) runs_step [OF "2.prems"(2) l(1)]] show ?case by simp
qed simp

lemma run_schedule_runs: "run_schedule sched w = Some (ls, w') \<Longrightarrow> runs w ls w'"
  using run_schedule_runs_from [OF _ runs_refl] by simp

text \<open>Two goroutines that receive from the same connection and one that sends two messages to it, in an
  order in which the second notification finds the first still in the notifier.\<close>

definition lost_prog :: "nat mem_call list list" where
  "lost_prog = [[CallRecv False 1], [CallRecv False 1], [CallSend False (Some 7) 0, CallSend False (Some 8) 0]]"

definition lost_schedule :: "(nat \<times> bool) list" where
  "lost_schedule = map (\<lambda>i. (i, False)) (replicate 3 0 @ replicate 3 1 @ replicate 10 2 @ replicate 3 0)"

definition lost_end :: "nat world" where
  "lost_end = \<lparr>store = upd_queue 0 (\<lambda>Q. Q\<lparr>messages := [8]\<rparr>) demo_store,
     gos = [\<lparr>pc = Returned (Got 7), todo = []\<rparr>, \<lparr>pc = RecvWait False 1, todo = []\<rparr>,
            \<lparr>pc = Returned Done_ok, todo = []\<rparr>],
     crashed = None\<rparr>"

lemma lost_run: "\<exists>ls. run_schedule lost_schedule (start_world demo_store lost_prog) = Some (ls, lost_end)"
  by (simp add: lost_schedule_def numeral_eq_Suc lost_prog_def lost_end_def start_world_def go_step_def quiet_def mu_free_def
      Let_def demo_store_def new_memQueue_def upd_queue_def notify_def)

lemma lost_prog_ok: "prog_ok demo_store lost_prog"
  by (simp add: prog_ok_def lost_prog_def demo_store_ok)

text \<open>One sender, one receiver, a message sent and received.\<close>

definition pair_prog :: "nat mem_call list list" where
  "pair_prog = [[CallRecv False 1, CallRecv False 1], [CallSend False (Some 7) 0]]"

definition pair_schedule :: "(nat \<times> bool) list" where
  "pair_schedule = map (\<lambda>i. (i, False)) (replicate 3 0 @ replicate 5 1 @ replicate 6 0)"

definition pair_end :: "nat world" where
  "pair_end = \<lparr>store = demo_store,
     gos = [\<lparr>pc = RecvWait False 1, todo = []\<rparr>, \<lparr>pc = Returned Done_ok, todo = []\<rparr>],
     crashed = None\<rparr>"

lemma pair_run: "\<exists>ls. run_schedule pair_schedule (start_world demo_store pair_prog) = Some (ls, pair_end)"
  by (simp add: pair_schedule_def numeral_eq_Suc pair_prog_def pair_end_def start_world_def go_step_def
      quiet_def mu_free_def Let_def demo_store_def new_memQueue_def upd_queue_def notify_def)

lemma pair_prog_ok: "prog_ok demo_store pair_prog"
  by (simp add: prog_ok_def pair_prog_def demo_store_ok)

text \<open>The fine-grained steps implement the operations of the sequential model: when no other
  goroutine comes in, the steps of a \<open>Send\<close>, a \<open>Recv\<close> and a \<open>Close\<close> end with the result and in the
  state that the operation as a whole has, a waiting \<open>Recv\<close> included.\<close>

lemma concurrent_refines_sequential:
  assumes "mem_ok w" and "c < length (conns w)"
  shows "go_map (\<lambda>(p, w'). (send_result p, w')) (alone 6 (start_pc (CallSend k msg c)) w) =
      memoryConnection_Send Live msg c w \<and>
    go_map (\<lambda>(p, w'). (recv_result p, w')) (alone 6 (start_pc (CallRecv k c)) w) =
      Return (memoryConnection_Recv Live c w) \<and>
    go_map snd (alone 6 (start_pc (CallClose c)) w) = memoryConnection_Close c w"
  using alone_Send [OF assms] alone_Recv [OF assms] alone_Close [OF assms] by simp

text \<open>C17. Order under concurrency.  However the steps of concurrent sends, receives and closes are
  interleaved, on every queue the messages taken out followed by those still in it are those that
  were in it at the start followed by those put in, in the order in which the senders held the
  queue's mutex: no interleaving loses, duplicates or reorders a message in the queue.\<close>

theorem concurrent_fifo:
  assumes "prog_ok s prog" and "runs (start_world s prog) ls w"
  shows "world_ok w \<and> ends (store w) = ends s \<and>
    concat (map (deq_on q) ls) @ messages (queues (store w) ! q) =
    messages (queues s ! q) @ concat (map (enq_on q) ls)"
  using runs_ok [OF assms(2,1)] .

theorem concurrent_fifo_witness:
  "\<exists>ls. runs (start_world demo_store lost_prog) ls lost_end \<and>
     concat (map (deq_on 0) ls) @ [8] = concat (map (enq_on 0) ls)"
proof -
  obtain ls where ls: "runs (start_world demo_store lost_prog) ls lost_end"
    using lost_run run_schedule_runs by blast
  from concurrent_fifo [OF lost_prog_ok this, of 0] ls show ?thesis
    by (auto simp: lost_end_def upd_queue_def demo_store_def new_memQueue_def)
qed

text \<open>C18. Termination.  Any number of goroutines with any finite lists of calls, under any interleaving
  and any choice of cancelled contexts, take at most eight steps for each call and three for each
  queue, and one more for a panic: the loop of \<open>Recv\<close> cannot run on forever, because each round takes an
  element that a \<open>Send\<close> has put into the notifier.\<close>

theorem concurrent_calls_terminate:
  assumes "prog_ok s prog" and "runs (start_world s prog) ls w"
  shows "length ls \<le> 1 + 8 * (\<Sum>cs \<leftarrow> prog. length cs) + 3 * length (queues s)"
  using runs_work [OF assms(2,1)] work_start [of s prog] by linarith

theorem concurrent_calls_terminate_witness:
  "\<exists>ls w. runs (start_world demo_store pair_prog) ls w \<and> length ls \<le> 31"
proof -
  obtain ls where ls: "runs (start_world demo_store pair_prog) ls pair_end"
    using pair_run run_schedule_runs by blast
  from concurrent_calls_terminate [OF pair_prog_ok this] have "length ls \<le> 31"
    by (simp add: pair_prog_def demo_store_ok)
  with ls show ?thesis by blast
qed

text \<open>C8. Progress.  When no goroutine can take a step any more and none has panicked, every goroutine
  has returned from all its calls, or it waits in a \<open>Recv\<close> whose context is never cancelled, on an
  open queue; and if no other goroutine receives from that queue, the queue is empty.  So a
  single receiver never sleeps while there is a message for it.\<close>

theorem concurrent_delivery:
  assumes "prog_ok s prog" and "runs (start_world s prog) ls w" and "stuck w" and "i < length (gos w)"
  shows "(quiet (pc (gos w ! i)) \<and> todo (gos w ! i) = []) \<or>
    (\<exists>c. pc (gos w ! i) = RecvWait False c \<and>
       \<not> qclosed (queues (store w) ! inbound (conns (store w) ! c)) \<and>
       (one_receiver (ends s) (inbound (conns (store w) ! c)) (gos (start_world s prog)) \<longrightarrow>
          messages (queues (store w) ! inbound (conns (store w) ! c)) = []))"
proof (cases "quiet (pc (gos w ! i)) \<and> todo (gos w ! i) = []")
  case False
  then obtain c where c: "pc (gos w ! i) = RecvWait False c"
      "\<not> token (queues (store w) ! inbound (conns (store w) ! c))"
      "\<not> notifier_closed (queues (store w) ! inbound (conns (store w) ! c))"
    using stuck_goroutine [OF assms(3,4)] by blast
  have w: "world_ok w" "ends (store w) = ends s"
    using runs_ok [OF assms(2,1)] by simp_all
  let ?q = "inbound (conns (store w) ! c)"
  have lt: "c < length (conns (store w))" "mem_ok (store w)"
    using world_ok_nth [OF w(1) assms(4)] w(1) c(1) by (simp_all add: go_ok_def world_ok_def)
  have open_q: "\<not> qclosed (queues (store w) ! ?q)"
    using mem_okD(1) [OF lt(2) mem_okD(2) [OF lt(2,1)]] c(3) by simp
  have "messages (queues (store w) ! ?q) = []" if "one_receiver (ends s) ?q (gos (start_world s prog))"
  proof (rule ccontr)
    assume ne: "messages (queues (store w) ! ?q) \<noteq> []"
    have "waits_on (ends s) ?q (pc (gos w ! i))"
      using c(1) lt(1) unfolding w(2) [symmetric] by (simp add: ends_def)
    then have "list_ex (\<lambda>g. notifies (ends s) ?q (pc g)) (gos w)"
      using runs_wake [OF assms(2,1) that] ne c(2,3) assms(4)
      unfolding wake_inv_def list_ex_length by blast
    then obtain j where j: "j < length (gos w)" "notifies (ends s) ?q (pc (gos w ! j))"
      by (auto simp: list_ex_length)
    with stuck_goroutine [OF assms(3) j(1)] show False
      by (cases "pc (gos w ! j)") (simp_all add: quiet_def)
  qed
  with c(1) open_q show ?thesis by blast
qed simp

lemma stuck_pair: "stuck pair_end"
proof -
  have "go_step i b pair_end = None" if "i < 2" for i b
    using that by (cases b) (auto simp: less_2_cases_iff pair_end_def go_step_def quiet_def mu_free_def
        demo_store_def new_memQueue_def Let_def)
  then show ?thesis
    by (simp add: stuck_def pair_end_def)
qed

theorem concurrent_delivery_witness:
  "stuck pair_end \<and> pc (gos pair_end ! 0) = RecvWait False 1 \<and> messages (queues (store pair_end) ! 0) = []"
proof -
  obtain ls where ls: "runs (start_world demo_store pair_prog) ls pair_end"
    using pair_run run_schedule_runs by blast
  have "one_receiver (ends demo_store) 0 (gos (start_world demo_store pair_prog))"
    by (auto simp: one_receiver_def receives_def start_world_def pair_prog_def less_Suc_eq)
  moreover have "0 < length (gos pair_end)" "pc (gos pair_end ! 0) = RecvWait False 1"
      "inbound (conns (store pair_end) ! 1) = 0"
    by (simp_all add: pair_end_def demo_store_def)
  ultimately show ?thesis
    using concurrent_delivery [OF pair_prog_ok ls stuck_pair, of 0] stuck_pair by (auto simp: quiet_def)
qed

text \<open>C38. With two receivers a wakeup can be lost: the notifier holds one element, a second \<open>Send\<close> that
  comes before a waiting receiver has taken the first adds nothing, and one receiver goes on waiting
  although a message is in its queue, the connection is open and no goroutine can take a step.\<close>

theorem two_receivers_lost_wakeup:
  "\<exists>prog ls w i c. prog_ok demo_store prog \<and> runs (start_world demo_store prog) ls w \<and> stuck w \<and>
     pc (gos w ! i) = RecvWait False c \<and> \<not> mclosed (conns (store w) ! c) \<and>
     \<not> qclosed (queues (store w) ! inbound (conns (store w) ! c)) \<and>
     messages (queues (store w) ! inbound (conns (store w) ! c)) = [8]"
proof -
  obtain ls where ls: "runs (start_world demo_store lost_prog) ls lost_end"
    using lost_run run_schedule_runs by blast
  have "go_step i b lost_end = None" if "i = 0 \<or> i = 1 \<or> i = 2" for i b
    using that by (cases b) (auto simp: lost_end_def go_step_def quiet_def mu_free_def upd_queue_def
        demo_store_def new_memQueue_def Let_def)
  then have "stuck lost_end"
    by (simp add: stuck_def lost_end_def less_Suc_eq numeral_eq_Suc)
  moreover have "pc (gos lost_end ! 1) = RecvWait False 1" "\<not> mclosed (conns (store lost_end) ! 1)"
      "\<not> qclosed (queues (store lost_end) ! inbound (conns (store lost_end) ! 1))"
      "messages (queues (store lost_end) ! inbound (conns (store lost_end) ! 1)) = [8]"
    by (simp_all add: lost_end_def upd_queue_def demo_store_def new_memQueue_def)
  ultimately show ?thesis using lost_prog_ok ls by blast
qed

text \<open>C20. Panics.  The only panic of an interleaving is a send on a closed channel, and only in a program
  that calls \<open>Close\<close> on some end; a program without \<open>Close\<close> never panics.  The panic does happen: when a
  queue is closed after a \<open>Send\<close> has put its message in and before it has notified.\<close>

theorem concurrent_panic:
  assumes "prog_ok s prog" and "runs (start_world s prog) ls w" and "crashed w = Some x"
  shows "x = SendOnClosedChannel \<and> list_ex (list_ex closes_call) prog"
proof -
  have "crashed w = Some x \<longrightarrow> x = SendOnClosedChannel"
    using assms(2)
  proof (induction rule: runs.induct)
    case (runs_step ls w i b l w')
    have w: "world_ok w" using runs_ok [OF runs_step.hyps(1) assms(1)] by blast
    show ?case
      using runs_step.hyps(2)
    proof (cases rule: go_step_cases)
      case (crash y)
      have "pc_ok (length (conns (store w))) (pc (gos w ! i))" "mem_ok (store w)"
        using world_ok_nth [OF w crash(1)] w by (simp_all add: go_ok_def world_ok_def)
      with pc_step_Panic [OF crash(3)] crash(5) show ?thesis by auto
    qed simp_all
  qed simp
  moreover have "list_ex (list_ex closes_call) prog"
    using runs_open [OF assms(2,1)] assms(3) by (auto simp: open_inv_def)
  ultimately show ?thesis using assms(3) by blast
qed

definition race_prog :: "nat mem_call list list" where
  "race_prog = [[CallSend False (Some 7) 0], [CallClose 0]]"

definition race_schedule :: "(nat \<times> bool) list" where
  "race_schedule = map (\<lambda>i. (i, False)) (replicate 4 0 @ replicate 4 1 @ [0])"

theorem concurrent_panic_witness:
  "\<exists>ls w. runs (start_world demo_store race_prog) ls w \<and> crashed w = Some SendOnClosedChannel"
proof -
  have "\<exists>ls w. run_schedule race_schedule (start_world demo_store race_prog) = Some (ls, w) \<and> crashed w \<noteq> None"
    by (simp add: race_schedule_def numeral_eq_Suc race_prog_def start_world_def go_step_def quiet_def
        mu_free_def Let_def demo_store_def new_memQueue_def upd_queue_def notify_def close_queue_def)
  then obtain ls w x where w: "runs (start_world demo_store race_prog) ls w" "crashed w = Some x"
    using run_schedule_runs by fastforce
  have "prog_ok demo_store race_prog"
    by (simp add: prog_ok_def race_prog_def demo_store_ok)
  from concurrent_panic [OF this w] w show ?thesis by blast
qed

end
