(* ===== verification/Mock_Transport.thy ===== *)
theory Mock_Transport
  imports Transport_Core
begin

text \<open>
  The mock transport of transport/mock.go.  A message pointer is an \<open>option\<close> (nil can be sent).
  Connections and listeners live in a store.  Operations are modelled as they run when no other
  goroutine interferes; the result \<open>None\<close> is a call that waits.

  The hooks of a test are functions of their argument and of a state of their own, the type
  \<open>'h\<close>; they return their result (errors as texts) and the calls they make on connections:
  the code runs them without holding a lock, so a hook may close a connection, the one being
  sent on included, or turn its failure switches.  Hooks that call anything else (send, receive,
  dial, install hooks, close a listener or the transport, read counters) are not modelled.
\<close>

section \<open>Objects\<close>

datatype mock_error = Own transport_error | HookError string

text \<open>What a hook may do to a connection, and the type of a hook.\<close>

datatype hook_action = CloseConn nat | FailSendConn bool nat | FailRecvConn bool nat

type_synonym ('a, 'r, 'h) hook = "'a \<Rightarrow> 'h \<Rightarrow> 'r \<times> hook_action list \<times> 'h"
type_synonym ('m, 'h) error_hook = "('m option, string option, 'h) hook"
type_synonym ('m, 'h) recv_hook = "('m option, unit, 'h) hook"
type_synonym 'h dial_hook = "(string, string option, 'h) hook"
type_synonym ('m, 'h) dropper = "('m option, bool, 'h) hook"

record ('m, 'h) MockTransport =
  connections :: "(string, nat) gomap"
  listeners :: "(string, nat) gomap"
  tclosed :: bool
  config :: TransportConfig
  onSend :: "('m, 'h) error_hook option"
  onRecv :: "('m, 'h) recv_hook option"
  onDial :: "'h dial_hook option"
  messageDropper :: "('m, 'h) dropper option"

text \<open>The channel of messages has room for 64 of them, that of connections too.\<close>

record ('m, 'h) MockConnection =
  localAddr :: string
  remoteAddr :: string
  closed :: bool
  send_count :: int64
  recv_count :: int64
  messages :: "'m option list"
  chan_closed :: bool
  conn_onSend :: "('m, 'h) error_hook option"
  conn_onRecv :: "('m, 'h) recv_hook option"
  willFailSend :: bool
  willFailRecv :: bool
  sendErrorCount :: int
  sendErrorAfter :: int

record MockListener =
  addr :: string
  pending :: "nat list"
  lchan_closed :: bool
  lclosed :: bool
  acceptCount :: int64
  acceptErrorNext :: bool

record ('m, 'h) mock_store =
  conns :: "('m, 'h) MockConnection list"
  lstns :: "MockListener list"
  hooks :: 'h

definition channel_size :: nat where
  "channel_size = 64"

definition NewMockTransport :: "TransportConfig \<Rightarrow> ('m, 'h) MockTransport" where
  "NewMockTransport cfg =
     \<lparr>connections = [], listeners = [], tclosed = False,
      config = (if NodeName cfg = [] then cfg\<lparr>NodeName := ''mock-node''\<rparr> else cfg),
      onSend = None, onRecv = None, onDial = None, messageDropper = None\<rparr>"

section \<open>Closing, failure switches and hooks\<close>

definition upd_conn ::
    "nat \<Rightarrow> (('m, 'h) MockConnection \<Rightarrow> ('m, 'h) MockConnection) \<Rightarrow> ('m, 'h) mock_store
     \<Rightarrow> ('m, 'h) mock_store" where
  "upd_conn c f w = w\<lparr>conns := (conns w)[c := f (conns w ! c)]\<rparr>"

definition MockConnection_Close :: "nat \<Rightarrow> ('m, 'h) mock_store \<Rightarrow> ('m, 'h) mock_store go" where
  "MockConnection_Close c w =
     (if closed (conns w ! c) then Return w
      else if chan_closed (conns w ! c) then Panic CloseOfClosedChannel
      else Return (upd_conn c (\<lambda>C. C\<lparr>closed := True, chan_closed := True\<rparr>) w))"

definition SetFailSend :: "bool \<Rightarrow> nat \<Rightarrow> ('m, 'h) mock_store \<Rightarrow> ('m, 'h) mock_store" where
  "SetFailSend fail c w = upd_conn c (\<lambda>C. C\<lparr>willFailSend := fail\<rparr>) w"

definition SetFailRecv :: "bool \<Rightarrow> nat \<Rightarrow> ('m, 'h) mock_store \<Rightarrow> ('m, 'h) mock_store" where
  "SetFailRecv fail c w = upd_conn c (\<lambda>C. C\<lparr>willFailRecv := fail\<rparr>) w"

fun run_action :: "hook_action \<Rightarrow> ('m, 'h) mock_store \<Rightarrow> ('m, 'h) mock_store go" where
  "run_action (CloseConn c) w = MockConnection_Close c w"
| "run_action (FailSendConn b c) w = Return (SetFailSend b c w)"
| "run_action (FailRecvConn b c) w = Return (SetFailRecv b c w)"

fun run_actions :: "hook_action list \<Rightarrow> ('m, 'h) mock_store \<Rightarrow> ('m, 'h) mock_store go" where
  "run_actions [] w = Return w"
| "run_actions (a # as) w = go_bind (run_action a w) (run_actions as)"

text \<open>Calling a hook that may be nil: what it decides, and what it does to the store.\<close>

definition hook_result ::
    "'r \<Rightarrow> ('a, 'r, 'h) hook option \<Rightarrow> 'a \<Rightarrow> 'h \<Rightarrow> 'r \<times> hook_action list \<times> 'h" where
  "hook_result r hook x h = (case hook of None \<Rightarrow> (r, [], h) | Some f \<Rightarrow> f x h)"

definition run_hook ::
    "'r \<Rightarrow> ('a, 'r, 'h) hook option \<Rightarrow> 'a \<Rightarrow> ('m, 'h) mock_store
     \<Rightarrow> ('r \<times> ('m, 'h) mock_store) go" where
  "run_hook r hook x w = (case hook_result r hook x (hooks w) of
     (res, acts, h) \<Rightarrow> go_map (\<lambda>w. (res, w)) (run_actions acts (w\<lparr>hooks := h\<rparr>)))"

definition run_error_hook ::
    "'m option \<Rightarrow> ('m, 'h) error_hook option \<Rightarrow> ('m, 'h) mock_store
     \<Rightarrow> (string option \<times> ('m, 'h) mock_store) go" where
  "run_error_hook msg hook w = run_hook None hook msg w"

definition run_dropper ::
    "'m option \<Rightarrow> ('m, 'h) dropper option \<Rightarrow> ('m, 'h) mock_store
     \<Rightarrow> (bool \<times> ('m, 'h) mock_store) go" where
  "run_dropper msg d w = run_hook False d msg w"

definition run_recv_hook ::
    "'m option \<Rightarrow> ('m, 'h) recv_hook option \<Rightarrow> ('m, 'h) mock_store \<Rightarrow> ('m, 'h) mock_store go" where
  "run_recv_hook msg hook w = go_map snd (run_hook () hook msg w)"

definition run_dial_hook ::
    "string \<Rightarrow> 'h dial_hook option \<Rightarrow> ('m, 'h) mock_store
     \<Rightarrow> (string option \<times> ('m, 'h) mock_store) go" where
  "run_dial_hook a hook w = run_hook None hook a w"

section \<open>The transport\<close>

text \<open>Listening replaces a listener already registered for the address.\<close>

definition MockTransport_Listen ::
    "string \<Rightarrow> ('m, 'h) MockTransport \<Rightarrow> ('m, 'h) mock_store
     \<Rightarrow> (mock_error + nat) \<times> ('m, 'h) MockTransport \<times> ('m, 'h) mock_store" where
  "MockTransport_Listen a t w =
     (if tclosed t then (Inl (Own ErrListenerClosed), t, w)
      else
        (Inr (length (lstns w)), t\<lparr>listeners := mput a (length (lstns w)) (listeners t)\<rparr>,
         w\<lparr>lstns := lstns w @ [\<lparr>addr = a, pending = [], lchan_closed = False, lclosed = False,
             acceptCount = 0, acceptErrorNext = False\<rparr>]\<rparr>))"

definition new_MockConnection :: "string \<Rightarrow> string \<Rightarrow> ('m, 'h) MockConnection" where
  "new_MockConnection l r =
     \<lparr>localAddr = l, remoteAddr = r, closed = False, send_count = 0, recv_count = 0,
      messages = [], chan_closed = False, conn_onSend = None, conn_onRecv = None,
      willFailSend = False, willFailRecv = False, sendErrorCount = 0, sendErrorAfter = 0\<rparr>"

text \<open>The new connection is registered before it is handed to the listener, and the same object
  serves both ends.\<close>

definition MockTransport_Dial ::
    "ctx \<Rightarrow> string \<Rightarrow> ('m, 'h) MockTransport \<Rightarrow> ('m, 'h) mock_store
     \<Rightarrow> ((mock_error + nat) option \<times> ('m, 'h) MockTransport \<times> ('m, 'h) mock_store) go" where
  "MockTransport_Dial ctx a t w =
     go_bind (run_dial_hook a (onDial t) w) (\<lambda>(err, w). case err of
        Some e \<Rightarrow> Return (Some (Inl (HookError e)), t, w)
      | None \<Rightarrow>
          case map_of (listeners t) a of
            None \<Rightarrow> Return (Some (Inl (Own ErrDialFailed)), t, w)
          | Some l \<Rightarrow>
              let listener = lstns w ! l; c = length (conns w);
                  t = t\<lparr>connections := mput a c (connections t)\<rparr>;
                  w = w\<lparr>conns := conns w @ [new_MockConnection (NodeName (config t)) a]\<rparr> in
              if ctx = DoneFirst then Return (Some (Inl (Own ErrContextCancelled)), t, w)
              else if lchan_closed listener then Panic SendOnClosedChannel
              else if length (pending listener) < channel_size then
                Return (Some (Inr c), t,
                  w\<lparr>lstns := (lstns w)[l := listener\<lparr>pending := pending listener @ [c]\<rparr>]\<rparr>)
              else if ctx = Done then Return (Some (Inl (Own ErrContextCancelled)), t, w)
              else Return (None, t, w))"

definition close_listener :: "MockListener \<Rightarrow> MockListener go" where
  "close_listener l =
     (if lclosed l then Return l
      else if lchan_closed l then Panic CloseOfClosedChannel
      else Return (l\<lparr>lclosed := True, lchan_closed := True\<rparr>))"

fun close_listeners :: "(string, nat) gomap \<Rightarrow> MockListener list \<Rightarrow> MockListener list go" where
  "close_listeners [] ls = Return ls"
| "close_listeners ((a, l) # m) ls =
     go_bind (close_listener (ls ! l)) (\<lambda>l'. close_listeners m (ls[l := l']))"

definition MockTransport_Close ::
    "('m, 'h) MockTransport \<Rightarrow> ('m, 'h) mock_store
     \<Rightarrow> (('m, 'h) MockTransport \<times> ('m, 'h) mock_store) go" where
  "MockTransport_Close t w =
     (if tclosed t then Return (t, w)
      else go_map (\<lambda>ls. (t\<lparr>tclosed := True\<rparr>, w\<lparr>lstns := ls\<rparr>))
        (close_listeners (listeners t) (lstns w)))"

definition MockTransport_SetOnSend ::
    "('m, 'h) error_hook option \<Rightarrow> ('m, 'h) MockTransport \<Rightarrow> ('m, 'h) MockTransport" where
  "MockTransport_SetOnSend hook t = t\<lparr>onSend := hook\<rparr>"

definition MockTransport_SetOnRecv ::
    "('m, 'h) recv_hook option \<Rightarrow> ('m, 'h) MockTransport \<Rightarrow> ('m, 'h) MockTransport" where
  "MockTransport_SetOnRecv hook t = t\<lparr>onRecv := hook\<rparr>"

definition MockTransport_SetOnDial ::
    "'h dial_hook option \<Rightarrow> ('m, 'h) MockTransport \<Rightarrow> ('m, 'h) MockTransport" where
  "MockTransport_SetOnDial hook t = t\<lparr>onDial := hook\<rparr>"

definition SetMessageDropper ::
    "('m, 'h) dropper option \<Rightarrow> ('m, 'h) MockTransport \<Rightarrow> ('m, 'h) MockTransport" where
  "SetMessageDropper d t = t\<lparr>messageDropper := d\<rparr>"

definition GetConnection :: "string \<Rightarrow> ('m, 'h) MockTransport \<Rightarrow> nat option" where
  "GetConnection a t = map_of (connections t) a"

section \<open>Connections\<close>

definition count_send :: "nat \<Rightarrow> ('m, 'h) mock_store \<Rightarrow> ('m, 'h) mock_store" where
  "count_send c w = upd_conn c (\<lambda>C. C\<lparr>send_count := send_count C + 1\<rparr>) w"

definition count_recv :: "nat \<Rightarrow> ('m, 'h) mock_store \<Rightarrow> ('m, 'h) mock_store" where
  "count_recv c w = upd_conn c (\<lambda>C. C\<lparr>recv_count := recv_count C + 1\<rparr>) w"

text \<open>The last part of \<open>Send\<close>: the message goes into the channel.\<close>

definition send_select ::
    "ctx \<Rightarrow> 'm option \<Rightarrow> nat \<Rightarrow> ('m, 'h) mock_store
     \<Rightarrow> (mock_error option option \<times> ('m, 'h) mock_store) go" where
  "send_select ctx msg c w =
     (if ctx = DoneFirst then Return (Some (Some (Own ErrContextCancelled)), w)
      else if chan_closed (conns w ! c) then Panic SendOnClosedChannel
      else if length (messages (conns w ! c)) < channel_size then
        Return (Some None, upd_conn c (\<lambda>C. C\<lparr>messages := messages C @ [msg]\<rparr>) w)
      else if ctx = Done then Return (Some (Some (Own ErrContextCancelled)), w)
      else Return (None, w))"

definition MockConnection_Send ::
    "ctx \<Rightarrow> ('m, 'h) MockTransport \<Rightarrow> 'm option \<Rightarrow> nat \<Rightarrow> ('m, 'h) mock_store
     \<Rightarrow> (mock_error option option \<times> ('m, 'h) mock_store) go" where
  "MockConnection_Send ctx t msg c w =
     (let C = conns w ! c in
      if closed C then Return (Some (Some (Own ErrConnectionClosed)), w)
      else if conn_onSend C \<noteq> None then
        go_map (\<lambda>(err, w). (Some (map_option HookError err), w))
          (run_error_hook msg (conn_onSend C) w)
      else if willFailSend C \<and> (sendErrorCount C = 0 \<or> sint (send_count C) \<ge> sendErrorAfter C) then
        Return (Some (Some (Own ErrDialFailed)), count_send c w)
      else go_bind (run_error_hook msg (onSend t) w) (\<lambda>(err, w). case err of
        Some e \<Rightarrow> Return (Some (Some (HookError e)), count_send c w)
      | None \<Rightarrow>
          go_bind (run_dropper msg (messageDropper t) w) (\<lambda>(dropped, w).
            let w = count_send c w in
            if dropped then Return (Some None, w) else send_select ctx msg c w)))"

text \<open>The last part of \<open>Recv\<close>; a closed empty channel yields nil.\<close>

definition deliver ::
    "('m, 'h) MockTransport \<Rightarrow> 'm option \<Rightarrow> nat \<Rightarrow> ('m, 'h) mock_store
     \<Rightarrow> ((mock_error + 'm option) option \<times> ('m, 'h) mock_store) go" where
  "deliver t msg c w =
     go_bind (run_recv_hook msg (onRecv t) (count_recv c w)) (\<lambda>w.
     go_map (\<lambda>w. (Some (Inr msg), w)) (run_recv_hook msg (conn_onRecv (conns w ! c)) w))"

definition recv_select ::
    "ctx \<Rightarrow> ('m, 'h) MockTransport \<Rightarrow> nat \<Rightarrow> ('m, 'h) mock_store
     \<Rightarrow> ((mock_error + 'm option) option \<times> ('m, 'h) mock_store) go" where
  "recv_select ctx t c w =
     (if ctx = DoneFirst then Return (Some (Inl (Own ErrContextCancelled)), w)
      else case messages (conns w ! c) of
        m # ms \<Rightarrow> deliver t m c (upd_conn c (\<lambda>C. C\<lparr>messages := ms\<rparr>) w)
      | [] \<Rightarrow>
          if chan_closed (conns w ! c) then deliver t None c w
          else if ctx = Done then Return (Some (Inl (Own ErrContextCancelled)), w)
          else Return (None, w))"

definition MockConnection_Recv ::
    "ctx \<Rightarrow> ('m, 'h) MockTransport \<Rightarrow> nat \<Rightarrow> ('m, 'h) mock_store
     \<Rightarrow> ((mock_error + 'm option) option \<times> ('m, 'h) mock_store) go" where
  "MockConnection_Recv ctx t c w =
     (if closed (conns w ! c) then Return (Some (Inl (Own ErrConnectionClosed)), w)
      else if willFailRecv (conns w ! c) then Return (Some (Inl (Own ErrDialFailed)), count_recv c w)
      else recv_select ctx t c w)"

definition MockConnection_SetOnSend ::
    "('m, 'h) error_hook option \<Rightarrow> nat \<Rightarrow> ('m, 'h) mock_store \<Rightarrow> ('m, 'h) mock_store" where
  "MockConnection_SetOnSend hook c w = upd_conn c (\<lambda>C. C\<lparr>conn_onSend := hook\<rparr>) w"

definition MockConnection_SetOnRecv ::
    "('m, 'h) recv_hook option \<Rightarrow> nat \<Rightarrow> ('m, 'h) mock_store \<Rightarrow> ('m, 'h) mock_store" where
  "MockConnection_SetOnRecv hook c w = upd_conn c (\<lambda>C. C\<lparr>conn_onRecv := hook\<rparr>) w"

definition MockConnection_LocalAddr :: "nat \<Rightarrow> ('m, 'h) mock_store \<Rightarrow> string" where
  "MockConnection_LocalAddr c w = localAddr (conns w ! c)"

definition MockConnection_RemoteAddr :: "nat \<Rightarrow> ('m, 'h) mock_store \<Rightarrow> string" where
  "MockConnection_RemoteAddr c w = remoteAddr (conns w ! c)"

definition SendCount :: "nat \<Rightarrow> ('m, 'h) mock_store \<Rightarrow> int64" where
  "SendCount c w = send_count (conns w ! c)"

definition RecvCount :: "nat \<Rightarrow> ('m, 'h) mock_store \<Rightarrow> int64" where
  "RecvCount c w = recv_count (conns w ! c)"

text \<open>
  Peeking receives a message and puts it back, at the end.  On a closed channel the receive
  succeeds (with nil when it is empty) and the send panics.
\<close>

definition PeekMessage :: "nat \<Rightarrow> ('m, 'h) mock_store \<Rightarrow> ('m option \<times> ('m, 'h) mock_store) go" where
  "PeekMessage c w =
     (case messages (conns w ! c) of
        m # ms \<Rightarrow>
          if chan_closed (conns w ! c) then Panic SendOnClosedChannel
          else Return (m, upd_conn c (\<lambda>C. C\<lparr>messages := ms @ [m]\<rparr>) w)
      | [] \<Rightarrow>
          if chan_closed (conns w ! c) then Panic SendOnClosedChannel
          else Return (None, w))"

section \<open>Listeners\<close>

definition upd_lstn ::
    "nat \<Rightarrow> (MockListener \<Rightarrow> MockListener) \<Rightarrow> ('m, 'h) mock_store \<Rightarrow> ('m, 'h) mock_store" where
  "upd_lstn l f w = w\<lparr>lstns := (lstns w)[l := f (lstns w ! l)]\<rparr>"

definition accept_select ::
    "ctx \<Rightarrow> nat \<Rightarrow> ('m, 'h) mock_store \<Rightarrow> (mock_error + nat option) option \<times> ('m, 'h) mock_store" where
  "accept_select ctx l w =
     (if ctx = DoneFirst then (Some (Inl (Own ErrContextCancelled)), w)
      else case pending (lstns w ! l) of
        c # cs \<Rightarrow> (Some (Inr (Some c)), upd_lstn l (\<lambda>L. L\<lparr>pending := cs\<rparr>) w)
      | [] \<Rightarrow>
          if lchan_closed (lstns w ! l) then (Some (Inr None), w)
          else if ctx = Done then (Some (Inl (Own ErrContextCancelled)), w)
          else (None, w))"

definition MockListener_Accept ::
    "ctx \<Rightarrow> nat \<Rightarrow> ('m, 'h) mock_store \<Rightarrow> (mock_error + nat option) option \<times> ('m, 'h) mock_store" where
  "MockListener_Accept ctx l w =
     (if lclosed (lstns w ! l) then (Some (Inl (Own ErrListenerClosed)), w)
      else if acceptErrorNext (lstns w ! l) then
        (Some (Inl (Own ErrDialFailed)), upd_lstn l (\<lambda>L. L\<lparr>acceptErrorNext := False\<rparr>) w)
      else accept_select ctx l (upd_lstn l (\<lambda>L. L\<lparr>acceptCount := acceptCount L + 1\<rparr>) w))"

definition MockListener_Close :: "nat \<Rightarrow> ('m, 'h) mock_store \<Rightarrow> ('m, 'h) mock_store go" where
  "MockListener_Close l w =
     go_map (\<lambda>L. w\<lparr>lstns := (lstns w)[l := L]\<rparr>) (close_listener (lstns w ! l))"

definition SetAcceptErrorNext :: "bool \<Rightarrow> nat \<Rightarrow> ('m, 'h) mock_store \<Rightarrow> ('m, 'h) mock_store" where
  "SetAcceptErrorNext fail l w = upd_lstn l (\<lambda>L. L\<lparr>acceptErrorNext := fail\<rparr>) w"

definition MockListener_Addr :: "nat \<Rightarrow> ('m, 'h) mock_store \<Rightarrow> string" where
  "MockListener_Addr l w = addr (lstns w ! l)"

definition AcceptCount :: "nat \<Rightarrow> ('m, 'h) mock_store \<Rightarrow> int64" where
  "AcceptCount l w = acceptCount (lstns w ! l)"

section \<open>Steps on one connection\<close>

definition conn_ok :: "('m, 'h) MockConnection \<Rightarrow> bool" where
  "conn_ok C \<longleftrightarrow> (closed C \<longleftrightarrow> chan_closed C) \<and> length (messages C) \<le> channel_size"

definition mock_ok :: "('m, 'h) mock_store \<Rightarrow> bool" where
  "mock_ok w \<longleftrightarrow> list_all conn_ok (conns w)"

datatype 'm mock_op =
    OpSend ctx "'m option" nat
  | OpRecv ctx nat
  | OpClose nat
  | OpFailSend bool nat
  | OpFailRecv bool nat

datatype 'm mock_event =
    Sent nat "'m option"
  | Received nat "'m option"
  | SendRefused "mock_error option option"
  | RecvRefused "mock_error option"
  | Other

fun op_conn :: "'m mock_op \<Rightarrow> nat" where
  "op_conn (OpSend ctx msg c) = c"
| "op_conn (OpRecv ctx c) = c"
| "op_conn (OpClose c) = c"
| "op_conn (OpFailSend b c) = c"
| "op_conn (OpFailRecv b c) = c"

text \<open>When a send reaches the channel: the connection is open and has no hook and no failure
  switch that stops it, the transport's hooks let the message through, the context does not end it
  and there is room.\<close>

definition passes_checks :: "('m, 'h) MockConnection \<Rightarrow> bool" where
  "passes_checks C \<longleftrightarrow> \<not> closed C \<and> conn_onSend C = None \<and>
     \<not> (willFailSend C \<and> (sendErrorCount C = 0 \<or> sint (send_count C) \<ge> sendErrorAfter C))"

definition passes_hooks :: "('m, 'h) MockTransport \<Rightarrow> 'm option \<Rightarrow> 'h \<Rightarrow> bool" where
  "passes_hooks t msg h \<longleftrightarrow>
     (case hook_result None (onSend t) msg h of (err, _, h) \<Rightarrow>
        err = None \<and> \<not> fst (hook_result False (messageDropper t) msg h))"

text \<open>What the transport's hooks do to connections during such a send.\<close>

definition send_actions :: "('m, 'h) MockTransport \<Rightarrow> 'm option \<Rightarrow> 'h \<Rightarrow> hook_action list" where
  "send_actions t msg h =
     (case hook_result None (onSend t) msg h of (_, acts, h) \<Rightarrow>
        acts @ fst (snd (hook_result False (messageDropper t) msg h)))"

definition enqueues ::
    "ctx \<Rightarrow> ('m, 'h) MockTransport \<Rightarrow> 'm option \<Rightarrow> nat \<Rightarrow> ('m, 'h) mock_store \<Rightarrow> bool" where
  "enqueues ctx t msg c w \<longleftrightarrow>
     passes_checks (conns w ! c) \<and> passes_hooks t msg (hooks w) \<and>
     ctx \<noteq> DoneFirst \<and> length (messages (conns w ! c)) < channel_size"

fun mock_step ::
    "('m, 'h) MockTransport \<Rightarrow> 'm mock_op \<Rightarrow> ('m, 'h) mock_store
     \<Rightarrow> ('m mock_event \<times> ('m, 'h) mock_store) go" where
  "mock_step t (OpSend ctx msg c) w =
     go_map (\<lambda>(r, w'). (if enqueues ctx t msg c w then Sent c msg else SendRefused r, w'))
       (MockConnection_Send ctx t msg c w)"
| "mock_step t (OpRecv ctx c) w =
     go_map (\<lambda>(r, w'). (case r of
        Some (Inr m) \<Rightarrow> Received c m
      | Some (Inl e) \<Rightarrow> RecvRefused (Some e)
      | None \<Rightarrow> RecvRefused None, w')) (MockConnection_Recv ctx t c w)"
| "mock_step t (OpClose c) w = go_map (\<lambda>w'. (Other, w')) (MockConnection_Close c w)"
| "mock_step t (OpFailSend b c) w = Return (Other, SetFailSend b c w)"
| "mock_step t (OpFailRecv b c) w = Return (Other, SetFailRecv b c w)"

fun sent_on :: "nat \<Rightarrow> 'm mock_event \<Rightarrow> 'm option list" where
  "sent_on c (Sent d m) = (if d = c then [m] else [])"
| "sent_on c ev = []"

fun received_on :: "nat \<Rightarrow> 'm mock_event \<Rightarrow> 'm option list" where
  "received_on c (Received d m) = (if d = c then [m] else [])"
| "received_on c ev = []"

lemma upd_conn_simps [simp]:
  "length (conns (upd_conn c f w)) = length (conns w)"
  "hooks (upd_conn c f w) = hooks w"
  by (simp_all add: upd_conn_def)

lemma upd_conn_nth:
  "c < length (conns w) \<Longrightarrow>
     conns (upd_conn c f w) ! d = (if d = c then f (conns w ! c) else conns w ! d)"
  by (simp add: upd_conn_def nth_list_update)

lemma mock_ok_nth: "mock_ok w \<longleftrightarrow> (\<forall>c < length (conns w). conn_ok (conns w ! c))"
  by (simp add: mock_ok_def list_all_length)

text \<open>
  What a call leaves: the connections in \<open>S\<close> are closed, and nothing else about open or closed,
  the queues and the connections' own hooks has changed.
\<close>

definition changed :: "nat set \<Rightarrow> ('m, 'h) mock_store \<Rightarrow> ('m, 'h) mock_store \<Rightarrow> bool" where
  "changed S w w' \<longleftrightarrow> length (conns w') = length (conns w) \<and>
     (\<forall>d < length (conns w).
        messages (conns w' ! d) = messages (conns w ! d) \<and>
        conn_onSend (conns w' ! d) = conn_onSend (conns w ! d) \<and>
        conn_onRecv (conns w' ! d) = conn_onRecv (conns w ! d) \<and>
        closed (conns w' ! d) = (closed (conns w ! d) \<or> d \<in> S) \<and>
        chan_closed (conns w' ! d) = (chan_closed (conns w ! d) \<or> d \<in> S))"

lemma changed_trans: "changed S w w1 \<Longrightarrow> changed T w1 w2 \<Longrightarrow> changed (S \<union> T) w w2"
  by (simp add: changed_def Un_iff disj_assoc)

lemma changed_simps [simp]:
  "changed {} w w"
  "changed {} w (w\<lparr>hooks := h\<rparr>)"
  "d < length (conns w) \<Longrightarrow> changed {} w (count_send d w)"
  "d < length (conns w) \<Longrightarrow> changed {} w (count_recv d w)"
  by (simp_all add: changed_def count_send_def count_recv_def upd_conn_nth)

lemma changed_ok: "changed S w w' \<Longrightarrow> mock_ok w \<Longrightarrow> mock_ok w'"
  by (simp add: changed_def mock_ok_nth conn_ok_def)

lemma changed_length: "changed S w w' \<Longrightarrow> length (conns w') = length (conns w)"
  by (simp add: changed_def)

fun action_conn :: "hook_action \<Rightarrow> nat" where
  "action_conn (CloseConn c) = c"
| "action_conn (FailSendConn b c) = c"
| "action_conn (FailRecvConn b c) = c"

definition closes :: "hook_action list \<Rightarrow> nat set" where
  "closes acts = {c. CloseConn c \<in> set acts}"

lemma closes_simps [simp]:
  "closes [] = {}" "closes (xs @ ys) = closes xs \<union> closes ys"
  by (auto simp: closes_def)

lemma run_action_changed:
  assumes "mock_ok w" and "action_conn a < length (conns w)"
  shows "\<exists>w'. run_action a w = Return w' \<and> changed (closes [a]) w w' \<and> hooks w' = hooks w"
  using assms
  by (cases a) (auto simp: MockConnection_Close_def SetFailSend_def SetFailRecv_def changed_def
      closes_def upd_conn_nth mock_ok_nth conn_ok_def)

lemma run_actions_changed:
  assumes "mock_ok w" and "list_all (\<lambda>a. action_conn a < length (conns w)) acts"
  shows "\<exists>w'. run_actions acts w = Return w' \<and> changed (closes acts) w w' \<and> hooks w' = hooks w"
  using assms
proof (induction acts arbitrary: w)
  case (Cons a acts)
  obtain w1 where w1: "run_action a w = Return w1" "changed (closes [a]) w w1" "hooks w1 = hooks w"
    using run_action_changed [OF Cons.prems(1), of a] Cons.prems(2) by auto
  obtain w2 where w2: "run_actions acts w1 = Return w2" "changed (closes acts) w1 w2" "hooks w2 = hooks w1"
    using Cons.IH [of w1] Cons.prems changed_ok [OF w1(2)] changed_length [OF w1(2)] by auto
  have "changed (closes (a # acts)) w w2"
    using changed_trans [OF w1(2) w2(2)] closes_simps(2) [of "[a]" acts] by simp
  with w1 w2 show ?case by simp
qed simp

text \<open>A predicate on everything the hooks of a transport and of its connections may do.\<close>

definition hook_acts :: "(hook_action \<Rightarrow> bool) \<Rightarrow> ('a, 'r, 'h) hook option \<Rightarrow> bool" where
  "hook_acts P hook \<longleftrightarrow> (\<forall>r x h. list_all P (fst (snd (hook_result r hook x h))))"

definition hooks_act ::
    "(hook_action \<Rightarrow> bool) \<Rightarrow> ('m, 'h) MockTransport \<Rightarrow> ('m, 'h) mock_store \<Rightarrow> bool" where
  "hooks_act P t w \<longleftrightarrow> hook_acts P (onSend t) \<and> hook_acts P (onRecv t) \<and> hook_acts P (messageDropper t) \<and>
     (\<forall>c < length (conns w). hook_acts P (conn_onSend (conns w ! c)) \<and> hook_acts P (conn_onRecv (conns w ! c)))"

lemma hook_acts_None [simp]: "hook_acts P None"
  by (simp add: hook_acts_def hook_result_def)

lemma changed_hooks_act: "changed S w w' \<Longrightarrow> hooks_act P t w \<Longrightarrow> hooks_act P t w'"
  by (simp add: changed_def hooks_act_def)

lemma run_hook_changed:
  assumes "mock_ok w" and "hook_acts (\<lambda>a. action_conn a < length (conns w)) hook"
    and "hook_result r hook x (hooks w) = (res, acts, h)"
  shows "\<exists>w'. run_hook r hook x w = Return (res, w') \<and> changed (closes acts) w w' \<and> hooks w' = h"
proof -
  have "list_all (\<lambda>a. action_conn a < length (conns w)) acts"
    using assms(2,3) unfolding hook_acts_def by (metis fst_conv snd_conv)
  then obtain w' where w': "run_actions acts (w\<lparr>hooks := h\<rparr>) = Return w'"
      "changed (closes acts) (w\<lparr>hooks := h\<rparr>) w'" "hooks w' = h"
    using run_actions_changed [of "w\<lparr>hooks := h\<rparr>" acts] assms(1) by (auto simp: mock_ok_def)
  then show ?thesis
    using assms(3) by (simp add: run_hook_def changed_def)
qed

definition existing :: "nat \<Rightarrow> hook_action \<Rightarrow> bool" where
  "existing n a \<longleftrightarrow> action_conn a < n"

definition closes_none :: "nat \<Rightarrow> hook_action \<Rightarrow> bool" where
  "closes_none n a \<longleftrightarrow> action_conn a < n \<and> (\<forall>c. a \<noteq> CloseConn c)"

lemma hooks_act_mono: "(\<And>a. P a \<Longrightarrow> Q a) \<Longrightarrow> hooks_act P t w \<Longrightarrow> hooks_act Q t w"
  unfolding hooks_act_def hook_acts_def by (metis list.pred_mono_strong)

lemma closes_none_existing: "hooks_act (closes_none n) t w \<Longrightarrow> hooks_act (existing n) t w"
  by (rule hooks_act_mono) (simp_all add: closes_none_def existing_def)

lemma run_hook_effect:
  assumes "mock_ok w" and "hook_acts P hook" and "\<And>a. P a \<Longrightarrow> existing (length (conns w)) a"
    and "hook_result r hook x (hooks w) = (res, acts, h)"
  shows "\<exists>w'. run_hook r hook x w = Return (res, w') \<and> changed (closes acts) w w' \<and> hooks w' = h \<and>
    closes acts \<subseteq> {c. P (CloseConn c)}"
proof -
  have acts: "list_all P acts"
    using assms(2,4) unfolding hook_acts_def by (metis fst_conv snd_conv)
  have "hook_acts (\<lambda>a. action_conn a < length (conns w)) hook"
    using assms(2,3) unfolding hook_acts_def existing_def by (metis list.pred_mono_strong)
  from run_hook_changed [OF assms(1) this assms(4)] acts show ?thesis
    by (auto simp: closes_def list_all_iff)
qed

text \<open>A send that passes all checks and hooks comes to the channel with the hooks' actions done;
  any other send returns, and changes at most what its hooks change.\<close>

lemma mock_Send_reaches:
  assumes "mock_ok w" and "d < length (conns w)" and "hooks_act (existing (length (conns w))) t w"
    and "passes_checks (conns w ! d)" and "passes_hooks t msg (hooks w)"
  shows "\<exists>w1. changed (closes (send_actions t msg (hooks w))) w w1 \<and>
    MockConnection_Send ctx t msg d w = send_select ctx msg d w1"
proof -
  obtain a1 h1 where 1: "hook_result None (onSend t) msg (hooks w) = (None, a1, h1)"
    using assms(5) by (cases "hook_result None (onSend t) msg (hooks w)") (auto simp: passes_hooks_def)
  obtain a2 h2 where 2: "hook_result False (messageDropper t) msg h1 = (False, a2, h2)"
    using assms(5) 1 by (cases "hook_result False (messageDropper t) msg h1") (auto simp: passes_hooks_def)
  obtain w1 where w1: "run_hook None (onSend t) msg w = Return (None, w1)" "changed (closes a1) w w1" "hooks w1 = h1"
    using run_hook_effect [OF assms(1) _ _ 1] assms(3) by (auto simp: hooks_act_def)
  obtain w2 where w2: "run_hook False (messageDropper t) msg w1 = Return (False, w2)" "changed (closes a2) w1 w2"
    using run_hook_effect [OF changed_ok [OF w1(2) assms(1)], of "existing (length (conns w))",
        OF _ _ 2 [folded w1(3)]] assms(3) changed_length [OF w1(2)]
    by (auto simp: hooks_act_def)
  have "changed (closes (a1 @ a2)) w w2"
    using changed_trans [OF w1(2) w2(2)] by simp
  moreover have "changed {} w2 (count_send d w2)"
    using changed_length [OF w1(2)] changed_length [OF w2(2)] assms(2) by simp
  ultimately have "changed (closes (a1 @ a2)) w (count_send d w2)"
    using changed_trans by fastforce
  moreover have "MockConnection_Send ctx t msg d w = send_select ctx msg d (count_send d w2)"
    using assms(4) w1(1) w2(1) by (auto simp: MockConnection_Send_def passes_checks_def
        run_error_hook_def run_dropper_def Let_def)
  ultimately show ?thesis
    using 1 2 by (auto simp: send_actions_def)
qed

lemma mock_Send_checked:
  assumes "mock_ok w" and "d < length (conns w)" and "hooks_act P t w"
    and "\<And>a. P a \<Longrightarrow> existing (length (conns w)) a" and "\<not> passes_checks (conns w ! d)"
  shows "\<exists>r w1 S. MockConnection_Send ctx t msg d w = Return (r, w1) \<and> changed S w w1 \<and>
    S \<subseteq> {c. P (CloseConn c)}"
proof (cases "\<not> closed (conns w ! d) \<and> conn_onSend (conns w ! d) \<noteq> None")
  case True
  obtain e a h where r: "hook_result None (conn_onSend (conns w ! d)) msg (hooks w) = (e, a, h)"
    by (metis prod_cases3)
  have "hook_acts P (conn_onSend (conns w ! d))"
    using assms(2,3) by (simp add: hooks_act_def)
  from run_hook_effect [OF assms(1) this assms(4) r] True show ?thesis
    by (auto simp: MockConnection_Send_def run_error_hook_def Let_def)
next
  case False
  then have "\<exists>r w1. MockConnection_Send ctx t msg d w = Return (r, w1) \<and> changed {} w w1"
    using assms(2,5) by (auto simp: MockConnection_Send_def passes_checks_def Let_def)
  then show ?thesis by blast
qed

lemma mock_Send_hooked:
  assumes "mock_ok w" and "d < length (conns w)" and "hooks_act P t w"
    and "\<And>a. P a \<Longrightarrow> existing (length (conns w)) a"
    and "passes_checks (conns w ! d)" and "\<not> passes_hooks t msg (hooks w)"
  shows "\<exists>r w1 S. MockConnection_Send ctx t msg d w = Return (r, w1) \<and> changed S w w1 \<and>
    S \<subseteq> {c. P (CloseConn c)}"
proof -
  obtain e a1 h1 where 1: "hook_result None (onSend t) msg (hooks w) = (e, a1, h1)"
    by (metis prod_cases3)
  have P: "hook_acts P (onSend t)" "hook_acts P (messageDropper t)"
    using assms(3) by (simp_all add: hooks_act_def)
  obtain w1 where w1: "run_hook None (onSend t) msg w = Return (e, w1)" "changed (closes a1) w w1"
      "hooks w1 = h1" "closes a1 \<subseteq> {c. P (CloseConn c)}"
    using run_hook_effect [OF assms(1) P(1) assms(4) 1] by blast
  have count: "changed S w (count_send d w')" if "changed S w w'" for S w'
    using changed_trans [OF that, of "{}" "count_send d w'"] changed_length [OF that] assms(2) by simp
  note send = MockConnection_Send_def passes_checks_def run_error_hook_def run_dropper_def Let_def
  show ?thesis
  proof (cases e)
    case (Some e')
    then have "MockConnection_Send ctx t msg d w = Return (Some (Some (HookError e')), count_send d w1)"
      using assms(5) w1(1) by (auto simp: send)
    then show ?thesis
      using count [OF w1(2)] w1(4) by blast
  next
    case None
    obtain a2 h2 where 2: "hook_result False (messageDropper t) msg h1 = (True, a2, h2)"
      using assms(6) 1 None by (cases "hook_result False (messageDropper t) msg h1")
        (auto simp: passes_hooks_def)
    have "P a \<Longrightarrow> existing (length (conns w1)) a" for a
      using assms(4) changed_length [OF w1(2)] by simp
    from run_hook_effect [OF changed_ok [OF w1(2) assms(1)] P(2) this 2 [folded w1(3)]]
    obtain w2 where w2: "run_hook False (messageDropper t) msg w1 = Return (True, w2)"
        "changed (closes a2) w1 w2" "closes a2 \<subseteq> {c. P (CloseConn c)}"
      by blast
    have "MockConnection_Send ctx t msg d w = Return (Some None, count_send d w2)"
      using assms(5) w1(1) w2(1) None by (auto simp: send)
    then show ?thesis
      using count [OF changed_trans [OF w1(2) w2(2)]] w1(4) w2(3) by blast
  qed
qed

lemma mock_Send_refused:
  assumes "mock_ok w" and "d < length (conns w)" and "hooks_act P t w"
    and "\<And>a. P a \<Longrightarrow> existing (length (conns w)) a"
    and "\<not> (passes_checks (conns w ! d) \<and> passes_hooks t msg (hooks w))"
  shows "\<exists>r w1 S. MockConnection_Send ctx t msg d w = Return (r, w1) \<and> changed S w w1 \<and>
    S \<subseteq> {c. P (CloseConn c)}"
  using mock_Send_checked [OF assms(1-4)] mock_Send_hooked [OF assms(1-4)] assms(5) by blast

lemma mock_Send_panics:
  assumes "mock_ok w" and "d < length (conns w)" and "hooks_act (existing (length (conns w))) t w"
  shows "MockConnection_Send ctx t msg d w = Panic p \<longleftrightarrow>
    p = SendOnClosedChannel \<and> ctx \<noteq> DoneFirst \<and> passes_checks (conns w ! d) \<and>
    passes_hooks t msg (hooks w) \<and> CloseConn d \<in> set (send_actions t msg (hooks w))"
proof (cases "passes_checks (conns w ! d) \<and> passes_hooks t msg (hooks w)")
  case True
  then obtain w1 where w1: "changed (closes (send_actions t msg (hooks w))) w w1"
    "MockConnection_Send ctx t msg d w = send_select ctx msg d w1"
    using mock_Send_reaches [OF assms] by blast
  have "\<not> chan_closed (conns w ! d)"
    using True assms(1,2) by (simp add: passes_checks_def mock_ok_nth conn_ok_def)
  then have "chan_closed (conns w1 ! d) \<longleftrightarrow> CloseConn d \<in> set (send_actions t msg (hooks w))"
    using w1(1) assms(2) by (simp add: changed_def closes_def)
  then show ?thesis
    using True by (auto simp: w1(2) send_select_def)
next
  case False
  then show ?thesis
    using mock_Send_refused [OF assms(1-3) _ False, of ctx] by auto
qed

lemma send_actions_closes_none: "hooks_act (closes_none n) t w \<Longrightarrow> CloseConn d \<notin> set (send_actions t msg h)"
  unfolding hooks_act_def hook_acts_def send_actions_def
  by (auto simp: list_all_iff closes_none_def split: prod.split) (metis fst_conv snd_conv)+

section \<open>Order of delivery\<close>

definition mock_inv :: "('m, 'h) MockTransport \<Rightarrow> nat \<Rightarrow> nat \<Rightarrow> ('m, 'h) mock_store \<Rightarrow> bool" where
  "mock_inv t n c w \<longleftrightarrow> mock_ok w \<and> length (conns w) = n \<and> c < n \<and> hooks_act (closes_none n) t w"

lemma changed_inv:
  "changed S w w' \<Longrightarrow> mock_inv t n c w \<Longrightarrow> mock_inv t n c w' \<and> messages (conns w' ! c) = messages (conns w ! c)"
  using changed_ok [of S w w'] changed_hooks_act [of S w w' "closes_none n" t] changed_length [of S w w']
  by (simp add: mock_inv_def) (simp add: changed_def)

lemma set_messages_inv:
  assumes "mock_inv t n c w" and "d < n" and "length ms \<le> channel_size"
  shows "mock_inv t n c (upd_conn d (\<lambda>C. C\<lparr>messages := ms\<rparr>) w)"
  using assms by (auto simp: mock_inv_def mock_ok_nth hooks_act_def upd_conn_nth conn_ok_def)

lemma Send_step:
  assumes "mock_inv t n c w" and "d < n"
  shows "\<exists>ev w'. mock_step t (OpSend ctx msg d) w = Return (ev, w') \<and> mock_inv t n c w' \<and>
    received_on c ev @ messages (conns w' ! c) = messages (conns w ! c) @ sent_on c ev"
proof -
  have w: "mock_ok w" "d < length (conns w)" "hooks_act (closes_none (length (conns w))) t w"
    using assms by (auto simp: mock_inv_def)
  show ?thesis
  proof (cases "passes_checks (conns w ! d) \<and> passes_hooks t msg (hooks w)")
    case False
    then have "\<not> enqueues ctx t msg d w"
      by (auto simp: enqueues_def)
    moreover obtain r w1 S where "MockConnection_Send ctx t msg d w = Return (r, w1)" "changed S w w1"
      using mock_Send_refused [OF w _ False, of ctx] by (auto simp: closes_none_def existing_def)
    ultimately show ?thesis
      using changed_inv [OF _ assms(1)] by simp
  next
    case True
    then obtain w1 where w1: "changed (closes (send_actions t msg (hooks w))) w w1"
      "MockConnection_Send ctx t msg d w = send_select ctx msg d w1"
      using mock_Send_reaches [OF w(1,2) closes_none_existing [OF w(3)]] by blast
    have d: "d < length (conns w1)" "messages (conns w1 ! d) = messages (conns w ! d)"
      using w1(1) w(2) by (simp_all add: changed_def)
    have open_: "\<not> chan_closed (conns w1 ! d)"
      using w1(1) w True send_actions_closes_none [OF w(3), of d msg]
      by (simp add: changed_def closes_def passes_checks_def mock_ok_nth conn_ok_def)
    note inv = changed_inv [OF w1(1) assms(1)]
    let ?ms = "messages (conns w1 ! d) @ [msg]"
    have push: "upd_conn d (\<lambda>C. C\<lparr>messages := messages C @ [msg]\<rparr>) w1 =
        upd_conn d (\<lambda>C. C\<lparr>messages := ?ms\<rparr>) w1"
      by (simp add: upd_conn_def)
    show ?thesis
    proof (cases "enqueues ctx t msg d w")
      case enq: True
      then have "MockConnection_Send ctx t msg d w =
          Return (Some None, upd_conn d (\<lambda>C. C\<lparr>messages := ?ms\<rparr>) w1)"
        using d open_ push by (simp add: w1(2) send_select_def enqueues_def)
      moreover have "mock_inv t n c (upd_conn d (\<lambda>C. C\<lparr>messages := ?ms\<rparr>) w1)"
        using enq d inv assms(2) by (intro set_messages_inv) (auto simp: enqueues_def)
      ultimately show ?thesis
        using enq d inv by (simp add: upd_conn_nth)
    next
      case False
      then have "\<exists>r. MockConnection_Send ctx t msg d w = Return (r, w1)"
        using True d open_ by (auto simp: w1(2) send_select_def enqueues_def)
      with False inv show ?thesis by auto
    qed
  qed
qed

lemma run_recv_hook_effect:
  assumes "mock_inv t n c w" and "hook_acts (closes_none n) hook"
  shows "\<exists>w' S. run_recv_hook msg hook w = Return w' \<and> changed S w w'"
proof -
  obtain r a h where r: "hook_result () hook msg (hooks w) = (r, a, h)"
    by (metis prod_cases3)
  have "mock_ok w" "closes_none n a' \<Longrightarrow> existing (length (conns w)) a'" for a'
    using assms(1) by (simp_all add: mock_inv_def closes_none_def existing_def)
  from run_hook_effect [OF this(1) assms(2) this(2) r] show ?thesis
    by (auto simp: run_recv_hook_def)
qed

lemma deliver_effect:
  assumes "mock_inv t n c w" and "d < n"
  shows "\<exists>w'. deliver t m d w = Return (Some (Inr m), w') \<and> mock_inv t n c w' \<and>
    messages (conns w' ! c) = messages (conns w ! c)"
proof -
  have "changed {} w (count_recv d w)"
    using assms by (simp add: mock_inv_def)
  note inv0 = changed_inv [OF this assms(1)]
  obtain w1 S where w1: "run_recv_hook m (onRecv t) (count_recv d w) = Return w1" "changed S (count_recv d w) w1"
    using run_recv_hook_effect [OF conjunct1 [OF inv0], of "onRecv t" m] assms(1)
    by (auto simp: mock_inv_def hooks_act_def)
  note inv1 = changed_inv [OF w1(2) conjunct1 [OF inv0]]
  obtain w2 T where w2: "run_recv_hook m (conn_onRecv (conns w1 ! d)) w1 = Return w2" "changed T w1 w2"
    using run_recv_hook_effect [OF conjunct1 [OF inv1], of "conn_onRecv (conns w1 ! d)" m] inv1 assms(2)
    by (auto simp: mock_inv_def hooks_act_def)
  show ?thesis
    using w1(1) w2(1) inv0 inv1 changed_inv [OF w2(2) conjunct1 [OF inv1]] by (simp add: deliver_def)
qed

lemma Recv_step:
  assumes "mock_inv t n c w" and "d < n"
  shows "\<exists>ev w'. mock_step t (OpRecv ctx d) w = Return (ev, w') \<and> mock_inv t n c w' \<and>
    received_on c ev @ messages (conns w' ! c) = messages (conns w ! c) @ sent_on c ev"
proof (cases "closed (conns w ! d) \<or> willFailRecv (conns w ! d) \<or> ctx = DoneFirst \<or> messages (conns w ! d) = []")
  case True
  have d: "d < length (conns w)" "conn_ok (conns w ! d)"
    using assms by (auto simp: mock_inv_def mock_ok_nth)
  then have "changed {} w (count_recv d w)" by simp
  note inv = changed_inv [OF this assms(1)]
  from True d show ?thesis
    using assms(1) inv by (auto simp: MockConnection_Recv_def recv_select_def conn_ok_def)
next
  case False
  then obtain m ms where m: "messages (conns w ! d) = m # ms"
    by (cases "messages (conns w ! d)") auto
  let ?w = "upd_conn d (\<lambda>C. C\<lparr>messages := ms\<rparr>) w"
  have d: "d < length (conns w)" "conn_ok (conns w ! d)"
    using assms by (auto simp: mock_inv_def mock_ok_nth)
  then have "mock_inv t n c ?w"
    using set_messages_inv [OF assms, of ms] m by (simp add: conn_ok_def)
  from deliver_effect [OF this assms(2), of m] show ?thesis
    using False m d by (auto simp: MockConnection_Recv_def recv_select_def upd_conn_nth)
qed

lemma Other_step:
  assumes "mock_inv t n c w" and "op_conn op < n"
    and "case op of OpSend _ _ _ \<Rightarrow> False | OpRecv _ _ \<Rightarrow> False | _ \<Rightarrow> True"
  shows "\<exists>ev w'. mock_step t op w = Return (ev, w') \<and> mock_inv t n c w' \<and>
    received_on c ev @ messages (conns w' ! c) = messages (conns w ! c) @ sent_on c ev"
proof -
  have "mock_ok w" "op_conn op < length (conns w)"
    using assms by (auto simp: mock_inv_def)
  then have "\<exists>w' S. mock_step t op w = Return (Other, w') \<and> changed S w w'"
    using assms(3) run_action_changed [of w "CloseConn (op_conn op)"]
      run_action_changed [of w "FailSendConn _ (op_conn op)"]
      run_action_changed [of w "FailRecvConn _ (op_conn op)"]
    by (cases op) (fastforce simp del: mock_step.simps(1,2))+
  then show ?thesis
    using changed_inv [OF _ assms(1)] by fastforce
qed

interpretation mock: ordered_channel "mock_step t" "mock_inv t n c" "\<lambda>op. op_conn op < n"
  "\<lambda>w. messages (conns w ! c)" "sent_on c" "received_on c" for t n c
proof
  fix w :: "('a, 'b) mock_store" and op :: "'a mock_op"
  assume *: "mock_inv t n c w" "op_conn op < n"
  then show "\<exists>ev w'. mock_step t op w = Return (ev, w') \<and> mock_inv t n c w' \<and>
      received_on c ev @ messages (conns w' ! c) = messages (conns w ! c) @ sent_on c ev"
    using Send_step [OF *(1)] Recv_step [OF *(1)] Other_step [OF *]
    by (cases op) (simp_all del: mock_step.simps)
qed

section \<open>Properties\<close>

text \<open>C31. Sends on the mock, with hooks that keep a state, return errors, drop messages, close
  connections and turn failure switches.  A send panics exactly when the message passes every
  check and hook on its way, the context has not ended first, and the transport's send hook or
  dropper closes the very connection meanwhile.  When the hooks close no connection, no call
  panics in any sequence of sends, receives, closes and switch changes, and the messages received
  on a connection followed by those left in its channel are those in it before followed by those
  sends have put there.  (\<open>PeekMessage\<close>, which reorders the channel, is not among these calls.)\<close>

theorem mock_fifo:
  assumes "mock_ok w" and "c < length (conns w)"
    and "hooks_act (existing (length (conns w))) t w"
  shows "(MockConnection_Send ctx t msg c w = Panic p \<longleftrightarrow>
           p = SendOnClosedChannel \<and> ctx \<noteq> DoneFirst \<and> passes_checks (conns w ! c) \<and>
           passes_hooks t msg (hooks w) \<and> CloseConn c \<in> set (send_actions t msg (hooks w))) \<and>
    (hooks_act (closes_none (length (conns w))) t w \<and> list_all (\<lambda>op. op_conn op < length (conns w)) ops \<longrightarrow>
      (\<exists>evs w'. run_steps (mock_step t) ops w = Return (evs, w') \<and> mock_ok w' \<and>
        concat (map (received_on c) evs) @ messages (conns w' ! c) =
        messages (conns w ! c) @ concat (map (sent_on c) evs)))"
  using mock_Send_panics [OF assms] mock.run_order [of t "length (conns w)" c w ops] assms
  by (auto simp: mock_inv_def list_all_iff)

definition demo_mock :: "(nat, unit) mock_store" where
  "demo_mock = \<lparr>conns = [new_MockConnection ''m'' ''s''], lstns = [], hooks = ()\<rparr>"

text \<open>A send hook that closes connection 0.\<close>

definition closing_hook :: "(nat, unit) error_hook" where
  "closing_hook msg h = (None, [CloseConn 0], h)"

theorem mock_fifo_witness:
  "(\<exists>evs w'. run_steps (mock_step (NewMockTransport DefaultConfig))
      [OpSend Live (Some 1) 0, OpFailSend True 0, OpSend Live (Some 2) 0, OpRecv Live 0] demo_mock =
      Return (evs, w') \<and> concat (map (received_on 0) evs) @ messages (conns w' ! 0) =
      concat (map (sent_on 0) evs)) \<and>
   MockConnection_Send Live (MockTransport_SetOnSend (Some closing_hook) (NewMockTransport DefaultConfig))
     (Some 1) 0 demo_mock = Panic SendOnClosedChannel"
proof -
  let ?t = "NewMockTransport DefaultConfig :: (nat, unit) MockTransport"
  let ?u = "MockTransport_SetOnSend (Some closing_hook) ?t"
  have ok: "mock_ok demo_mock" "length (conns demo_mock) = 1" "messages (conns demo_mock ! 0) = []"
    by (simp_all add: demo_mock_def mock_ok_def conn_ok_def new_MockConnection_def)
  have quiet: "hooks_act P ?t demo_mock" for P
    by (simp add: hooks_act_def NewMockTransport_def demo_mock_def new_MockConnection_def)
  have "hooks_act (existing 1) ?u demo_mock"
    by (simp add: hooks_act_def NewMockTransport_def demo_mock_def new_MockConnection_def
        MockTransport_SetOnSend_def hook_acts_def hook_result_def closing_hook_def existing_def)
  then have "MockConnection_Send Live ?u (Some 1) 0 demo_mock = Panic SendOnClosedChannel"
    using mock_fifo [of demo_mock 0 ?u Live "Some 1" SendOnClosedChannel] ok
    by (simp add: passes_checks_def passes_hooks_def send_actions_def hook_result_def closing_hook_def
        MockTransport_SetOnSend_def NewMockTransport_def demo_mock_def new_MockConnection_def)
  then show ?thesis
    using mock_fifo [of demo_mock 0 ?t Live None NilDereference "[OpSend Live (Some 1) 0,
      OpFailSend True 0, OpSend Live (Some 2) 0, OpRecv Live 0]"] ok quiet
    by (auto simp del: run_steps.simps mock_step.simps)
qed

text \<open>Peeking is not neutral: on an open connection it returns the next message and moves it
  behind the others, so the order is kept only when all queued messages are the same; on a closed
  connection it panics.\<close>

lemma mock_peek_rotates:
  assumes "mock_ok w" and "c < length (conns w)"
  shows "if closed (conns w ! c) then PeekMessage c w = Panic SendOnClosedChannel
    else \<exists>w'. PeekMessage c w =
        Return (case messages (conns w ! c) of [] \<Rightarrow> None | m # _ \<Rightarrow> m, w') \<and>
      messages (conns w' ! c) = rotate1 (messages (conns w ! c)) \<and>
      (messages (conns w' ! c) = messages (conns w ! c) \<longleftrightarrow>
        (\<forall>x \<in> set (messages (conns w ! c)). x = hd (messages (conns w ! c))))"
proof -
  have rot: "ms @ [m] = m # ms \<longleftrightarrow> (\<forall>x \<in> set ms. x = m)" for m :: "'a option" and ms
    by (induction ms) auto
  have "conn_ok (conns w ! c)"
    using assms by (simp add: mock_ok_nth)
  with rot assms(2) show ?thesis
    by (auto simp: PeekMessage_def conn_ok_def upd_conn_nth split: list.splits)
qed

end
