(* ===== verification/Tcp_Wire.thy ===== *)
theory Tcp_Wire
  imports Transport_Core
begin

text \<open>
  The wire format of transport/tcp.go: fixed-width big-endian numbers, the sequential format of
  one message, and reading it back.  Reading follows the code's offset; an index past the end
  of the data and a slice that leaves it are panics, as they are in Go (the data is a buffer
  that \<open>make\<close> allocated to size, so its capacity is its length).
\<close>

section \<open>Big-endian numbers\<close>

definition PutUint32 :: "uint32 \<Rightarrow> byte list" where
  "PutUint32 v = [ucast (drop_bit 24 v), ucast (drop_bit 16 v), ucast (drop_bit 8 v), ucast v]"

definition PutUint64 :: "uint64 \<Rightarrow> byte list" where
  "PutUint64 v =
     [ucast (drop_bit 56 v), ucast (drop_bit 48 v), ucast (drop_bit 40 v), ucast (drop_bit 32 v),
      ucast (drop_bit 24 v), ucast (drop_bit 16 v), ucast (drop_bit 8 v), ucast v]"

fun be_value :: "byte list \<Rightarrow> 'a::len word \<Rightarrow> 'a word" where
  "be_value [] acc = acc"
| "be_value (b # bs) acc = be_value bs (or (push_bit 8 acc) (ucast b))"

definition Uint32 :: "byte list \<Rightarrow> uint32" where
  "Uint32 bs = be_value (take 4 bs) 0"

definition Uint64 :: "byte list \<Rightarrow> uint64" where
  "Uint64 bs = be_value (take 8 bs) 0"

lemma length_Put [simp]: "length (PutUint32 v) = 4" "length (PutUint64 w) = 8"
  by (simp_all add: PutUint32_def PutUint64_def)

lemma be_step:
  fixes v :: "'a::len word"
  shows "or (push_bit 8 (drop_bit (k + 8) v)) (ucast (ucast (drop_bit k v) :: byte)) = drop_bit k v"
  by (rule bit_word_eqI) (auto simp: bit_simps not_less add.assoc)

lemma drop_bit_all:
  fixes v :: "'a::len word"
  shows "drop_bit LENGTH('a) v = 0"
  by (rule bit_word_eqI) (simp add: bit_simps)

lemma Uint32_Put [simp]: "Uint32 (PutUint32 v) = v"
  using be_step [of 24 v] be_step [of 16 v] be_step [of 8 v] be_step [of 0 v] drop_bit_all [of v]
  by (simp add: Uint32_def PutUint32_def)

lemma Uint64_Put [simp]: "Uint64 (PutUint64 v) = v"
  using be_step [of 56 v] be_step [of 48 v] be_step [of 40 v] be_step [of 32 v]
    be_step [of 24 v] be_step [of 16 v] be_step [of 8 v] be_step [of 0 v] drop_bit_all [of v]
  by (simp add: Uint64_def PutUint64_def)

section \<open>Serialisation\<close>

text \<open>
  \<open>byte(len(s))\<close> keeps the low eight bits of a length and \<open>uint32(len(b))\<close> the low 32.
  The message is a pointer; serialising nil dereferences it.
\<close>

definition serialize_fields :: "TMessage \<Rightarrow> byte list" where
  "serialize_fields msg =
     [of_nat (length (From msg))] @ string_bytes (From msg) @
     [of_nat (length (To msg))] @ string_bytes (To msg) @
     PutUint64 (Seq msg) @
     PutUint32 (of_nat (blen (Body msg))) @ the_bytes (Body msg) @
     PutUint32 (of_nat (blen (VectorClockData msg))) @ the_bytes (VectorClockData msg)"

definition serializeMessage :: "TMessage option \<Rightarrow> byte list go" where
  "serializeMessage msg =
     (case msg of None \<Rightarrow> Panic NilDereference | Some m \<Rightarrow> Return (serialize_fields m))"

section \<open>Deserialisation\<close>

datatype wire_error =
    DataTooShort
  | InvalidFromLength
  | InvalidToLength
  | InvalidSeq
  | InvalidBodyLength
  | InvalidBodyData
  | InvalidVectorClockLength
  | InvalidVectorClockData

definition deserialize_tail :: "byte list \<Rightarrow> string \<Rightarrow> string \<Rightarrow> nat \<Rightarrow> (wire_error + TMessage) go"
  where
  "deserialize_tail data from to offset =
     (if offset + 8 > length data then Return (Inl InvalidSeq)
      else go_bind (go_slice data offset (offset + 8)) (\<lambda>b.
        let seq = Uint64 b; offset = offset + 8 in
      if offset + 4 > length data then Return (Inl InvalidBodyLength)
      else go_bind (go_slice data offset (offset + 4)) (\<lambda>b.
        let bodyLen = unat (Uint32 b); offset = offset + 4 in
      if offset + bodyLen > length data then Return (Inl InvalidBodyData)
      else go_bind (go_slice data offset (offset + bodyLen)) (\<lambda>body.
        let offset = offset + bodyLen in
      if offset + 4 > length data then Return (Inl InvalidVectorClockLength)
      else go_bind (go_slice data offset (offset + 4)) (\<lambda>b.
        let vcLen = unat (Uint32 b); offset = offset + 4 in
      if offset + vcLen > length data then Return (Inl InvalidVectorClockData)
      else go_bind (go_slice data offset (offset + vcLen)) (\<lambda>vc.
        Return (Inr \<lparr>From = from, To = to, Seq = seq, Body = Some body, TTimestamp = zero_time,
                     VectorClockData = Some vc, TMetadata = None\<rparr>)))))))"

definition deserializeMessage :: "byte list \<Rightarrow> (wire_error + TMessage) go" where
  "deserializeMessage data =
     (if length data < 19 then Return (Inl DataTooShort)
      else let offset = 0 in
      go_bind (go_index data offset) (\<lambda>b. let fromLen = unat b; offset = offset + 1 in
      if offset + fromLen > length data then Return (Inl InvalidFromLength)
      else go_bind (go_slice data offset (offset + fromLen)) (\<lambda>from.
        let offset = offset + fromLen in
      go_bind (go_index data offset) (\<lambda>b. let toLen = unat b; offset = offset + 1 in
      if offset + toLen > length data then Return (Inl InvalidToLength)
      else go_bind (go_slice data offset (offset + toLen)) (\<lambda>to.
        deserialize_tail data (bytes_string from) (bytes_string to) (offset + toLen))))))"

text \<open>What of a message crosses the wire: no time stamp, no metadata, and no nil slices.\<close>

definition wire_view :: "TMessage \<Rightarrow> TMessage" where
  "wire_view m =
     \<lparr>From = From m, To = To m, Seq = Seq m, Body = Some (the_bytes (Body m)),
      TTimestamp = zero_time, VectorClockData = Some (the_bytes (VectorClockData m)),
      TMetadata = None\<rparr>"

definition wire_ok :: "TMessage \<Rightarrow> bool" where
  "wire_ok m \<longleftrightarrow>
     length (From m) < 256 \<and> length (To m) < 256 \<and>
     blen (Body m) < 2 ^ 32 \<and> blen (VectorClockData m) < 2 ^ 32 \<and>
     (From m \<noteq> [] \<or> To m \<noteq> [] \<or> blen (Body m) \<noteq> 0 \<or> blen (VectorClockData m) \<noteq> 0)"

section \<open>Shared lemmas\<close>

lemma length_serialize_fields [simp]:
  "length (serialize_fields m) =
     18 + length (From m) + length (To m) + blen (Body m) + blen (VectorClockData m)"
  by (simp add: serialize_fields_def)

text \<open>The part after the names reads back what was written, whatever precedes and follows it.\<close>

lemma deserialize_tail_serialized:
  fixes pre post :: "byte list"
  assumes body: "length body < 2 ^ 32" and vc: "length vc < 2 ^ 32"
    and d: "d = pre @ PutUint64 s @ PutUint32 (of_nat (length body)) @ body @
                PutUint32 (of_nat (length vc)) @ vc @ post"
  shows "deserialize_tail d from to (length pre) =
    Return (Inr \<lparr>From = from, To = to, Seq = s, Body = Some body, TTimestamp = zero_time,
         VectorClockData = Some vc, TMetadata = None\<rparr>)"
proof -
  let ?n = "length pre"
  have slices: "go_slice d ?n (?n + 8) = Return (PutUint64 s)"
    "go_slice d (?n + 8) (?n + 12) = Return (PutUint32 (of_nat (length body)))"
    "go_slice d (?n + 12) (?n + 12 + length body) = Return body"
    "go_slice d (?n + 12 + length body) (?n + 16 + length body) =
       Return (PutUint32 (of_nat (length vc)))"
    "go_slice d (?n + 16 + length body) (?n + 16 + length body + length vc) = Return vc"
    unfolding d by simp_all
  have len: "length d = ?n + 16 + length body + length vc + length post"
    unfolding d by simp
  have un: "unat (of_nat (length body) :: uint32) = length body"
    "unat (of_nat (length vc) :: uint32) = length vc"
    using body vc by (simp_all add: unat_of_nat)
  show ?thesis
    using slices len un
    by (simp add: deserialize_tail_def Let_def ac_simps
        del: go_slice_Return_iff go_bind_Return_iff)
qed

lemma deserialize_serialized:
  assumes "wire_ok m" and d: "d = serialize_fields m @ post"
  shows "deserializeMessage d = Return (Inr (wire_view m))"
proof -
  let ?from = "string_bytes (From m)" and ?to = "string_bytes (To m)"
  have ok: "length (From m) < 256" "length (To m) < 256"
      "blen (Body m) < 2 ^ 32" "blen (VectorClockData m) < 2 ^ 32" "\<not> length d < 19"
    using assms by (auto simp: wire_ok_def neq_Nil_conv)
  have len: "\<not> length d < Suc (Suc (length (From m) + length (To m)))"
      "\<not> length d < Suc (length (From m))"
    using d by simp_all
  have un: "unat (of_nat (length (From m)) :: byte) = length (From m)"
      "unat (of_nat (length (To m)) :: byte) = length (To m)"
    using ok by (simp_all add: unat_of_nat)
  let ?pre = "[of_nat (length (From m))] @ ?from @ [of_nat (length (To m))] @ ?to"
  have "deserialize_tail d (From m) (To m) (length ?pre) = Return (Inr (wire_view m))"
    unfolding wire_view_def
    by (rule deserialize_tail_serialized [where post = post])
      (use ok d in \<open>simp_all add: serialize_fields_def\<close>)
  moreover have "go_slice d 1 (Suc (length (From m))) = Return ?from"
      "go_slice d (Suc (Suc (length (From m)))) (Suc (Suc (length (From m) + length (To m)))) =
         Return ?to"
      "go_index d 0 = Return (of_nat (length (From m)))"
      "go_index d (Suc (length (From m))) = Return (of_nat (length (To m)))"
    unfolding d by (simp_all add: serialize_fields_def nth_append)
  ultimately show ?thesis
    using ok un len
    by (simp add: deserializeMessage_def Let_def
        del: go_slice_Return_iff go_index_Return_iff go_bind_Return_iff)
qed

lemma unat_bounds: "unat (b :: byte) < 256" "unat (v :: uint32) < 2 ^ 32"
  using unsigned_less [of b, where 'a = nat] unsigned_less [of v, where 'a = nat] by simp_all

lemma deserialize_tail_bounds:
  assumes "deserialize_tail d from to i = Return (Inr m)"
  shows "From m = from \<and> To m = to \<and> blen (Body m) < 2 ^ 32 \<and> blen (VectorClockData m) < 2 ^ 32"
  using assms unat_bounds(2)
  by (auto simp: deserialize_tail_def Let_def min_less_iff_disj split: if_splits)

lemma deserialize_tail_returns: "deserialize_tail d from to i \<noteq> Panic p"
  by (auto simp: deserialize_tail_def Let_def go_bind_Panic_iff)

lemma deserialize_bounds:
  assumes "deserializeMessage d = Return (Inr m)"
  shows "19 \<le> length d \<and> length (From m) < 256 \<and> length (To m) < 256 \<and>
    blen (Body m) < 2 ^ 32 \<and> blen (VectorClockData m) < 2 ^ 32"
  using assms unat_bounds(1)
  by (auto simp: deserializeMessage_def Let_def min_less_iff_disj
      dest!: deserialize_tail_bounds split: if_splits)

section \<open>Properties\<close>

text \<open>C13. Exactly which messages survive the wire: deserialising the serialised form of a
  message gives its names, sequence number, body and clock data back if and only if both names
  are shorter than 256 bytes, body and clock data are shorter than 4 GiB, and not all four are
  empty.  (The time stamp and the metadata are never transmitted.)\<close>

theorem wire_roundtrip:
  "deserializeMessage (serialize_fields m) = Return (Inr (wire_view m)) \<longleftrightarrow> wire_ok m"
proof
  assume *: "deserializeMessage (serialize_fields m) = Return (Inr (wire_view m))"
  have "0 < length (From m) + length (To m) + blen (Body m) + blen (VectorClockData m)"
    using deserialize_bounds [OF *] by (auto simp del: add_gr_0)
  then show "wire_ok m"
    using deserialize_bounds [OF *] by (auto simp: wire_ok_def wire_view_def)
next
  assume "wire_ok m"
  then show "deserializeMessage (serialize_fields m) = Return (Inr (wire_view m))"
    by (rule deserialize_serialized [where post = "[]"]) simp
qed

text \<open>C28. Exactly which received data crash the reader: deserialising panics precisely when the
  data is long enough to pass the minimum length check and its first byte, the length of the
  sender name, covers all the rest of it; then the length byte of the receiver name is read past
  the end.  On all other data it returns a message or an error: every slice and every other
  index it takes is in bounds, whatever lengths the data announces.\<close>

theorem deserializeMessage_panics_iff:
  "deserializeMessage d = Panic p \<longleftrightarrow>
     p = IndexOutOfRange \<and> 19 \<le> length d \<and> Suc (unat (d ! 0)) = length d"
proof -
  have "d = [] \<Longrightarrow> ?thesis"
    by (simp add: deserializeMessage_def)
  moreover have "d \<noteq> [] \<Longrightarrow> ?thesis"
    by (auto simp: deserializeMessage_def Let_def go_bind_Panic_iff deserialize_tail_returns)
  ultimately show ?thesis
    by blast
qed

end
