(* ===== verification/Tcp_Transport.thy ===== *)
theory Tcp_Transport
  imports Tcp_Wire
begin

text \<open>
  The TCP transport of transport/tcp.go: sockets and buffered writers as the standard library
  provides them, connections with length-prefixed frames, listeners, and the transport with its
  table of dialled connections.
\<close>

section \<open>Sockets and buffered writers\<close>

text \<open>
  A socket as one end sees it: how many bytes the network still takes before a write fails
  (\<open>None\<close>: it never fails), the bytes handed to the network so far, the bytes that arrive
  and whether the incoming stream ends after them (end of file or a broken connection),
  whether the socket is open on this side, and whether the operating system will report an error
  when it is closed.
\<close>

record socket =
  accepts :: "nat option"
  sent :: "byte list"
  arriving :: "byte list"
  ended :: bool
  sock_open :: bool
  close_fails :: bool

text \<open>A write delivers everything, or a prefix and then fails; the result says whether all of it
  was written.\<close>

definition sock_write :: "byte list \<Rightarrow> socket \<Rightarrow> bool \<times> socket" where
  "sock_write p s =
     (if \<not> sock_open s then (False, s)
      else case accepts s of
        None \<Rightarrow> (True, s\<lparr>sent := sent s @ p\<rparr>)
      | Some k \<Rightarrow>
          if length p \<le> k then (True, s\<lparr>sent := sent s @ p, accepts := Some (k - length p)\<rparr>)
          else (False, s\<lparr>sent := sent s @ take k p, accepts := Some 0\<rparr>))"

text \<open>The state of a \<open>bufio.Writer\<close>: the bytes in its buffer and its sticky error.\<close>

record buf_writer =
  wbuf :: "byte list"
  werr :: bool

definition write_buffer_size :: nat where
  "write_buffer_size = 64 * 1024"

definition bufio_Flush :: "buf_writer \<Rightarrow> socket \<Rightarrow> bool \<times> buf_writer \<times> socket" where
  "bufio_Flush w s =
     (if werr w then (False, w, s)
      else if wbuf w = [] then (True, w, s)
      else case sock_write (wbuf w) s of
        (True, s') \<Rightarrow> (True, w\<lparr>wbuf := []\<rparr>, s')
      | (False, s') \<Rightarrow>
          (False, w\<lparr>wbuf := drop (length (sent s') - length (sent s)) (wbuf w), werr := True\<rparr>, s'))"

lemma bufio_Flush_ok_empty: "bufio_Flush w s = (True, w', s') \<Longrightarrow> wbuf w' = []"
  by (auto simp: bufio_Flush_def split: if_splits prod.splits bool.splits)

text \<open>
  \<open>Write\<close> goes through the buffer; data larger than the free space is written directly when
  the buffer is empty, and otherwise fills the buffer, which is flushed.
\<close>

function bufio_Write :: "byte list \<Rightarrow> buf_writer \<Rightarrow> socket \<Rightarrow> bool \<times> buf_writer \<times> socket" where
  "bufio_Write p w s =
     (if werr w then (False, w, s)
      else if length p \<le> write_buffer_size - length (wbuf w) then
        (True, w\<lparr>wbuf := wbuf w @ p\<rparr>, s)
      else if wbuf w = [] then
        (case sock_write p s of (ok, s') \<Rightarrow> (ok, w\<lparr>werr := \<not> ok\<rparr>, s'))
      else
        let n = write_buffer_size - length (wbuf w) in
        case bufio_Flush (w\<lparr>wbuf := wbuf w @ take n p\<rparr>) s of
          (ok, w', s') \<Rightarrow> if ok then bufio_Write (drop n p) w' s' else (False, w', s'))"
  by pat_completeness auto

termination
  by (relation "measure (\<lambda>(p, w, s). length p + length (wbuf w))")
    (auto dest!: bufio_Flush_ok_empty [OF sym] simp: Let_def neq_Nil_conv)

declare bufio_Write.simps [simp del]

section \<open>Connections\<close>

text \<open>The errors of the TCP transport: the shared ones and those it wraps in place.\<close>

datatype tcp_error =
    Shared transport_error
  | WriteLengthFailed
  | WriteDataFailed
  | FlushFailed
  | ReadLengthFailed
  | ReadDataFailed
  | DeserializeFailed wire_error
  | InvalidTCPAddress
  | ListenFailed
  | TCPDialFailed
  | AcceptFailed
  | SocketAlreadyClosed
  | SocketCloseFailed

record TCPConnection =
  conn :: socket
  writer :: buf_writer
  cclosed :: bool
  cconfig :: TransportConfig
  sendCount :: int64
  recvCount :: int64

definition new_TCPConnection :: "socket \<Rightarrow> TransportConfig \<Rightarrow> TCPConnection" where
  "new_TCPConnection s cfg =
     \<lparr>conn = s, writer = \<lparr>wbuf = [], werr = False\<rparr>, cclosed = False, cconfig = cfg,
      sendCount = 0, recvCount = 0\<rparr>"

text \<open>
  \<open>Close\<close> marks the connection closed and returns what closing the socket returns: the
  error of the operating system when there is one, or the error of the \<open>net\<close> package when the
  socket was closed before.  A second \<open>Close\<close> returns nil.  \<open>Send\<close>, \<open>Recv\<close> and the
  transport's \<open>Close\<close> discard the error (\<open>close_conn\<close>).
\<close>

definition TCPConnection_Close :: "TCPConnection \<Rightarrow> tcp_error option \<times> TCPConnection" where
  "TCPConnection_Close c =
     (if cclosed c then (None, c)
      else (if \<not> sock_open (conn c) then Some SocketAlreadyClosed
            else if close_fails (conn c) then Some SocketCloseFailed
            else None,
            c\<lparr>cclosed := True, conn := (conn c)\<lparr>sock_open := False\<rparr>\<rparr>))"

abbreviation close_conn :: "TCPConnection \<Rightarrow> TCPConnection" where
  "close_conn c \<equiv> snd (TCPConnection_Close c)"

definition too_large :: "TransportConfig \<Rightarrow> nat \<Rightarrow> bool" where
  "too_large cfg n \<longleftrightarrow> MaxMsgSize cfg > 0 \<and> int n > MaxMsgSize cfg"

text \<open>The last part of \<open>Send\<close>: writing the length prefix and the data, and flushing.\<close>

definition send_frame :: "byte list \<Rightarrow> TCPConnection \<Rightarrow> tcp_error option \<times> TCPConnection" where
  "send_frame data c =
     (case bufio_Write (PutUint32 (of_nat (length data))) (writer c) (conn c) of (ok, w, s) \<Rightarrow>
      let c = c\<lparr>writer := w, conn := s\<rparr> in
      if \<not> ok then (Some WriteLengthFailed, close_conn c)
      else case bufio_Write data (writer c) (conn c) of (ok, w, s) \<Rightarrow>
      let c = c\<lparr>writer := w, conn := s\<rparr> in
      if \<not> ok then (Some WriteDataFailed, close_conn c)
      else case bufio_Flush (writer c) (conn c) of (ok, w, s) \<Rightarrow>
      let c = c\<lparr>writer := w, conn := s\<rparr> in
      if \<not> ok then (Some FlushFailed, close_conn c)
      else (None, c\<lparr>sendCount := sendCount c + 1\<rparr>))"

text \<open>\<open>Send\<close> returns nil (\<open>None\<close>) or an error, and the connection afterwards.\<close>

definition TCPConnection_Send ::
    "TMessage option \<Rightarrow> TCPConnection \<Rightarrow> (tcp_error option \<times> TCPConnection) go" where
  "TCPConnection_Send msg c =
     (if cclosed c then Return (Some (Shared ErrConnectionClosed), c)
      else go_map (\<lambda>data.
        if too_large (cconfig c) (length data) then (Some (Shared ErrTransportMessageTooLarge), c)
        else send_frame data c) (serializeMessage msg))"

text \<open>
  \<open>io.ReadFull\<close> on the buffered reader: the first \<open>n\<close> bytes of the stream when they arrive,
  an error when the stream ends or the deadline passes before that, and no result (\<open>None\<close>)
  when nothing ends the wait.  With a failed read the connection is closed by the caller, so the
  bytes consumed by it do not matter.
\<close>

definition ReadFull :: "nat \<Rightarrow> bool \<Rightarrow> socket \<Rightarrow> (byte list option \<times> socket) option" where
  "ReadFull n deadline s =
     (if n \<le> length (arriving s) then
        Some (Some (take n (arriving s)), s\<lparr>arriving := drop n (arriving s)\<rparr>)
      else if ended s \<or> deadline \<or> \<not> sock_open s then Some (None, s\<lparr>arriving := []\<rparr>)
      else None)"

definition TCPConnection_Recv ::
    "TCPConnection \<Rightarrow> ((tcp_error + TMessage) \<times> TCPConnection) go option" where
  "TCPConnection_Recv c =
     (if cclosed c then Some (Return (Inl (Shared ErrConnectionClosed), c))
      else
        let deadline = (ReadTimeout (cconfig c) > 0) in
        case ReadFull 4 deadline (conn c) of
          None \<Rightarrow> None
        | Some (None, s) \<Rightarrow>
            Some (Return (Inl ReadLengthFailed, close_conn (c\<lparr>conn := s\<rparr>)))
        | Some (Some lenBuf, s) \<Rightarrow>
            let c = c\<lparr>conn := s\<rparr>; msgLen = unat (Uint32 lenBuf) in
            if too_large (cconfig c) msgLen then
              Some (Return (Inl (Shared ErrTransportMessageTooLarge), close_conn c))
            else case ReadFull msgLen deadline (conn c) of
              None \<Rightarrow> None
            | Some (None, s) \<Rightarrow>
                Some (Return (Inl ReadDataFailed, close_conn (c\<lparr>conn := s\<rparr>)))
            | Some (Some data, s) \<Rightarrow>
                let c = c\<lparr>conn := s\<rparr> in
                Some (go_map (\<lambda>r. case r of
                    Inl e \<Rightarrow> (Inl (DeserializeFailed e), c)
                  | Inr msg \<Rightarrow> (Inr msg, c\<lparr>recvCount := recvCount c + 1\<rparr>))
                  (deserializeMessage data)))"

section \<open>Listeners and the transport\<close>

text \<open>
  Connections live in a store, so that the transport's table and the caller can refer to the
  same one; a reference is a position in it.  What the network answers to a call (whether an
  address resolves, the socket of a dial or an accept, whether the context ends first) is an
  argument of the operation.
\<close>

record TCPListener =
  tcpList_open :: bool
  lconfig :: TransportConfig
  lclosed :: bool

record TCPTransport =
  connections :: "(string, nat) gomap"
  tconfig :: TransportConfig
  activeConns :: uint32
  tclosed :: bool

definition NewTCPTransport :: "TransportConfig \<Rightarrow> TCPTransport" where
  "NewTCPTransport config =
     (let config = (if MaxMsgSize config = 0 then config\<lparr>MaxMsgSize := 16 * 1024 * 1024\<rparr> else config);
          config = (if NodeName config = [] then config\<lparr>NodeName := ''tcp-node''\<rparr> else config)
      in \<lparr>connections = [], tconfig = config, activeConns = 0, tclosed = False\<rparr>)"

definition TCPTransport_Listen :: "bool \<Rightarrow> bool \<Rightarrow> TCPTransport \<Rightarrow> tcp_error + TCPListener" where
  "TCPTransport_Listen resolves binds t =
     (if tclosed t then Inl (Shared ErrListenerClosed)
      else if \<not> resolves then Inl InvalidTCPAddress
      else if \<not> binds then Inl ListenFailed
      else Inr \<lparr>tcpList_open = True, lconfig = tconfig t, lclosed = False\<rparr>)"

definition TCPTransport_Dial ::
    "socket option \<Rightarrow> string \<Rightarrow> TCPTransport \<Rightarrow> TCPConnection list
     \<Rightarrow> (tcp_error + nat) \<times> TCPTransport \<times> TCPConnection list" where
  "TCPTransport_Dial dialled remoteAddr t heap =
     (if tclosed t then (Inl (Shared ErrConnectionClosed), t, heap)
      else case dialled of
        None \<Rightarrow> (Inl TCPDialFailed, t, heap)
      | Some s \<Rightarrow>
          (Inr (length heap),
           t\<lparr>connections := mput remoteAddr (length heap) (connections t),
             activeConns := activeConns t + 1\<rparr>,
           heap @ [new_TCPConnection s (tconfig t)]))"

fun close_range :: "(string, nat) gomap \<Rightarrow> TCPConnection list \<Rightarrow> TCPConnection list" where
  "close_range [] heap = heap"
| "close_range ((addr, r) # m) heap = close_range m (heap[r := close_conn (heap ! r)])"

definition TCPTransport_Close ::
    "TCPTransport \<Rightarrow> TCPConnection list \<Rightarrow> TCPTransport \<times> TCPConnection list" where
  "TCPTransport_Close t heap =
     (t\<lparr>tclosed := True, connections := []\<rparr>, close_range (connections t) heap)"

datatype accept_event = Accepted socket | AcceptError | ContextDone

definition TCPListener_Accept ::
    "accept_event \<Rightarrow> TCPListener \<Rightarrow> TCPConnection list \<Rightarrow> (tcp_error + nat) \<times> TCPConnection list" where
  "TCPListener_Accept ev l heap =
     (if lclosed l then (Inl (Shared ErrListenerClosed), heap)
      else case ev of
        Accepted s \<Rightarrow> (Inr (length heap), heap @ [new_TCPConnection s (lconfig l)])
      | AcceptError \<Rightarrow> (Inl AcceptFailed, heap)
      | ContextDone \<Rightarrow> (Inl (Shared ErrContextCancelled), heap))"

text \<open>Closing the underlying listener a second time is an error of the \<open>net\<close> package.\<close>

definition TCPListener_Close :: "TCPListener \<Rightarrow> tcp_error option \<times> TCPListener" where
  "TCPListener_Close l =
     (if tcpList_open l then None else Some SocketAlreadyClosed,
      l\<lparr>lclosed := True, tcpList_open := False\<rparr>)"

section \<open>What a send puts on the wire\<close>

text \<open>
  The stream a writer is producing: what the socket has taken, and what is still buffered.  Every
  write extends it by the data written or, when it fails, sets the sticky error.
\<close>

definition produced :: "buf_writer \<Rightarrow> socket \<Rightarrow> byte list" where
  "produced w s = sent s @ wbuf w"

lemma sock_write_ok:
  "sock_write p s = (True, s') \<Longrightarrow> sent s' = sent s @ p \<and> arriving s' = arriving s \<and>
     ended s' = ended s \<and> sock_open s' = sock_open s"
  by (auto simp: sock_write_def split: if_splits option.splits)

lemma sock_write_fail:
  assumes "sock_write p s = (False, s')" and "p \<noteq> []"
  shows "\<exists>k < length p. sent s' = sent s @ take k p"
proof (cases "sock_open s")
  case False
  with assms show ?thesis
    by (intro exI [of _ 0]) (simp add: sock_write_def)
next
  case True
  with assms(1) obtain k where "accepts s = Some k" "k < length p" "sent s' = sent s @ take k p"
    by (auto simp: sock_write_def split: option.splits if_splits)
  then show ?thesis
    by blast
qed

lemma bufio_Flush_ok:
  "bufio_Flush w s = (True, w', s') \<Longrightarrow>
     wbuf w' = [] \<and> \<not> werr w' \<and> sent s' = produced w s \<and> arriving s' = arriving s \<and>
     ended s' = ended s \<and> sock_open s' = sock_open s"
  by (auto simp: bufio_Flush_def produced_def dest: sock_write_ok
      split: if_splits prod.splits bool.splits)

lemma bufio_Flush_fail:
  assumes "bufio_Flush w s = (False, w', s')" and "\<not> werr w"
  shows "prefix (sent s) (sent s') \<and> strict_prefix (sent s') (produced w s)"
proof -
  have "sock_write (wbuf w) s = (False, s')" "wbuf w \<noteq> []"
    using assms by (auto simp: bufio_Flush_def split: if_splits prod.splits bool.splits)
  then obtain k where "k < length (wbuf w)" "sent s' = sent s @ take k (wbuf w)"
    using sock_write_fail by blast
  then show ?thesis
    by (auto simp: produced_def strict_prefix_def take_is_prefix)
qed

lemma bufio_Write_ok:
  assumes "bufio_Write p w s = (True, w', s')"
  shows "\<not> werr w' \<and> produced w' s' = produced w s @ p \<and> prefix (sent s) (sent s') \<and>
    arriving s' = arriving s \<and> ended s' = ended s \<and> sock_open s' = sock_open s"
  using assms
proof (induction p w s rule: bufio_Write.induct)
  case (1 p w s)
  let ?n = "write_buffer_size - length (wbuf w)"
  show ?case
  proof (cases "werr w \<or> length p \<le> ?n \<or> wbuf w = []")
    case True
    with 1(2) show ?thesis
      by (auto simp: bufio_Write.simps [of p] produced_def dest!: sock_write_ok
          split: if_splits prod.splits)
  next
    case False
    obtain ok w1 s1 where f: "bufio_Flush (w\<lparr>wbuf := wbuf w @ take ?n p\<rparr>) s = (ok, w1, s1)"
      by (metis prod_cases3)
    with False 1(2) have ok: "ok" "bufio_Write (drop ?n p) w1 s1 = (True, w', s')"
      by (auto simp: bufio_Write.simps [of p] split: if_splits)
    note fl = bufio_Flush_ok [of "w\<lparr>wbuf := wbuf w @ take ?n p\<rparr>" s w1 s1]
    have "\<not> werr w' \<and> produced w' s' = produced w1 s1 @ drop ?n p \<and> prefix (sent s1) (sent s') \<and>
        arriving s' = arriving s1 \<and> ended s' = ended s1 \<and> sock_open s' = sock_open s1"
      using 1(1) [OF _ _ _ _ f [symmetric]] ok False by simp
    moreover from this fl f ok have "prefix (sent s) (sent s')"
      by (auto simp: produced_def intro: append_prefixD [of "sent s"])
    ultimately show ?thesis
      using fl f ok by (simp add: produced_def)
  qed
qed

lemma bufio_Write_fail:
  assumes "bufio_Write p w s = (False, w', s')" and "\<not> werr w"
  shows "prefix (sent s) (sent s') \<and> strict_prefix (sent s') (produced w s @ p)"
  using assms
proof (induction p w s rule: bufio_Write.induct)
  case (1 p w s)
  let ?n = "write_buffer_size - length (wbuf w)"
  let ?w = "w\<lparr>wbuf := wbuf w @ take ?n p\<rparr>"
  have big: "\<not> length p \<le> ?n"
    using 1(2,3) by (auto simp: bufio_Write.simps [of p] split: if_splits)
  show ?case
  proof (cases "wbuf w = []")
    case True
    with big 1(2,3) have "sock_write p s = (False, s')"
      by (auto simp: bufio_Write.simps [of p] split: if_splits prod.splits)
    moreover have "p \<noteq> []"
      using big by auto
    ultimately obtain k where "k < length p" "sent s' = sent s @ take k p"
      using sock_write_fail by blast
    with True show ?thesis
      by (auto simp: produced_def strict_prefix_def take_is_prefix)
  next
    case False
    obtain ok w1 s1 where f: "bufio_Flush ?w s = (ok, w1, s1)"
      by (metis prod_cases3)
    show ?thesis
    proof (cases ok)
      case True
      with f big False 1(2,3) have w: "bufio_Write (drop ?n p) w1 s1 = (False, w', s')"
        by (auto simp: bufio_Write.simps [of p] split: if_splits)
      have s1: "wbuf w1 = []" "\<not> werr w1" "sent s1 = sent s @ wbuf w @ take ?n p"
        using f True bufio_Flush_ok [of ?w s w1 s1] by (simp_all add: produced_def)
      then have "prefix (sent s1) (sent s') \<and> strict_prefix (sent s') (sent s1 @ drop ?n p)"
        using 1(1) [OF _ _ _ _ f [symmetric]] True False big 1(3) w by (simp add: produced_def)
      then show ?thesis
        using s1 by (auto simp: produced_def dest: append_prefixD)
    next
      case fail: False
      then have "sent s' = sent s1"
        using f big False 1(2,3) by (auto simp: bufio_Write.simps [of p] split: if_splits)
      moreover have "prefix (produced ?w s) (produced w s @ p)"
        by (simp add: produced_def take_is_prefix)
      ultimately show ?thesis
        using fail f 1(3) bufio_Flush_fail [of ?w s w1 s1]
        by (auto intro: prefix_order.less_le_trans)
    qed
  qed
qed

text \<open>A socket that never fails stays so, and writing to it succeeds.\<close>

lemma sock_write_reliable:
  "accepts s = None \<Longrightarrow> sock_open s \<Longrightarrow> sock_write p s = (True, s\<lparr>sent := sent s @ p\<rparr>)"
  by (simp add: sock_write_def)

lemma bufio_Flush_reliable:
  assumes "accepts s = None" and "sock_open s" and "\<not> werr w"
  shows "\<exists>w' s'. bufio_Flush w s = (True, w', s') \<and> accepts s' = None"
  using assms by (auto simp: bufio_Flush_def sock_write_reliable)

lemma bufio_Write_reliable:
  assumes "accepts s = None" and "sock_open s" and "\<not> werr w"
  shows "\<exists>w' s'. bufio_Write p w s = (True, w', s') \<and> accepts s' = None"
  using assms
proof (induction p w s rule: bufio_Write.induct)
  case (1 p w s)
  let ?n = "write_buffer_size - length (wbuf w)"
  let ?w = "w\<lparr>wbuf := wbuf w @ take ?n p\<rparr>"
  show ?case
  proof (cases "length p \<le> ?n \<or> wbuf w = []")
    case True
    with 1(2-4) show ?thesis
      by (auto simp: bufio_Write.simps [of p] sock_write_reliable)
  next
    case False
    obtain w1 s1 where f: "bufio_Flush ?w s = (True, w1, s1)" "accepts s1 = None"
      using bufio_Flush_reliable [of s ?w] 1(2-4) by auto
    then have "sock_open s1" "\<not> werr w1"
      using bufio_Flush_ok [OF f(1)] 1(3) by simp_all
    then have "\<exists>w' s'. bufio_Write (drop ?n p) w1 s1 = (True, w', s') \<and> accepts s' = None"
      using 1(1) [OF _ _ _ _ f(1) [symmetric]] False 1(4) f(2) by simp
    with False f 1(4) show ?thesis
      by (auto simp: bufio_Write.simps [of p])
  qed
qed

text \<open>
  Between calls an open connection has an open socket, an empty write buffer and no sticky error.
\<close>

definition conn_idle :: "TCPConnection \<Rightarrow> bool" where
  "conn_idle c \<longleftrightarrow>
     (if cclosed c then \<not> sock_open (conn c)
      else sock_open (conn c) \<and> wbuf (writer c) = [] \<and> \<not> werr (writer c))"

definition frame :: "TMessage \<Rightarrow> byte list" where
  "frame m = PutUint32 (of_nat (length (serialize_fields m))) @ serialize_fields m"

lemma conn_idle_new: "sock_open s \<Longrightarrow> conn_idle (new_TCPConnection s cfg)"
  by (simp add: conn_idle_def new_TCPConnection_def)

lemma TCPConnection_Close_simps [simp]:
  "cclosed (close_conn c)"
  "cconfig (close_conn c) = cconfig c"
  "sent (conn (close_conn c)) = sent (conn c)"
  "sendCount (close_conn c) = sendCount c"
  "recvCount (close_conn c) = recvCount c"
  by (simp_all add: TCPConnection_Close_def)

lemma conn_idle_Close: "conn_idle (close_conn c) \<longleftrightarrow> (cclosed c \<longrightarrow> \<not> sock_open (conn c))"
  by (simp add: TCPConnection_Close_def conn_idle_def)

definition sent_ok :: "byte list \<Rightarrow> TCPConnection \<Rightarrow> TCPConnection \<Rightarrow> bool" where
  "sent_ok data c c' \<longleftrightarrow>
     sent (conn c') = sent (conn c) @ PutUint32 (of_nat (length data)) @ data \<and>
     arriving (conn c') = arriving (conn c) \<and> \<not> cclosed c' \<and> conn_idle c' \<and>
     cconfig c' = cconfig c \<and> sendCount c' = sendCount c + 1 \<and> recvCount c' = recvCount c"

definition send_broken :: "byte list \<Rightarrow> TCPConnection \<Rightarrow> TCPConnection \<Rightarrow> bool" where
  "send_broken data c c' \<longleftrightarrow>
     cclosed c' \<and> conn_idle c' \<and> sendCount c' = sendCount c \<and>
     prefix (sent (conn c)) (sent (conn c')) \<and>
     strict_prefix (sent (conn c')) (sent (conn c) @ PutUint32 (of_nat (length data)) @ data)"

lemma send_brokenI:
  assumes "prefix (sent (conn c)) (sent s)"
    and "strict_prefix (sent s) (sent (conn c) @ PutUint32 (of_nat (length data)) @ data)"
    and "\<not> cclosed c"
  shows "send_broken data c (close_conn (c\<lparr>writer := w, conn := s\<rparr>))"
  using assms by (simp add: send_broken_def conn_idle_Close)

lemma send_frame_cases:
  assumes idle: "conn_idle c" and open_c: "\<not> cclosed c"
  shows "(\<exists>c'. send_frame data c = (None, c') \<and> sent_ok data c c') \<or>
    (\<exists>e c'. send_frame data c = (Some e, c') \<and> send_broken data c c')"
proof -
  let ?hd = "PutUint32 (of_nat (length data))"
  have w0: "\<not> werr (writer c)" "produced (writer c) (conn c) = sent (conn c)"
    using idle open_c by (simp_all add: conn_idle_def produced_def)
  obtain ok1 w1 s1 where 1: "bufio_Write ?hd (writer c) (conn c) = (ok1, w1, s1)"
    by (metis prod_cases3)
  obtain ok2 w2 s2 where 2: "bufio_Write data w1 s1 = (ok2, w2, s2)"
    by (metis prod_cases3)
  obtain ok3 w3 s3 where 3: "bufio_Flush w2 s2 = (ok3, w3, s3)"
    by (metis prod_cases3)
  note defs = send_frame_def 1 2 3 Let_def
  consider "\<not> ok1" | "ok1" "\<not> ok2" | "ok1" "ok2" "\<not> ok3" | "ok1" "ok2" "ok3"
    by blast
  then show ?thesis
  proof cases
    assume "\<not> ok1"
    then have "prefix (sent (conn c)) (sent s1)" "strict_prefix (sent s1) (sent (conn c) @ ?hd @ data)"
      using bufio_Write_fail [of ?hd "writer c" "conn c" w1 s1] 1 w0
      by (auto intro: prefix_order.less_le_trans)
    with \<open>\<not> ok1\<close> open_c show ?thesis
      by (auto simp: defs intro: send_brokenI)
  next
    assume *: "ok1" "\<not> ok2"
    note w1 = bufio_Write_ok [of ?hd "writer c" "conn c" w1 s1]
    have "prefix (sent s1) (sent s2)" "strict_prefix (sent s2) (sent (conn c) @ ?hd @ data)"
      using bufio_Write_fail [of data w1 s1 w2 s2] w1 1 2 * w0 by simp_all
    moreover have "prefix (sent (conn c)) (sent s1)"
      using w1 1 * by simp
    ultimately show ?thesis
      using * open_c prefix_order.trans by (auto simp: defs intro!: send_brokenI)
  next
    assume *: "ok1" "ok2" "\<not> ok3"
    note w1 = bufio_Write_ok [of ?hd "writer c" "conn c" w1 s1]
      and w2 = bufio_Write_ok [of data w1 s1 w2 s2]
    have "prefix (sent s2) (sent s3)" "strict_prefix (sent s3) (sent (conn c) @ ?hd @ data)"
      using bufio_Flush_fail [of w2 s2 w3 s3] w1 w2 1 2 3 * w0 by simp_all
    moreover have "prefix (sent (conn c)) (sent s2)"
      using w1 w2 1 2 * prefix_order.trans by auto
    ultimately show ?thesis
      using * open_c prefix_order.trans by (auto simp: defs intro!: send_brokenI)
  next
    assume "ok1" "ok2" "ok3"
    then show ?thesis
      using bufio_Write_ok [of ?hd "writer c" "conn c" w1 s1] bufio_Write_ok [of data w1 s1 w2 s2]
        bufio_Flush_ok [of w2 s2 w3 s3] 1 2 3 w0 idle open_c
      by (auto simp: defs sent_ok_def conn_idle_def)
  qed
qed

lemma send_frame_reliable:
  assumes "conn_idle c" and "\<not> cclosed c" and "accepts (conn c) = None"
  shows "\<exists>c'. send_frame data c = (None, c') \<and> sent_ok data c c' \<and> accepts (conn c') = None"
proof -
  let ?hd = "PutUint32 (of_nat (length data))"
  have w0: "\<not> werr (writer c)" "sock_open (conn c)"
    using assms by (simp_all add: conn_idle_def)
  obtain w1 s1 where 1: "bufio_Write ?hd (writer c) (conn c) = (True, w1, s1)" "accepts s1 = None"
    using bufio_Write_reliable assms(3) w0 by blast
  obtain w2 s2 where 2: "bufio_Write data w1 s1 = (True, w2, s2)" "accepts s2 = None"
    using bufio_Write_reliable [of s1 w1 data] bufio_Write_ok [OF 1(1)] 1(2) w0(2) by auto
  obtain w3 s3 where 3: "bufio_Flush w2 s2 = (True, w3, s3)" "accepts s3 = None"
    using bufio_Flush_reliable [of s2 w2] bufio_Write_ok [OF 1(1)] bufio_Write_ok [OF 2(1)] 2(2)
      w0(2) by auto
  have "\<exists>c'. send_frame data c = (None, c') \<and> accepts (conn c') = None"
    by (simp add: send_frame_def 1 2 3 Let_def)
  with send_frame_cases [OF assms(1,2), of data] show ?thesis
    by auto
qed

text \<open>Receiving when the stream starts with a complete frame.\<close>

lemma Recv_frame:
  assumes "\<not> cclosed c" and "length data < 2 ^ 32" and "\<not> too_large (cconfig c) (length data)"
    and "arriving (conn c) = PutUint32 (of_nat (length data)) @ data @ rest"
  shows "TCPConnection_Recv c =
    Some (go_map (\<lambda>r. case r of
        Inl e \<Rightarrow> (Inl (DeserializeFailed e), c\<lparr>conn := (conn c)\<lparr>arriving := rest\<rparr>\<rparr>)
      | Inr msg \<Rightarrow> (Inr msg, c\<lparr>conn := (conn c)\<lparr>arriving := rest\<rparr>, recvCount := recvCount c + 1\<rparr>))
      (deserializeMessage data))"
proof -
  have "unat (of_nat (length data) :: uint32) = length data"
    using assms(2) by (simp add: unat_of_nat)
  moreover have "\<And>d. ReadFull 4 d (conn c) =
      Some (Some (PutUint32 (of_nat (length data))), (conn c)\<lparr>arriving := data @ rest\<rparr>)"
    by (simp add: ReadFull_def assms(4))
  moreover have "\<And>d. ReadFull (length data) d ((conn c)\<lparr>arriving := data @ rest\<rparr>) =
      Some (Some data, (conn c)\<lparr>arriving := rest\<rparr>)"
    by (simp add: ReadFull_def)
  ultimately show ?thesis
    using assms(1,3) by (simp add: TCPConnection_Recv_def Let_def)
qed

section \<open>Message streams\<close>

text \<open>A client that sends a list of messages, and one that receives a number of them.\<close>

fun send_all :: "TMessage list \<Rightarrow> TCPConnection \<Rightarrow> (tcp_error option list \<times> TCPConnection) go" where
  "send_all [] c = Return ([], c)"
| "send_all (m # ms) c =
     go_bind (TCPConnection_Send (Some m) c) (\<lambda>(r, c').
       go_map (\<lambda>(rs, c''). (r # rs, c'')) (send_all ms c'))"

fun recv_all :: "nat \<Rightarrow> TCPConnection \<Rightarrow> ((tcp_error + TMessage) list \<times> TCPConnection) go option" where
  "recv_all 0 c = Some (Return ([], c))"
| "recv_all (Suc n) c =
     (case TCPConnection_Recv c of
        None \<Rightarrow> None
      | Some (Panic p) \<Rightarrow> Some (Panic p)
      | Some (Return (r, c')) \<Rightarrow>
          map_option (go_map (\<lambda>(rs, c''). (r # rs, c''))) (recv_all n c'))"

definition sendable :: "TransportConfig \<Rightarrow> TMessage \<Rightarrow> bool" where
  "sendable cfg m \<longleftrightarrow>
     length (serialize_fields m) < 2 ^ 32 \<and> \<not> too_large cfg (length (serialize_fields m))"

lemma send_all_reliable:
  assumes "conn_idle c" and "\<not> cclosed c" and "accepts (conn c) = None"
    and "\<And>m. m \<in> set ms \<Longrightarrow> sendable (cconfig c) m"
  shows "\<exists>c'. send_all ms c = Return (replicate (length ms) None, c') \<and>
    sent (conn c') = sent (conn c) @ concat (map frame ms) \<and> conn_idle c' \<and> \<not> cclosed c' \<and>
    sendCount c' = sendCount c + of_nat (length ms)"
  using assms
proof (induction ms arbitrary: c)
  case (Cons m ms)
  obtain c' where c': "send_frame (serialize_fields m) c = (None, c')"
      "sent_ok (serialize_fields m) c c'" "accepts (conn c') = None"
    using send_frame_reliable Cons.prems(1-3) by blast
  moreover have "TCPConnection_Send (Some m) c = Return (None, c')"
    using Cons.prems(2,4) c'(1) by (simp add: TCPConnection_Send_def serializeMessage_def sendable_def)
  moreover obtain c'' where "send_all ms c' = Return (replicate (length ms) None, c'')"
      "sent (conn c'') = sent (conn c') @ concat (map frame ms)" "conn_idle c''" "\<not> cclosed c''"
      "sendCount c'' = sendCount c' + of_nat (length ms)"
    using Cons.IH [of c'] c'(2,3) Cons.prems(4) by (auto simp: sent_ok_def)
  ultimately show ?case
    by (simp add: sent_ok_def frame_def [of m])
qed simp

lemma recv_all_frames:
  assumes "\<not> cclosed c" and "arriving (conn c) = concat (map frame ms) @ rest"
    and "\<And>m. m \<in> set ms \<Longrightarrow> sendable (cconfig c) m \<and> wire_ok m"
  shows "\<exists>c'. recv_all (length ms) c = Some (Return (map (\<lambda>m. Inr (wire_view m)) ms, c')) \<and>
    arriving (conn c') = rest \<and> \<not> cclosed c' \<and> recvCount c' = recvCount c + of_nat (length ms)"
  using assms
proof (induction ms arbitrary: c)
  case (Cons m ms)
  let ?c = "c\<lparr>conn := (conn c)\<lparr>arriving := concat (map frame ms) @ rest\<rparr>,
    recvCount := recvCount c + 1\<rparr>"
  have "sendable (cconfig c) m" "wire_ok m"
    using Cons.prems(3) by simp_all
  then have "TCPConnection_Recv c = Some (Return (Inr (wire_view m), ?c))"
    using Recv_frame [of c "serialize_fields m" "concat (map frame ms) @ rest"] Cons.prems(1,2)
      deserialize_serialized [of m "serialize_fields m" "[]"]
    by (simp add: frame_def [of m] sendable_def)
  moreover obtain c' where "recv_all (length ms) ?c = Some (Return (map (\<lambda>m. Inr (wire_view m)) ms, c'))"
      "arriving (conn c') = rest" "\<not> cclosed c'" "recvCount c' = recvCount ?c + of_nat (length ms)"
    using Cons.IH [of ?c] Cons.prems by auto
  ultimately show ?case
    by simp
qed simp

section \<open>Properties of the transport\<close>

text \<open>References in the table point into the store.\<close>

definition table_ok :: "TCPTransport \<Rightarrow> TCPConnection list \<Rightarrow> bool" where
  "table_ok t heap \<longleftrightarrow>
     mwf (connections t) \<and> (\<forall>r \<in> ran (map_of (connections t)). r < length heap)"

lemma length_close_range [simp]: "length (close_range m heap) = length heap"
  by (induction m heap rule: close_range.induct) simp_all

lemma close_range_nth:
  assumes "\<forall>(a, r) \<in> set m. r < length heap" and "i < length heap"
  shows "close_range m heap ! i =
      (if i \<in> snd ` set m then close_conn (heap ! i) else heap ! i)"
  using assms
proof (induction m heap rule: close_range.induct)
  case (2 addr r m heap)
  have "close_conn (close_conn (heap ! r)) = close_conn (heap ! r)"
    by (simp add: TCPConnection_Close_def)
  with 2 show ?case
    by (auto simp: nth_list_update)
qed simp

lemma table_ok_refs:
  assumes "table_ok t heap"
  shows "\<forall>(a, r) \<in> set (connections t). r < length heap"
    and "snd ` set (connections t) = ran (map_of (connections t))"
proof -
  show "snd ` set (connections t) = ran (map_of (connections t))"
    using assms by (simp add: table_ok_def mwf_def ran_distinct)
  with assms show "\<forall>(a, r) \<in> set (connections t). r < length heap"
    by (force simp: table_ok_def)
qed

lemma table_ok_Dial:
  assumes "table_ok t heap" and "TCPTransport_Dial d addr t heap = (r, t', heap')"
  shows "table_ok t' heap'"
  using assms
  by (fastforce simp: table_ok_def TCPTransport_Dial_def ran_def less_Suc_eq
      split: if_splits option.splits)

text \<open>A healthy pair of ends for the witnesses.\<close>

definition demo_socket :: "byte list \<Rightarrow> socket" where
  "demo_socket bs = \<lparr>accepts = None, sent = [], arriving = bs, ended = False, sock_open = True, close_fails = False\<rparr>"

definition demo_message :: TMessage where
  "demo_message = \<lparr>From = ''a'', To = ''b'', Seq = 7, Body = Some [1, 2], TTimestamp = zero_time,
     VectorClockData = None, TMetadata = None\<rparr>"

text \<open>C4. Every message sent arrives, once and in order, without its time stamp and metadata.  Over a
  connection whose socket does not fail, sending a list of messages that fit the wire format and
  the size limits of both ends succeeds for every one and writes their frames.  The other end,
  when these bytes arrive (whatever follows them), receives one message for each of them in this
  order, leaves what follows unread and counts them.  A received message has the sender, the
  receiver, the sequence number and the bytes of the body and of the clock data that were sent;
  its time stamp is the zero time and its metadata nil whatever was sent, and its body and clock
  data are not nil (a nil slice arrives as an empty one).\<close>

theorem tcp_stream_delivery:
  assumes "conn_idle a" and "\<not> cclosed a" and "accepts (conn a) = None" and "\<not> cclosed b"
    and "\<And>m. m \<in> set ms \<Longrightarrow> wire_ok m \<and> sendable (cconfig a) m \<and> sendable (cconfig b) m"
    and "arriving (conn b) = concat (map frame ms) @ rest"
  shows "\<exists>a' b' rs.
    send_all ms a = Return (replicate (length ms) None, a') \<and>
    sent (conn a') = sent (conn a) @ concat (map frame ms) \<and>
    sendCount a' = sendCount a + of_nat (length ms) \<and>
    recv_all (length ms) b = Some (Return (map Inr rs, b')) \<and>
    list_all2 (\<lambda>m r. From r = From m \<and> To r = To m \<and> Seq r = Seq m \<and>
       Body r = Some (the_bytes (Body m)) \<and>
       VectorClockData r = Some (the_bytes (VectorClockData m)) \<and>
       TTimestamp r = zero_time \<and> TMetadata r = None) ms rs \<and>
    arriving (conn b') = rest \<and> recvCount b' = recvCount b + of_nat (length ms)"
proof -
  obtain a' where a': "send_all ms a = Return (replicate (length ms) None, a')"
      "sent (conn a') = sent (conn a) @ concat (map frame ms)"
      "sendCount a' = sendCount a + of_nat (length ms)"
    using send_all_reliable [of a ms] assms(1-3,5) by blast
  obtain b' where b': "recv_all (length ms) b = Some (Return (map Inr (map wire_view ms), b'))"
      "arriving (conn b') = rest" "recvCount b' = recvCount b + of_nat (length ms)"
    using recv_all_frames [of b ms rest] assms(4-6) by (auto simp: comp_def)
  have "list_all2 (\<lambda>m r. From r = From m \<and> To r = To m \<and> Seq r = Seq m \<and>
       Body r = Some (the_bytes (Body m)) \<and>
       VectorClockData r = Some (the_bytes (VectorClockData m)) \<and>
       TTimestamp r = zero_time \<and> TMetadata r = None) ms (map wire_view ms)"
    by (simp add: list_all2_conv_all_nth wire_view_def)
  then show ?thesis
    using a' b' by blast
qed

theorem tcp_stream_delivery_witness:
  "\<exists>a' b' r1 r2.
     send_all [demo_message, demo_message] (new_TCPConnection (demo_socket []) DefaultConfig) =
       Return ([None, None], a') \<and>
     sent (conn a') = frame demo_message @ frame demo_message \<and>
     recv_all 2 (new_TCPConnection (demo_socket (frame demo_message @ frame demo_message)) DefaultConfig) =
       Some (Return ([Inr r1, Inr r2], b')) \<and>
     Seq r1 = 7 \<and> Body r2 = Some [1, 2]"
proof -
  let ?a = "new_TCPConnection (demo_socket []) DefaultConfig"
  let ?b = "new_TCPConnection (demo_socket (frame demo_message @ frame demo_message)) DefaultConfig"
  have "wire_ok demo_message" "sendable DefaultConfig demo_message"
    by (simp_all add: demo_message_def wire_ok_def sendable_def too_large_def DefaultConfig_def)
  then show ?thesis
    using tcp_stream_delivery [of ?a ?b "[demo_message, demo_message]" "[]"]
      conn_idle_new [of "demo_socket []" DefaultConfig]
    by (auto simp: new_TCPConnection_def demo_socket_def numeral_2_eq_2 list_all2_Cons1
        demo_message_def simp del: send_all.simps recv_all.simps)
qed

text \<open>C23. A send is all or a closed connection: on an open connection, sending a message within the
  size limit either succeeds, with exactly its frame appended to the bytes written and the
  connection still usable, or fails with the connection closed, nothing counted and only a proper
  prefix of the frame written.  A message over the limit is refused and changes nothing; a nil
  message panics.\<close>

theorem tcp_send_frame_or_close:
  assumes "conn_idle c" and "\<not> cclosed c"
  shows "(if too_large (cconfig c) (length (serialize_fields m))
    then TCPConnection_Send (Some m) c = Return (Some (Shared ErrTransportMessageTooLarge), c)
    else (\<exists>c'. TCPConnection_Send (Some m) c = Return (None, c') \<and> \<not> cclosed c' \<and> conn_idle c' \<and>
            sent (conn c') = sent (conn c) @ frame m \<and> sendCount c' = sendCount c + 1) \<or>
         (\<exists>e c'. TCPConnection_Send (Some m) c = Return (Some e, c') \<and> cclosed c' \<and> conn_idle c' \<and>
            prefix (sent (conn c)) (sent (conn c')) \<and>
            strict_prefix (sent (conn c')) (sent (conn c) @ frame m) \<and> sendCount c' = sendCount c)) \<and>
    TCPConnection_Send None c = Panic NilDereference"
  using assms send_frame_cases [of c "serialize_fields m"]
  by (auto simp: TCPConnection_Send_def serializeMessage_def sent_ok_def send_broken_def frame_def)

theorem tcp_send_frame_or_close_witness:
  "TCPConnection_Send None (new_TCPConnection (demo_socket []) DefaultConfig) = Panic NilDereference"
  using tcp_send_frame_or_close [of "new_TCPConnection (demo_socket []) DefaultConfig"]
    conn_idle_new [of "demo_socket []" DefaultConfig]
  by (simp add: new_TCPConnection_def demo_socket_def)

text \<open>C29. Receiving a frame whose contents do not parse reports the error and leaves the connection
  open and in step: the next receive reads the next frame.\<close>

theorem tcp_recv_resynchronises:
  assumes "\<not> cclosed c" and "length data < 2 ^ 32" and "\<not> too_large (cconfig c) (length data)"
    and "deserializeMessage data = Return (Inl e)"
    and "arriving (conn c) = PutUint32 (of_nat (length data)) @ data @ frame m @ rest"
    and "wire_ok m" and "sendable (cconfig c) m"
  shows "\<exists>c' c''. TCPConnection_Recv c = Some (Return (Inl (DeserializeFailed e), c')) \<and>
    \<not> cclosed c' \<and> recvCount c' = recvCount c \<and>
    TCPConnection_Recv c' = Some (Return (Inr (wire_view m), c'')) \<and> arriving (conn c'') = rest \<and>
    recvCount c'' = recvCount c + 1"
proof -
  let ?c = "c\<lparr>conn := (conn c)\<lparr>arriving := frame m @ rest\<rparr>\<rparr>"
  have "TCPConnection_Recv c = Some (Return (Inl (DeserializeFailed e), ?c))"
    using Recv_frame [OF assms(1-3,5)] assms(4) by simp
  moreover have "\<exists>c''. recv_all (length [m]) ?c = Some (Return (map (\<lambda>m. Inr (wire_view m)) [m], c'')) \<and>
      arriving (conn c'') = rest \<and> recvCount c'' = recvCount c + 1"
    using recv_all_frames [of ?c "[m]" rest] assms(1,6,7) by auto
  ultimately show ?thesis
    using assms(1) by (auto split: option.splits go.splits prod.splits)
qed

theorem tcp_recv_resynchronises_witness:
  "\<exists>c' c''. TCPConnection_Recv (new_TCPConnection
        (demo_socket (PutUint32 1 @ [5] @ frame demo_message)) DefaultConfig) =
      Some (Return (Inl (DeserializeFailed DataTooShort), c')) \<and>
    TCPConnection_Recv c' = Some (Return (Inr (wire_view demo_message), c''))"
proof -
  let ?c = "new_TCPConnection (demo_socket (PutUint32 1 @ [5] @ frame demo_message)) DefaultConfig"
  have "wire_ok demo_message" "sendable DefaultConfig demo_message"
    by (simp_all add: demo_message_def wire_ok_def sendable_def too_large_def DefaultConfig_def)
  then show ?thesis
    using tcp_recv_resynchronises [of ?c "[5]" DataTooShort demo_message "[]"]
    by (auto simp: new_TCPConnection_def demo_socket_def deserializeMessage_def too_large_def
        DefaultConfig_def)
qed

lemma Recv_error_closes:
  assumes "TCPConnection_Recv c = Some (Return (Inl e, c'))"
  shows "(\<exists>w. e = DeserializeFailed w) \<or> cclosed c'"
  using assms
  by (auto simp: TCPConnection_Recv_def Let_def
      split: if_splits option.splits prod.splits sum.splits) (metis sum.exhaust)

lemma Recv_panic_frame:
  assumes "TCPConnection_Recv c = Some (Panic p)"
  shows "\<exists>data rest. arriving (conn c) = take 4 (arriving (conn c)) @ data @ rest \<and>
    length data = unat (Uint32 (take 4 (arriving (conn c)))) \<and> deserializeMessage data = Panic p"
proof -
  let ?n = "unat (Uint32 (take 4 (arriving (conn c))))" and ?bs = "drop 4 (arriving (conn c))"
  have "deserializeMessage (take ?n ?bs) = Panic p" "?n \<le> length ?bs"
    using assms
    by (auto simp: TCPConnection_Recv_def ReadFull_def Let_def
        split: if_splits option.splits prod.splits elim: go_map.elims)
  then show ?thesis
    using append_take_drop_id [of 4 "arriving (conn c)"] append_take_drop_id [of ?n ?bs]
    by (metis length_take min.absorb2)
qed

text \<open>C30. What a receive can do: it never waits when a read timeout is set; it panics only on a
  complete frame whose contents make the deserialiser panic; and every error other than a
  malformed frame leaves the connection closed, after which sends and receives report a closed
  connection and touch nothing.\<close>

theorem tcp_recv_outcomes:
  "(0 < ReadTimeout (cconfig c) \<longrightarrow> TCPConnection_Recv c \<noteq> None) \<and>
   (TCPConnection_Recv c = Some (Panic p) \<longrightarrow>
      (\<exists>data rest. arriving (conn c) = take 4 (arriving (conn c)) @ data @ rest \<and>
        length data = unat (Uint32 (take 4 (arriving (conn c)))) \<and>
        deserializeMessage data = Panic p)) \<and>
   (TCPConnection_Recv c = Some (Return (Inl e, c')) \<longrightarrow>
      (\<exists>w. e = DeserializeFailed w) \<or>
      cclosed c' \<and> TCPConnection_Recv c' = Some (Return (Inl (Shared ErrConnectionClosed), c')) \<and>
        TCPConnection_Send msg c' = Return (Some (Shared ErrConnectionClosed), c'))"
proof (intro conjI impI)
  assume "0 < ReadTimeout (cconfig c)"
  then show "TCPConnection_Recv c \<noteq> None"
    by (auto simp: TCPConnection_Recv_def ReadFull_def Let_def split: option.splits)
next
  assume "TCPConnection_Recv c = Some (Return (Inl e, c'))"
  from Recv_error_closes [OF this] show "(\<exists>w. e = DeserializeFailed w) \<or>
      cclosed c' \<and> TCPConnection_Recv c' = Some (Return (Inl (Shared ErrConnectionClosed), c')) \<and>
        TCPConnection_Send msg c' = Return (Some (Shared ErrConnectionClosed), c')"
    by (auto simp: TCPConnection_Recv_def TCPConnection_Send_def)
qed (rule Recv_panic_frame)

theorem tcp_recv_outcomes_witness:
  "TCPConnection_Recv (new_TCPConnection (demo_socket []) DefaultConfig) \<noteq> None"
  using tcp_recv_outcomes [of "new_TCPConnection (demo_socket []) DefaultConfig"]
  by (simp add: new_TCPConnection_def DefaultConfig_def)

text \<open>Closing the transport closes exactly the connections in its table, leaves every other
  connection as it is (in particular one that a later dial to the same address replaced in the
  table), forgets the table without lowering the count of active connections, and makes later
  dials and listens fail.\<close>

lemma tcp_Close_effect:
  assumes "table_ok t heap" and "TCPTransport_Close t heap = (t', heap')"
  shows "length heap' = length heap \<and>
    (\<forall>i < length heap. heap' ! i =
       (if i \<in> ran (map_of (connections t)) then close_conn (heap ! i) else heap ! i)) \<and>
    connections t' = [] \<and> activeConns t' = activeConns t \<and>
    TCPTransport_Dial d addr t' heap' = (Inl (Shared ErrConnectionClosed), t', heap') \<and>
    TCPTransport_Listen resolves binds t' = Inl (Shared ErrListenerClosed)"
proof -
  have "heap' = close_range (connections t) heap" "tclosed t'" "connections t' = []"
      "activeConns t' = activeConns t"
    using assms(2) by (auto simp: TCPTransport_Close_def)
  then show ?thesis
    using close_range_nth [OF table_ok_refs(1) [OF assms(1)]] table_ok_refs(2) [OF assms(1)]
    by (auto simp: TCPTransport_Dial_def TCPTransport_Listen_def)
qed

lemma table_ok_New: "table_ok (NewTCPTransport cfg) heap"
  by (simp add: table_ok_def NewTCPTransport_def Let_def)

text \<open>Dialling one address twice: the table keeps the second connection only.\<close>

definition demo_conn :: TCPConnection where
  "demo_conn = new_TCPConnection (demo_socket []) (tconfig (NewTCPTransport DefaultConfig))"

definition demo_transport :: TCPTransport where
  "demo_transport =
     (NewTCPTransport DefaultConfig)\<lparr>connections := [(''n:1'', 1)], activeConns := 2\<rparr>"

lemma demo_dial_twice:
  "case TCPTransport_Dial (Some (demo_socket [])) ''n:1'' (NewTCPTransport DefaultConfig) [] of
     (r, t, heap) \<Rightarrow> TCPTransport_Dial (Some (demo_socket [])) ''n:1'' t heap =
       (Inr 1, demo_transport, [demo_conn, demo_conn])"
  by (simp add: TCPTransport_Dial_def NewTCPTransport_def demo_transport_def demo_conn_def Let_def)

end
