(* ===== verification/Spec2Isabelle.thy ===== *)
theory Spec2Isabelle
  imports Causality Vector_Text Message_Json Memory_Concurrency Mock_Transport Tcp_Transport
begin

text \<open>
  A verification development for causalclock, a Go library of vector clocks and version vectors
  with a message layer and message transports for distributed systems.

  \<^bold>\<open>The program.\<close>  The package clock (src/clock/clock.go) implements vector clocks: a map
  from node names to int64 counters with increment, merge and a four-way comparison.  The package
  version (src/version/vector.go) does the same for replicas with uint64 counters.  The package
  message (src/message) puts a clock into a validated message and serialises it as JSON or CBOR.
  The package transport (src/transport) carries messages over TCP, over queues in memory, or over
  a mock for tests.  The packages meet where an application uses them together: it increments its
  clock, puts a copy into a message, serialises it, sends the bytes as the body of a transport
  message, and the receiver decodes it, merges the clock and increments its own entry.

  \<^bold>\<open>Conventions.\<close>  Go strings are byte strings; integers keep their width as words, int64
  being read by \<^term>\<open>sint\<close> and uint64 by \<^term>\<open>uint\<close>; \<open>int\<close> is 64 bits wide, so lengths and
  offsets do not overflow and are natural numbers.  A pointer or a slice that may be nil is an
  option.  A map is an association list with distinct keys, read in the order in which a range
  loop visits it; the set of identifiers that Compare builds itself is visited in an order that is
  an argument (\<open>visit\<close>), and every order is shown to give the same result.  A call returns or panics
  (the type \<open>go\<close> of Go_Prelude); an index or a slice out of range panics (\<open>go_index\<close>,
  \<open>go_slice\<close>), a Go error is the left side of a sum or an option.  Loops are recursive functions; each terminates, by structural
  recursion or a measure, so no fuel is used anywhere.  A call that waits forever has the result
  \<open>None\<close>.  Operations are modelled one at a time, and for the in-memory queues also interleaved, in
  steps between which another goroutine can come in.

  \<^bold>\<open>The theories.\<close>
  \<^item> Go_Prelude: panics, machine integers, maps, byte slices and time stamps, and the lemmas on
    them the other theories share.
  \<^item> Counter_Vector: the loops that clock.go and vector.go have in common (initialise, copy,
    merge, compare), over any counter type.  The locale counter_order states what the
    comparison of counters must satisfy and proves what the loops compute; it is interpreted for
    int64 and uint64.  The locale causal_vector is the interface of a vector to its clients:
    merge is the pointwise maximum, compare the pointwise order.
  \<^item> Vector_Clock (clock.go) and Version_Vector (vector.go): the record, every method, the
    invariant and the interpretation of causal_vector.  Compare refines the pointwise order and
    is a partial order; merge is a least upper bound, idempotent, commutative and associative;
    increment advances one entry and wraps at the largest int64; no result depends on the
    iteration order of a map; what nil receivers and negative counters do.
  \<^item> Clock_Heap (clock.go): NewClock, Copy, Increment, Set and Merge on a store of structs and
    maps, where pointers can be equal and maps could be shared.  No two clocks ever share a map;
    each method does to its receiver what Vector_Clock says and nothing to another clock, also
    when a clock is merged into itself; so a copy is a snapshot that calls on other clocks cannot
    change.  (Version vectors have the same methods; they are modelled as values only.)
  \<^item> Causality: histories of events and happened-before, and, in the locale causal_clock, the
    theorem that comparing stamps decides happened-before exactly; interpreted for vector clocks
    (histories shorter than \<open>2^63\<close> events) and version vectors (\<open>2^64\<close>), the points at which a
    counter can wrap.
  \<^item> Go_Strings and Vector_Text: UTF-8 decoding, trimming, splitting, printing and scanning
    of integers as the standard library does them; String and ParseClock with their round trip, and
    exactly which texts ParseClock accepts and what it makes of them.
  \<^item> Message_Core (message.go): message, validation, size, metadata, and NewMessage on the store of
    Clock_Heap: the message gets a clock of its own.  Message_Codec (cbor.go,
    serializer.go): conversion to and from the helper struct, the CBOR serializer and the registry.
    The CBOR library is not part of the repository: its encoder and decoder are the functions a
    serializer record holds, and the round trip states as hypotheses that it encodes a struct and
    decodes the bytes to the same fields.
  \<^item> Go_Json: what the standard library does for JSON text (Go 1.21): quoting and unquoting of
    strings with UTF-8 and surrogates, numbers, base64, and a reader that keeps a stack of open
    arrays and objects and is total because every token takes a character.  Reading the text of a
    tree gives the tree back, with strings as valid UTF-8.
  \<^item> Message_Json (json_helpers.go, json.go): writing the struct under its tags, decoding a tree
    into it (key folding, unknown keys, null, duplicate members, arrays into byte slices),
    MarshalJSON, UnmarshalJSON and the serializer.  The round trip needs no hypothesis on a library;
    Unmarshal never panics; which messages it cannot carry.  The locale serializer is the contract
    of the Serializer interface, interpreted for JSON and CBOR.
  \<^item> Transport_Core (transport.go): the transport message, errors, configuration, and the locale
    ordered_channel, the order that every transport promises for any mixture of operations.
  \<^item> Tcp_Wire and Tcp_Transport (tcp.go): the byte format with an exact characterisation of the
    messages that survive it and of the bytes that make the reader panic; sockets and buffered
    writers of the standard library; sending, receiving, listening, dialling and closing.  A
    socket may fail after any number of bytes, and closing it may report an error.  Streams of
    messages arrive in order, without time stamps and metadata, which the format does not carry; a
    failing send leaves a proper prefix of a frame and a closed connection.
  \<^item> Memory_Transport (memory.go): queues, connections and listeners in a store, every
    operation, the interpretation of ordered_channel, and theorems on dialling, draining after a
    close, and which calls panic.
  \<^item> Memory_Concurrency (memory.go): goroutines with lists of Send, Recv and Close calls, one step
    for each section under a mutex and each channel operation, under every interleaving.  Queues stay
    in order; every execution ends within a bound; a single receiver never sleeps while a message
    is queued, two can; the only panic is a Send that races with a Close; and a call without
    interference does what Memory_Transport says.
  \<^item> Mock_Transport (mock.go): the mock with its hooks, functions over a state of their own that may
    also close connections and turn failure switches; exactly when a send panics, the interpretation
    of ordered_channel for hooks that close no connection, and what peeking does to the order.
  \<^item> This theory: a message from one node's clock to another's over CBOR and TCP.

  \<^bold>\<open>Not modelled.\<close>  Goroutines that race on one TCP connection, on the mock or on the tables of a
  transport; hooks of the mock that make other calls than closing a connection and turning its
  failure switches; the aliasing of payload and body slices, which messages share with their
  senders; the address getters of TCP, which ask the
  socket; Go's memory model (the in-memory transport's Dial reads a flag outside its lock);
  types.go, which only re-exports names.

  \<^bold>\<open>Plan.\<close>  Next come a causal message in JSON over the in-memory transport end to end, the
  interleaving of Accept with closing a listener, and concurrent sends on one TCP connection.
\<close>

section \<open>A causal message over TCP\<close>

text \<open>
  The parts together: a node puts its clock into a message, the serializer turns it into bytes,
  the bytes travel as the body of a transport message over TCP, and the receiver decodes them,
  merges the clock and counts the delivery.
\<close>

text \<open>What the receiver's clock becomes, from the clock it had and the one that arrived.\<close>

lemma receive_advances:
  assumes "clock_ok (Some r)" and "clock_ok (Some k)" and "clock_ok c"
    and "\<And>n. Clock_Get (Some k) n = Clock_Get c n"
    and "clock_val (Some r) me < 2 ^ 63 - 1" and "clock_val c me < 2 ^ 63 - 1"
  shows "\<exists>r' v. Clock_Increment (Some (clock_merged r k)) me = Return (r', v) \<and> clock_ok (Some r') \<and>
    Clock_HappenedBefore c (Some r') \<and> Clock_HappenedBefore (Some r) (Some r')"
proof -
  have k: "clock_val (Some k) = clock_val c"
    using assms(4) by (simp add: clock_val_def fun_eq_iff)
  let ?m = "clock_merged r k"
  have m: "clock_ok (Some ?m)" "clock_val (Some ?m) = (\<lambda>n. max (clock_val (Some r) n) (clock_val c n))"
    using assms(1,2) k by (simp_all add: clock_merged_ok clock_merged_val clock_ok_rep fun_eq_iff)
  obtain r' v where inc: "Clock_Increment (Some ?m) me = Return (r', v)"
    using Clock_Increment_total by blast
  have r': "clock_ok (Some r')"
      "clock_val (Some r') = (clock_val (Some ?m))(me := clock_val (Some ?m) me + 1)"
    using Clock_Increment_ok [OF inc m(1)] Clock_Increment_val [OF inc] assms(5,6) by (simp_all add: m(2))
  have "clock_val x < clock_val (Some r')" if "clock_val x \<le> clock_val (Some ?m)" for x
  proof -
    have le: "clock_val x n \<le> clock_val (Some ?m) n" for n
      using that by (simp add: le_fun_def)
    have "clock_val x n \<le> clock_val (Some r') n" for n
      using le [of n] by (auto simp: r'(2))
    moreover have "clock_val x me < clock_val (Some r') me"
      using le [of me] by (simp add: r'(2))
    ultimately show ?thesis
      by (auto simp: less_fun_def le_fun_def not_le)
  qed
  then have "clock_val c < clock_val (Some r')" "clock_val (Some r) < clock_val (Some r')"
    by (auto simp: m(2) le_fun_def)
  with r' inc assms(1,3) show ?thesis
    by (simp add: Clock_HappenedBefore_def Clock_Compare_spec cmp_spec_iffs)
qed

text \<open>C6. A causal message end to end.  Let the CBOR library encode a valid message within the size
  limit and decode those bytes to the same fields.  If the bytes are sent as the body of a
  transport message that fits the wire format and both ends' limits, over a TCP connection that
  does not fail, then marshalling and sending succeed; when the frame arrives, receiving, decoding,
  merging and incrementing succeed, and the sender's clock and the receiver's old clock both
  happened before the receiver's new clock.\<close>

theorem causal_message_over_tcp:
  assumes msg: "Validate (Some m) = None" "clock_ok (MClock m)"
    and enc: "encMode s (to_helper m) = Inr data" "data \<noteq> []" "length data \<le> MaxMessageSize"
    and dec: "decMode s data = Inr h" "hVersion h = Version m" "hSenderID h = SenderID m"
      "hPayload h = Payload m"
      "map_of (entries (hClockData h)) = map_of (entries (hClockData (to_helper m)))"
      "mwf (entries (hClockData h))" "set (entries (hMetadata h)) = set (entries (Metadata m))"
    and tm: "Body tm = Some data" "wire_ok tm" "sendable (cconfig a) tm" "sendable (cconfig b) tm"
    and tcp: "conn_idle a" "\<not> cclosed a" "accepts (conn a) = None" "\<not> cclosed b"
      "arriving (conn b) = frame tm"
    and recv: "clock_ok (Some r)" "clock_val (Some r) me < 2 ^ 63 - 1"
      "clock_val (MClock m) me < 2 ^ 63 - 1"
  shows "CBOR_Marshal s (Some m) = Inr data \<and>
    (\<exists>a' b' tm' m' c r' v.
      TCPConnection_Send (Some tm) a = Return (None, a') \<and>
      sent (conn a') = sent (conn a) @ frame tm \<and>
      TCPConnection_Recv b = Some (Return (Inr tm', b')) \<and> Body tm' = Some data \<and>
      CBOR_Unmarshal s data = Return (Inr m') \<and> Validate (Some m') = None \<and>
      Clock_Merge (Some r) (MClock m') = Return (Some c) \<and>
      Clock_Increment (Some c) me = Return (r', v) \<and> clock_ok (Some r') \<and>
      Clock_HappenedBefore (MClock m) (Some r') \<and> Clock_HappenedBefore (Some r) (Some r'))"
proof -
  obtain k where k: "CBOR_Unmarshal s data = Return (Inr (from_helper h k))"
      "Validate (Some (from_helper h k)) = None" "clock_ok (Some k)"
      "\<forall>n. Clock_Get (Some k) n = Clock_Get (MClock m) n"
    using CBOR_decodes [OF msg enc(2,3) dec] by blast
  have mk: "MClock (from_helper h k) = Some k"
    by (simp add: from_helper_def)
  obtain r' v where r': "Clock_Increment (Some (clock_merged r k)) me = Return (r', v)"
      "clock_ok (Some r')" "Clock_HappenedBefore (MClock m) (Some r')" "Clock_HappenedBefore (Some r) (Some r')"
    using receive_advances [OF recv(1) k(3) msg(2) _ recv(2,3)] k(4) by blast
  obtain a' where a': "TCPConnection_Send (Some tm) a = Return (None, a')"
      "sent (conn a') = sent (conn a) @ frame tm"
    using send_all_reliable [OF tcp(1-3), of "[tm]"] tm(3)
    by (auto split: prod.splits)
  obtain b' where b': "TCPConnection_Recv b = Some (Return (Inr (wire_view tm), b'))"
    using recv_all_frames [OF tcp(4), of "[tm]" "[]"] tcp(5) tm(2,4)
    by (auto split: option.splits go.splits prod.splits)
  have "CBOR_Marshal s (Some m) = Inr data"
    using msg(1) enc(1,3) by (simp add: CBOR_Marshal_def)
  moreover have "Body (wire_view tm) = Some data"
    using tm(1) by (simp add: wire_view_def)
  ultimately show ?thesis
    using a' b' k(1,2) mk r' Clock_Merge_Some [of r k] by metis
qed

text \<open>A message, a codec and a connection for the witness.\<close>

definition demo_causal :: Message where
  "demo_causal = \<lparr>Version = 1, SenderID = ''n'', MClock = Some \<lparr>clock = Some [(''n'', 2)]\<rparr>,
     Payload = None, Timestamp = zero_time, Metadata = None\<rparr>"

definition demo_codec :: CBORSerializer where
  "demo_codec = \<lparr>encMode = \<lambda>h. Inr [1], decMode = \<lambda>d. Inr (to_helper demo_causal)\<rparr>"

definition demo_envelope :: TMessage where
  "demo_envelope = demo_message\<lparr>Body := Some [1]\<rparr>"

theorem causal_message_over_tcp_witness:
  "\<exists>tm' b' m' c r' v.
     TCPConnection_Recv (new_TCPConnection (demo_socket (frame demo_envelope)) DefaultConfig) =
       Some (Return (Inr tm', b')) \<and> Body tm' = Some [1] \<and>
     CBOR_Unmarshal demo_codec [1] = Return (Inr m') \<and>
     Clock_Merge (Some (NewClock [])) (MClock m') = Return (Some c) \<and>
     Clock_Increment (Some c) ''r'' = Return (r', v) \<and>
     Clock_HappenedBefore (MClock demo_causal) (Some r')"
proof -
  let ?a = "new_TCPConnection (demo_socket []) DefaultConfig"
  let ?b = "new_TCPConnection (demo_socket (frame demo_envelope)) DefaultConfig"
  have msg: "Validate (Some demo_causal) = None" "clock_ok (MClock demo_causal)"
    by (simp_all add: demo_causal_def Validate_ok message_ok_def sender_ok_def clock_ok_def vwf_def mwf_def)
  have enc: "encMode demo_codec (to_helper demo_causal) = Inr [1]" "[1] \<noteq> ([] :: byte list)"
      "length [1 :: byte] \<le> MaxMessageSize" "decMode demo_codec [1] = Inr (to_helper demo_causal)"
    by (simp_all add: demo_codec_def MaxMessageSize_def)
  have wf: "mwf (entries (hClockData (to_helper demo_causal)))"
    by (rule to_helper_clock(1) [OF clock_ok_rep [OF msg(2)] refl])
  have h: "hVersion (to_helper demo_causal) = Version demo_causal"
      "hSenderID (to_helper demo_causal) = SenderID demo_causal"
      "hPayload (to_helper demo_causal) = Payload demo_causal"
      "set (entries (hMetadata (to_helper demo_causal))) = set (entries (Metadata demo_causal))"
    by (simp_all add: to_helper_def)
  have tm: "Body demo_envelope = Some [1]" "wire_ok demo_envelope"
      "sendable (cconfig ?a) demo_envelope" "sendable (cconfig ?b) demo_envelope"
    by (simp_all add: demo_envelope_def demo_message_def wire_ok_def sendable_def too_large_def
        DefaultConfig_def new_TCPConnection_def)
  have tcp: "conn_idle ?a" "\<not> cclosed ?a" "accepts (conn ?a) = None" "\<not> cclosed ?b"
      "arriving (conn ?b) = frame demo_envelope"
    by (simp_all add: new_TCPConnection_def demo_socket_def conn_idle_def)
  have recv: "clock_ok (Some (NewClock []))" "clock_val (Some (NewClock [])) ''r'' < 2 ^ 63 - 1"
      "clock_val (MClock demo_causal) ''r'' < 2 ^ 63 - 1"
    using NewClock_ok [of "[]"]
    by (simp_all add: clock_val_def demo_causal_def Clock_Get_def mget_def NewClock_def)
  from causal_message_over_tcp [OF msg enc h(1-3) refl wf h(4) tm tcp recv] show ?thesis
    by blast
qed

end
